(* ===== verification/Broker_Prelude.thy ===== *)
theory Broker_Prelude
  imports Main "HOL-Library.Word" "HOL-Library.AList" "HOL-Library.Multiset"
begin

text \<open>
  Shared vocabulary of the development: the machine integers and results of the Rust
  code, the few \<open>Vec\<close>, iterator and \<open>HashMap\<close> operations the broker uses, and two
  interfaces every component relies on (a hash map, and a state machine with an
  invariant) as locales.
\<close>

section \<open>Integers, results, errors\<close>

type_synonym u8 = "8 word"
type_synonym u16 = "16 word"
type_synonym u32 = "32 word"
type_synonym u64 = "64 word"
type_synonym u128 = "128 word"

text \<open>
  Lengths, counts and capacities (\<open>usize\<close>) are natural numbers: they measure objects
  in memory and stay below \<open>2 ^ 64\<close>. Where the source guards a \<open>usize\<close> overflow or
  converts to a fixed width, the bound is written out.
\<close>

type_synonym usize = nat

abbreviation usize_max :: nat where
  "usize_max \<equiv> 2 ^ 64 - 1"

definition checked_add :: "usize \<Rightarrow> usize \<Rightarrow> usize option" where
  "checked_add a b = (if a + b \<le> usize_max then Some (a + b) else None)"

definition checked_sub :: "usize \<Rightarrow> usize \<Rightarrow> usize option" where
  "checked_sub a b = (if b \<le> a then Some (a - b) else None)"

lemma checked_add_Some [simp]: "checked_add a b = Some c \<longleftrightarrow> c = a + b \<and> a + b \<le> usize_max"
  by (auto simp: checked_add_def)

lemma checked_add_None [simp]: "checked_add a b = None \<longleftrightarrow> usize_max < a + b"
  by (auto simp: checked_add_def)

lemma checked_sub_Some [simp]: "checked_sub a b = Some c \<longleftrightarrow> b \<le> a \<and> c = a - b"
  by (auto simp: checked_sub_def)

lemma checked_sub_None [simp]: "checked_sub a b = None \<longleftrightarrow> a < b"
  by (auto simp: checked_sub_def)

text \<open>
  A fallible operation returns \<open>Ok\<close> or \<open>Err\<close> as in the source; a failed \<open>unwrap\<close>, an
  index out of range or a failed \<open>assert!\<close> is the third outcome \<open>Panic\<close>.
\<close>

datatype ('e, 'a) result = Ok 'a | Err 'e | Panic

fun is_ok :: "('e, 'a) result \<Rightarrow> bool" where
  "is_ok (Ok _) = True"
| "is_ok _ = False"

lemma is_ok_iff: "is_ok r \<longleftrightarrow> (\<exists>a. r = Ok a)"
  by (cases r) auto

text \<open>The operator \<open>?\<close>: go on with the value, or return the error.\<close>

fun result_bind :: "('e, 'a) result \<Rightarrow> ('a \<Rightarrow> ('e, 'b) result) \<Rightarrow> ('e, 'b) result" where
  "result_bind (Ok a) f = f a"
| "result_bind (Err e) f = Err e"
| "result_bind Panic f = Panic"

lemma result_bind_assoc: "result_bind (result_bind r f) g = result_bind r (\<lambda>a. result_bind (f a) g)"
  by (cases r) simp_all

text \<open>\<open>std::io::Error\<close> as the broker builds it: a kind and a message text.\<close>

datatype error_kind = InvalidData | InvalidInput | BrokenPipe | Other

datatype io_error = IoError (err_kind: error_kind) (err_text: string)

section \<open>Vectors and iterators\<close>

text \<open>\<open>iter.position(p)\<close>: the index of the first element that satisfies \<open>p\<close>.\<close>

fun position :: "('a \<Rightarrow> bool) \<Rightarrow> 'a list \<Rightarrow> usize option" where
  "position P [] = None"
| "position P (x # xs) = (if P x then Some 0 else map_option Suc (position P xs))"

text \<open>What \<open>iter.next()\<close> yields after the iterator has consumed \<open>n\<close> elements.\<close>

fun next_after :: "usize \<Rightarrow> 'a list \<Rightarrow> 'a option" where
  "next_after n xs = (case drop n xs of [] \<Rightarrow> None | x # _ \<Rightarrow> Some x)"

text \<open>
  \<open>iter.find(p)\<close> consumes up to and including the first match (everything when there is
  none); this is what \<open>iter.next()\<close> yields afterwards.
\<close>

fun next_after_find :: "('a \<Rightarrow> bool) \<Rightarrow> 'a list \<Rightarrow> 'a option" where
  "next_after_find P [] = None"
| "next_after_find P (x # xs) =
     (if P x then (case xs of [] \<Rightarrow> None | y # _ \<Rightarrow> Some y) else next_after_find P xs)"

text \<open>\<open>Vec::remove(i)\<close> for an index in range.\<close>

definition vec_remove :: "usize \<Rightarrow> 'a list \<Rightarrow> 'a list" where
  "vec_remove i xs = take i xs @ drop (Suc i) xs"

lemma position_None: "position P xs = None \<longleftrightarrow> (\<forall>x \<in> set xs. \<not> P x)"
  by (induction xs) auto

lemma position_SomeD:
  "position P xs = Some i \<Longrightarrow> i < length xs \<and> P (xs ! i) \<and> (\<forall>j < i. \<not> P (xs ! j))"
  by (induction xs arbitrary: i) (auto simp: nth_Cons less_Suc_eq_0_disj split: if_splits nat.splits)

lemma position_skip:
  "\<forall>x \<in> set xs. \<not> P x \<Longrightarrow> P y \<Longrightarrow> position P (xs @ y # ys) = Some (length xs)"
  by (induction xs) auto

lemma next_after_find_skip:
  "\<forall>x \<in> set xs. \<not> P x \<Longrightarrow> P y \<Longrightarrow>
     next_after_find P (xs @ y # ys) = (case ys of [] \<Rightarrow> None | z # _ \<Rightarrow> Some z)"
  by (induction xs) auto

lemma next_after_find_mem: "next_after_find P xs = Some y \<Longrightarrow> y \<in> set xs"
  by (induction xs) (auto split: if_splits list.splits)

lemma next_after_mem: "next_after n xs = Some y \<Longrightarrow> y \<in> set xs"
  by (auto split: list.splits) (metis in_set_dropD list.set_intros(1))

lemma position_exists: "x \<in> set xs \<Longrightarrow> P x \<Longrightarrow> \<exists>i. position P xs = Some i"
  by (meson not_None_eq position_None)

lemma position_mem: "position (\<lambda>y. y = x) xs = Some i \<Longrightarrow> x \<in> set xs"
  by (induction xs arbitrary: i) (auto split: if_splits)

lemma set_vec_remove_subset: "set (vec_remove i xs) \<subseteq> set xs"
  by (auto simp: vec_remove_def dest: in_set_takeD in_set_dropD)

lemma length_vec_remove: "i < length xs \<Longrightarrow> length (vec_remove i xs) = length xs - 1"
  by (simp add: vec_remove_def)

lemma vec_remove_0 [simp]: "vec_remove 0 (x # xs) = xs"
  by (simp add: vec_remove_def)

lemma vec_remove_Suc [simp]: "vec_remove (Suc i) (x # xs) = x # vec_remove i xs"
  by (simp add: vec_remove_def)

lemma vec_remove_position: 
  "position (\<lambda>y. y = x) xs = Some i \<Longrightarrow> vec_remove i xs = remove1 x xs"
  by (induction xs arbitrary: i) (auto split: if_splits)

lemma in_vec_remove:
  assumes "y \<in> set xs" "y \<noteq> xs ! i" "i < length xs"
  shows "y \<in> set (vec_remove i xs)"
proof -
  from assms(3) have "xs = take i xs @ xs ! i # drop (Suc i) xs"
    by (rule id_take_nth_drop)
  with assms(1,2) show ?thesis
    by (metis Un_iff set_ConsD set_append vec_remove_def)
qed

section \<open>Hash maps\<close>

text \<open>
  A \<open>HashMap\<close> is its list of entries, in the order the table currently iterates them;
  keys are distinct. Code that iterates takes the visiting order as an argument of its
  own (\<open>hash_order\<close> below), because the standard library leaves it unspecified.
\<close>

type_synonym ('k, 'v) hash_map = "('k \<times> 'v) list"

abbreviation (input) hm_empty :: "('k, 'v) hash_map" where
  "hm_empty \<equiv> []"

definition hm_get :: "('k, 'v) hash_map \<Rightarrow> 'k \<Rightarrow> 'v option" where
  "hm_get m = map_of m"

definition hm_insert :: "'k \<Rightarrow> 'v \<Rightarrow> ('k, 'v) hash_map \<Rightarrow> ('k, 'v) hash_map" where
  "hm_insert = AList.update"

definition hm_remove :: "'k \<Rightarrow> ('k, 'v) hash_map \<Rightarrow> ('k, 'v) hash_map" where
  "hm_remove = AList.delete"

definition hm_contains_key :: "('k, 'v) hash_map \<Rightarrow> 'k \<Rightarrow> bool" where
  "hm_contains_key m k \<longleftrightarrow> hm_get m k \<noteq> None"

definition hm_keys :: "('k, 'v) hash_map \<Rightarrow> 'k set" where
  "hm_keys m = fst ` set m"

definition hm_len :: "('k, 'v) hash_map \<Rightarrow> usize" where
  "hm_len = length"

definition hm_ok :: "('k, 'v) hash_map \<Rightarrow> bool" where
  "hm_ok m \<longleftrightarrow> distinct (map fst m)"

definition hash_order :: "(('k \<times> 'v) list \<Rightarrow> ('k \<times> 'v) list) \<Rightarrow> bool" where
  "hash_order visit \<longleftrightarrow> (\<forall>m. mset (visit m) = mset m)"

text \<open>The interface the components rely on.\<close>

locale finite_map =
  fixes empty :: "'m"
    and get :: "'m \<Rightarrow> 'k \<Rightarrow> 'v option"
    and insert :: "'k \<Rightarrow> 'v \<Rightarrow> 'm \<Rightarrow> 'm"
    and remove :: "'k \<Rightarrow> 'm \<Rightarrow> 'm"
    and keys :: "'m \<Rightarrow> 'k set"
    and ok :: "'m \<Rightarrow> bool"
  assumes get_empty: "get empty k = None"
    and get_insert: "get (insert k v m) k' = (if k' = k then Some v else get m k')"
    and get_remove: "get (remove k m) k' = (if k' = k then None else get m k')"
    and keys_get: "k \<in> keys m \<longleftrightarrow> get m k \<noteq> None"
    and ok_empty: "ok empty"
    and ok_insert: "ok m \<Longrightarrow> ok (insert k v m)"
    and ok_remove: "ok m \<Longrightarrow> ok (remove k m)"
begin

lemma keys_empty: "keys empty = {}"
  using keys_get get_empty by auto

lemma keys_insert: "keys (insert k v m) = Set.insert k (keys m)"
  by (auto simp: keys_get get_insert split: if_splits)

lemma keys_remove: "keys (remove k m) = keys m - {k}"
  by (auto simp: keys_get get_remove split: if_splits)

lemma insert_insert: "get (insert k v' (insert k v m)) = get (insert k v' m)"
  by (auto simp: get_insert fun_eq_iff)

lemma remove_insert: "get (remove k (insert k v m)) = get (remove k m)"
  by (auto simp: get_insert get_remove fun_eq_iff)

lemma ok_update: "ok m \<Longrightarrow> ok (insert k v (remove k m))"
  by (intro ok_insert ok_remove)

end

lemma hm_get_Nil [simp]: "hm_get [] k = None"
  by (simp add: hm_get_def)

lemma hm_get_insert [simp]: "hm_get (hm_insert k v m) k' = (if k' = k then Some v else hm_get m k')"
  by (simp add: hm_get_def hm_insert_def update_conv')

lemma hm_get_remove [simp]: "hm_get (hm_remove k m) k' = (if k' = k then None else hm_get m k')"
  by (simp add: hm_get_def hm_remove_def delete_conv')

lemma hm_keys_get: "k \<in> hm_keys m \<longleftrightarrow> hm_get m k \<noteq> None"
  by (simp add: hm_keys_def hm_get_def map_of_eq_None_iff)

lemma hm_ok_Nil [simp]: "hm_ok []"
  by (simp add: hm_ok_def)

lemma hm_ok_insert [simp]: "hm_ok m \<Longrightarrow> hm_ok (hm_insert k v m)"
  by (simp add: hm_ok_def hm_insert_def distinct_update)

lemma hm_ok_remove [simp]: "hm_ok m \<Longrightarrow> hm_ok (hm_remove k m)"
  by (simp add: hm_ok_def hm_remove_def distinct_delete)

interpretation hm: finite_map hm_empty hm_get hm_insert hm_remove hm_keys hm_ok
  by unfold_locales (simp_all add: hm_keys_get)

lemma hm_contains_key_iff: "hm_contains_key m k \<longleftrightarrow> k \<in> hm_keys m"
  by (simp add: hm_contains_key_def hm_keys_get)

lemma hm_get_mem: "hm_ok m \<Longrightarrow> hm_get m k = Some v \<longleftrightarrow> (k, v) \<in> set m"
  by (simp add: hm_ok_def hm_get_def)

lemma hm_ok_card: "hm_ok m \<Longrightarrow> hm_len m = card (hm_keys m)"
  by (metis distinct_card hm_keys_def hm_len_def hm_ok_def length_map list.set_map)

section \<open>State machines with an invariant\<close>

text \<open>
  A component is a set of operations that take its state to a new state and an output.
  The contract is an invariant; its consequence for every run is proved once.
\<close>

locale invariant_machine =
  fixes step :: "'op \<Rightarrow> 's \<Rightarrow> 's"
    and inv :: "'s \<Rightarrow> bool"
  assumes inv_step: "inv s \<Longrightarrow> inv (step op s)"
begin

lemma inv_run: "inv s \<Longrightarrow> inv (fold step ops s)"
  by (induction ops arbitrary: s) (auto intro: inv_step)

lemma inv_reach:
  assumes "inv s" "s' = fold step ops s" "P s' \<Longrightarrow> False" "\<And>t. inv t \<Longrightarrow> P t"
  shows False
  using assms inv_run by blast

end

text \<open>
  Step relations with an event per step: the runs with the events they produce, and an invariant
  that may speak of the events so far.
\<close>

inductive step_run :: "('e \<Rightarrow> 's \<Rightarrow> 's \<Rightarrow> bool) \<Rightarrow> 'e list \<Rightarrow> 's \<Rightarrow> 's \<Rightarrow> bool" for step where
  run_done: "step_run step [] s s"
| run_more: "step_run step es s t \<Longrightarrow> step e t u \<Longrightarrow> step_run step (es @ [e]) s u"

lemma step_run_append: "step_run step fs s t \<Longrightarrow> step_run step es r s \<Longrightarrow> step_run step (es @ fs) r t"
proof (induction rule: step_run.induct)
  case (run_more fs s t e u)
  from step_run.run_more[OF run_more(3)[OF run_more(4)] run_more(2)] show ?case by simp
qed simp

lemma step_run_one: "step e s t \<Longrightarrow> step_run step [e] s t"
  using step_run.run_more[OF step_run.run_done, of step e s t] by simp

lemma step_run_Cons: "step e s t \<Longrightarrow> step_run step es t u \<Longrightarrow> step_run step (e # es) s u"
  using step_run_append[OF _ step_run_one, of step es t u e s] by simp

locale history_machine =
  fixes step :: "'e \<Rightarrow> 's \<Rightarrow> 's \<Rightarrow> bool"
    and inv :: "'e list \<Rightarrow> 's \<Rightarrow> bool"
  assumes inv_event: "inv es s \<Longrightarrow> step e s t \<Longrightarrow> inv (es @ [e]) t"
begin

lemma inv_step_run: "step_run step fs s t \<Longrightarrow> inv es s \<Longrightarrow> inv (es @ fs) t"
proof (induction rule: step_run.induct)
  case (run_more fs s t e u)
  then show ?case
    using inv_event[of "es @ fs" t e u] by simp
qed simp

end

text \<open>
  Running a list of operations and collecting the outputs, and the condition that every
  operation meets a guard in the state it is applied to.
\<close>

fun run_ops :: "('op \<Rightarrow> 's \<Rightarrow> 's \<times> 'out) \<Rightarrow> 'op list \<Rightarrow> 's \<Rightarrow> 's \<times> 'out list" where
  "run_ops step [] s = (s, [])"
| "run_ops step (op # ops) s =
     (let (s', out) = step op s; (s'', outs) = run_ops step ops s' in (s'', out # outs))"

fun run_guarded :: "('op \<Rightarrow> 's \<Rightarrow> 's \<times> 'out) \<Rightarrow> ('op \<Rightarrow> 's \<Rightarrow> bool) \<Rightarrow> 'op list \<Rightarrow> 's \<Rightarrow> bool" where
  "run_guarded step g [] s = True"
| "run_guarded step g (op # ops) s = (g op s \<and> run_guarded step g ops (fst (step op s)))"

lemma run_ops_Cons_outs:
  "snd (run_ops step (op # ops) s) = snd (step op s) # snd (run_ops step ops (fst (step op s)))"
  by (simp add: Let_def split_def)

text \<open>
  A component that refines an abstract one: each concrete step is matched by an abstract
  step with the same output, as long as the operations meet the guard and at most
  \<open>limit\<close> of them have run.
\<close>

locale simulation =
  fixes cstep :: "'op \<Rightarrow> 'c \<Rightarrow> 'c \<times> 'out"
    and astep :: "'op \<Rightarrow> 'a \<Rightarrow> 'a \<times> 'out"
    and guard :: "'op \<Rightarrow> 'a \<Rightarrow> bool"
    and rel :: "nat \<Rightarrow> 'c \<Rightarrow> 'a \<Rightarrow> bool"
    and limit :: nat
  assumes sim_step:
    "\<lbrakk>rel n c a; n < limit; guard op a\<rbrakk> \<Longrightarrow>
       snd (cstep op c) = snd (astep op a) \<and> rel (Suc n) (fst (cstep op c)) (fst (astep op a))"
begin

lemma sim_run:
  assumes "rel n c a" "n + length ops \<le> limit" "run_guarded astep guard ops a"
  shows "snd (run_ops cstep ops c) = snd (run_ops astep ops a)
       \<and> rel (n + length ops) (fst (run_ops cstep ops c)) (fst (run_ops astep ops a))"
  using assms
proof (induction ops arbitrary: n c a)
  case Nil
  then show ?case by simp
next
  case (Cons op ops)
  from Cons.prems have *: "snd (cstep op c) = snd (astep op a)"
      "rel (Suc n) (fst (cstep op c)) (fst (astep op a))"
    using sim_step[of n c a op] by auto
  from Cons.IH[OF *(2)] Cons.prems *(1) show ?case
    by (auto simp: split_def Let_def)
qed

end

end
