(* ===== verification/Wire_Bytes.thy ===== *)
theory Wire_Bytes
  imports Broker_Prelude
begin

text \<open>
  Byte-level encodings the whole wire protocol is built from: big-endian integers
  (\<open>to_be_bytes\<close> and \<open>from_be_bytes\<close> of the standard library) behind one codec
  interface, UTF-8 validity for \<open>String::from_utf8\<close>, and the rounding of \<open>f64\<close>
  products that the size estimates go through.
\<close>

section \<open>Big-endian integers\<close>

fun be_bytes :: "nat \<Rightarrow> nat \<Rightarrow> u8 list" where
  "be_bytes 0 v = []"
| "be_bytes (Suc n) v = be_bytes n (v div 256) @ [word_of_nat v]"

fun be_value :: "u8 list \<Rightarrow> nat" where
  "be_value bs = foldl (\<lambda>acc b. acc * 256 + unat b) 0 bs"

lemma length_be_bytes [simp]: "length (be_bytes n v) = n"
  by (induction n arbitrary: v) auto

lemma be_value_snoc: "be_value (bs @ [b]) = be_value bs * 256 + unat b"
  by simp

lemma be_value_be_bytes: "be_value (be_bytes n v) = v mod 256 ^ n"
proof (induction n arbitrary: v)
  case 0
  then show ?case by simp
next
  case (Suc n)
  have "be_value (be_bytes (Suc n) v) = v div 256 mod 256 ^ n * 256 + v mod 256"
    using Suc.IH[of "v div 256"] by (simp add: unat_of_nat)
  also have "\<dots> = v mod 256 ^ Suc n"
    by (simp add: mod_mult2_eq)
  finally show ?case .
qed

lemma be_value_bound: "be_value bs < 256 ^ length bs"
proof (induction bs rule: rev_induct)
  case Nil
  then show ?case by simp
next
  case (snoc b bs)
  have "unat b < 256"
    using unsigned_less[of b] by simp
  with snoc have "be_value bs * 256 + unat b < 256 ^ length bs * 256"
    by linarith
  then show ?case by (simp add: mult.commute)
qed

lemma be_bytes_be_value: "length bs = n \<Longrightarrow> be_bytes n (be_value bs) = bs"
proof (induction n arbitrary: bs)
  case 0
  then show ?case by simp
next
  case (Suc n)
  then obtain cs c where bs: "bs = cs @ [c]" "length cs = n"
    by (metis length_Suc_conv_rev)
  have "unat c < 256"
    using unsigned_less[of c] by simp
  then have "be_value bs div 256 = be_value cs"
    by (simp add: bs)
  moreover have zero: "word_of_nat 256 = (0 :: u8)"
    by simp
  have "(word_of_nat (be_value bs) :: u8) = c"
    by (simp only: bs be_value_snoc of_nat_add of_nat_mult zero) simp
  ultimately show ?case
    using Suc.IH[OF bs(2)] by (simp add: bs)
qed

definition u16_to_be_bytes :: "u16 \<Rightarrow> u8 list" where
  "u16_to_be_bytes w = be_bytes 2 (unat w)"

definition u32_to_be_bytes :: "u32 \<Rightarrow> u8 list" where
  "u32_to_be_bytes w = be_bytes 4 (unat w)"

definition u64_to_be_bytes :: "u64 \<Rightarrow> u8 list" where
  "u64_to_be_bytes w = be_bytes 8 (unat w)"

definition u128_to_be_bytes :: "u128 \<Rightarrow> u8 list" where
  "u128_to_be_bytes w = be_bytes 16 (unat w)"

definition u16_from_be_bytes :: "u8 list \<Rightarrow> u16" where
  "u16_from_be_bytes bs = word_of_nat (be_value bs)"

definition u32_from_be_bytes :: "u8 list \<Rightarrow> u32" where
  "u32_from_be_bytes bs = word_of_nat (be_value bs)"

definition u64_from_be_bytes :: "u8 list \<Rightarrow> u64" where
  "u64_from_be_bytes bs = word_of_nat (be_value bs)"

definition u128_from_be_bytes :: "u8 list \<Rightarrow> u128" where
  "u128_from_be_bytes bs = word_of_nat (be_value bs)"

text \<open>
  A fixed-width codec: a value always takes \<open>width\<close> bytes and reads back. What parsers
  need follows: cutting the first \<open>width\<close> bytes of an encoded frame gives the value
  back and leaves the rest.
\<close>

locale fixed_codec =
  fixes enc :: "'a \<Rightarrow> u8 list"
    and dec :: "u8 list \<Rightarrow> 'a"
    and width :: nat
  assumes enc_length: "length (enc x) = width"
    and dec_enc: "dec (enc x) = x"
begin

lemma dec_take: "dec (take width (enc x @ rest)) = x"
  by (simp add: dec_enc enc_length)

lemma drop_enc: "drop width (enc x @ rest) = rest"
  by (simp add: enc_length)

lemma enc_eq_iff: "enc x = enc y \<longleftrightarrow> x = y"
  by (metis dec_enc)

lemma enc_append_eq_iff: "enc x @ xs = enc y @ ys \<longleftrightarrow> x = y \<and> xs = ys"
  by (metis dec_take drop_enc)

end

text \<open>A codec that is onto: every block of the right width is the encoding of something.\<close>

locale total_codec = fixed_codec +
  assumes enc_dec: "length bs = width \<Longrightarrow> enc (dec bs) = bs"
begin

lemma dec_eq_iff: "length bs = width \<Longrightarrow> dec bs = x \<longleftrightarrow> bs = enc x"
  using dec_enc[of x] enc_dec[of bs] by auto

lemma dec_inj: "length bs = width \<Longrightarrow> length cs = width \<Longrightarrow> dec bs = dec cs \<Longrightarrow> bs = cs"
  by (metis enc_dec)

end

lemma word_be_roundtrip:
  fixes w :: "'a::len word"
  assumes "256 ^ n = (2::nat) ^ LENGTH('a)"
  shows "word_of_nat (be_value (be_bytes n (unat w))) = w"
  unfolding be_value_be_bytes assms by simp

lemma be_word_roundtrip:
  assumes "256 ^ n = (2::nat) ^ LENGTH('a)" "length bs = n"
  shows "be_bytes n (unat (word_of_nat (be_value bs) :: 'a::len word)) = bs"
proof -
  have "be_value bs < 2 ^ LENGTH('a)"
    using be_value_bound[of bs] assms by metis
  then have "unat (word_of_nat (be_value bs) :: 'a word) = be_value bs"
    by (simp add: unat_of_nat)
  with be_bytes_be_value[OF assms(2)] show ?thesis by simp
qed

interpretation be16: total_codec u16_to_be_bytes u16_from_be_bytes 2
  by unfold_locales
     (simp_all add: u16_to_be_bytes_def u16_from_be_bytes_def word_be_roundtrip be_word_roundtrip
       del: be_value.simps be_bytes.simps)

interpretation be32: total_codec u32_to_be_bytes u32_from_be_bytes 4
  by unfold_locales
     (simp_all add: u32_to_be_bytes_def u32_from_be_bytes_def word_be_roundtrip be_word_roundtrip
       del: be_value.simps be_bytes.simps)

interpretation be64: total_codec u64_to_be_bytes u64_from_be_bytes 8
  by unfold_locales
     (simp_all add: u64_to_be_bytes_def u64_from_be_bytes_def word_be_roundtrip be_word_roundtrip
       del: be_value.simps be_bytes.simps)

interpretation be128: total_codec u128_to_be_bytes u128_from_be_bytes 16
  by unfold_locales
     (simp_all add: u128_to_be_bytes_def u128_from_be_bytes_def word_be_roundtrip be_word_roundtrip
       del: be_value.simps be_bytes.simps)

declare be_value.simps [simp del]

section \<open>Strings\<close>

text \<open>
  A \<open>String\<close> is its sequence of bytes, kept as characters of one byte each, so that the
  names and texts of the source can be written as literals.
\<close>

definition as_bytes :: "string \<Rightarrow> u8 list" where
  "as_bytes s = map (\<lambda>c. word_of_nat (of_char c)) s"

definition of_bytes :: "u8 list \<Rightarrow> string" where
  "of_bytes bs = map (\<lambda>b. char_of (unat b)) bs"

lemma of_bytes_as_bytes [simp]: "of_bytes (as_bytes s) = s"
proof -
  have "of_char c mod (256 :: nat) = of_char c" for c
    by simp
  then show ?thesis
    by (simp add: of_bytes_def as_bytes_def comp_def unat_of_nat)
qed

lemma length_as_bytes [simp]: "length (as_bytes s) = length s"
  by (simp add: as_bytes_def)

lemma length_of_bytes [simp]: "length (of_bytes bs) = length bs"
  by (simp add: of_bytes_def)

lemma as_bytes_of_bytes [simp]: "as_bytes (of_bytes bs) = bs"
proof -
  have "word_of_nat (of_char (char_of (unat b) :: char)) = b" for b :: u8
  proof -
    have "unat b < 256"
      using unsigned_less[of b] by simp
    then show ?thesis
      by (simp add: of_char_of)
  qed
  then show ?thesis
    by (simp add: of_bytes_def as_bytes_def comp_def)
qed

text \<open>Well-formed UTF-8, the condition under which \<open>String::from_utf8\<close> succeeds.\<close>

definition utf8_cont :: "u8 \<Rightarrow> bool" where
  "utf8_cont b \<longleftrightarrow> 0x80 \<le> b \<and> b \<le> 0xBF"

definition utf8_lead3 :: "u8 \<Rightarrow> u8 \<Rightarrow> bool" where
  "utf8_lead3 a b \<longleftrightarrow>
     (a = 0xE0 \<and> 0xA0 \<le> b \<and> b \<le> 0xBF) \<or> (0xE1 \<le> a \<and> a \<le> 0xEC \<and> utf8_cont b)
     \<or> (a = 0xED \<and> 0x80 \<le> b \<and> b \<le> 0x9F) \<or> (0xEE \<le> a \<and> a \<le> 0xEF \<and> utf8_cont b)"

definition utf8_lead4 :: "u8 \<Rightarrow> u8 \<Rightarrow> bool" where
  "utf8_lead4 a b \<longleftrightarrow>
     (a = 0xF0 \<and> 0x90 \<le> b \<and> b \<le> 0xBF) \<or> (0xF1 \<le> a \<and> a \<le> 0xF3 \<and> utf8_cont b)
     \<or> (a = 0xF4 \<and> 0x80 \<le> b \<and> b \<le> 0x8F)"

fun utf8_valid :: "u8 list \<Rightarrow> bool" where
  "utf8_valid [] = True"
| "utf8_valid (a # bs) =
     (if a < 0x80 then utf8_valid bs
      else if 0xC2 \<le> a \<and> a \<le> 0xDF then
        (case bs of b # bs \<Rightarrow> utf8_cont b \<and> utf8_valid bs | [] \<Rightarrow> False)
      else
        (case bs of
           b # c # bs \<Rightarrow>
             (if utf8_lead3 a b then utf8_cont c \<and> utf8_valid bs
              else if utf8_lead4 a b then
                (case bs of d # bs \<Rightarrow> utf8_cont c \<and> utf8_cont d \<and> utf8_valid bs | [] \<Rightarrow> False)
              else False)
         | _ \<Rightarrow> False))"

declare utf8_valid.simps(2) [simp del]

lemma utf8_valid_ascii: "\<forall>b \<in> set bs. b < 0x80 \<Longrightarrow> utf8_valid bs"
  by (induction bs) (auto simp: utf8_valid.simps)

lemma utf8_valid_Cons: "utf8_valid (a # bs) =
     (if a < 0x80 then utf8_valid bs
      else if 0xC2 \<le> a \<and> a \<le> 0xDF then (\<exists>b bs'. bs = b # bs' \<and> utf8_cont b \<and> utf8_valid bs')
      else (\<exists>b c bs'. bs = b # c # bs' \<and> utf8_lead3 a b \<and> utf8_cont c \<and> utf8_valid bs')
        \<or> (\<exists>b c d bs'. bs = b # c # d # bs' \<and> \<not> utf8_lead3 a b \<and> utf8_lead4 a b
             \<and> utf8_cont c \<and> utf8_cont d \<and> utf8_valid bs'))"
  unfolding utf8_valid.simps(2)[of a bs] by (simp split: list.split) blast

lemma utf8_valid_append:
  "utf8_valid bs \<Longrightarrow> utf8_valid cs \<Longrightarrow> utf8_valid (bs @ cs)"
proof (induction "length bs" arbitrary: bs rule: less_induct)
  case less
  show ?case
  proof (cases bs)
    case Nil
    with less.prems show ?thesis by simp
  next
    case (Cons a as)
    have IH: "utf8_valid (ds @ cs)" if "utf8_valid ds" "length ds < length bs" for ds
      using less.hyps[of ds] that less.prems(2) by simp
    from less.prems(1) show ?thesis
      unfolding Cons append_Cons utf8_valid_Cons[of a]
      using IH Cons by (auto split: if_splits)
  qed
qed

text \<open>\<open>trim_end_matches\<close> of the NUL character.\<close>

definition trim_end_nul :: "u8 list \<Rightarrow> u8 list" where
  "trim_end_nul bs = rev (dropWhile (\<lambda>b. b = 0) (rev bs))"

lemma trim_end_nul_padded:
  "bs = [] \<or> last bs \<noteq> 0 \<Longrightarrow> trim_end_nul (bs @ replicate n 0) = bs"
  by (cases bs rule: rev_cases) (simp_all add: trim_end_nul_def dropWhile_append)

end
