(* ===== verification/Error_Codes.thy ===== *)
theory Error_Codes
  imports Wire_Bytes
begin

text \<open>
  \<open>src/errors.rs\<close>: the error codes of a \<open>Failed\<close> response, their numbers, the two-byte
  payload that carries them and the text they print as. The codes are ordered by number
  (\<open>linorder\<close>), which is how the source groups them into categories.
\<close>

datatype error_code =
    UnknownRequestType
  | RequestParseError
  | ResponseFailedError
  | PayloadTooLarge
  | QueueHashNotFound
  | QueueNotFound
  | QueueAlreadyExists
  | QueueDoesNotExist
  | QueueIsEmpty
  | QueueStatsFailed
  | PayloadMissingMessageId
  | NoSuchMessageId
  | MessageAlreadyLocked
  | NoSuchMessageIdLocked
  | MessageNotLockedByClient
  | MessageNotInQueue
  | InvalidConfigPayloadSize
  | ConfigBytesEmpty
  | ConfigInvalidAutoFail
  | ConfigInvalidFailTimeout

fun as_u16 :: "error_code \<Rightarrow> u16" where
  "as_u16 UnknownRequestType = 0"
| "as_u16 RequestParseError = 1"
| "as_u16 ResponseFailedError = 2"
| "as_u16 PayloadTooLarge = 3"
| "as_u16 QueueHashNotFound = 100"
| "as_u16 QueueNotFound = 101"
| "as_u16 QueueAlreadyExists = 102"
| "as_u16 QueueDoesNotExist = 103"
| "as_u16 QueueIsEmpty = 104"
| "as_u16 QueueStatsFailed = 105"
| "as_u16 PayloadMissingMessageId = 200"
| "as_u16 NoSuchMessageId = 201"
| "as_u16 MessageAlreadyLocked = 202"
| "as_u16 NoSuchMessageIdLocked = 203"
| "as_u16 MessageNotLockedByClient = 204"
| "as_u16 MessageNotInQueue = 205"
| "as_u16 InvalidConfigPayloadSize = 300"
| "as_u16 ConfigBytesEmpty = 301"
| "as_u16 ConfigInvalidAutoFail = 302"
| "as_u16 ConfigInvalidFailTimeout = 303"

definition to_payload :: "error_code \<Rightarrow> u8 list" where
  "to_payload e = u16_to_be_bytes (as_u16 e)"

definition from_u16 :: "u16 \<Rightarrow> error_code option" where
  "from_u16 v =
     (if v = 0 then Some UnknownRequestType
      else if v = 1 then Some RequestParseError
      else if v = 2 then Some ResponseFailedError
      else if v = 3 then Some PayloadTooLarge
      else if v = 100 then Some QueueHashNotFound
      else if v = 101 then Some QueueNotFound
      else if v = 102 then Some QueueAlreadyExists
      else if v = 103 then Some QueueDoesNotExist
      else if v = 104 then Some QueueIsEmpty
      else if v = 105 then Some QueueStatsFailed
      else if v = 200 then Some PayloadMissingMessageId
      else if v = 201 then Some NoSuchMessageId
      else if v = 202 then Some MessageAlreadyLocked
      else if v = 203 then Some NoSuchMessageIdLocked
      else if v = 204 then Some MessageNotLockedByClient
      else if v = 205 then Some MessageNotInQueue
      else if v = 300 then Some InvalidConfigPayloadSize
      else if v = 301 then Some ConfigBytesEmpty
      else if v = 302 then Some ConfigInvalidAutoFail
      else if v = 303 then Some ConfigInvalidFailTimeout
      else None)"

fun error_display :: "error_code \<Rightarrow> string" where
  "error_display UnknownRequestType = ''Unknown request type''"
| "error_display RequestParseError = ''Failed to parse request message''"
| "error_display ResponseFailedError = ''Failed to send response''"
| "error_display PayloadTooLarge = ''Payload exceeds maximum size''"
| "error_display QueueHashNotFound = ''Hash not found''"
| "error_display QueueNotFound = ''Queue not found''"
| "error_display QueueAlreadyExists = ''Queue already created''"
| "error_display QueueDoesNotExist = ''Queue does not exist''"
| "error_display QueueIsEmpty = ''Queue is empty''"
| "error_display QueueStatsFailed = ''Statistics failed''"
| "error_display PayloadMissingMessageId = ''Payload doesn'' @ [CHR 0x27] @ ''t contain message_id''"
| "error_display NoSuchMessageId = ''No such message id''"
| "error_display MessageAlreadyLocked = ''Queue message already locked''"
| "error_display NoSuchMessageIdLocked = ''No such message id locked''"
| "error_display MessageNotLockedByClient = ''Queue message is not locked by client''"
| "error_display MessageNotInQueue = ''Message is not in queue''"
| "error_display InvalidConfigPayloadSize = ''Invalid config payload size''"
| "error_display ConfigBytesEmpty = ''Empty bytes''"
| "error_display ConfigInvalidAutoFail = ''Invalid bytes auto_success''"
| "error_display ConfigInvalidFailTimeout = ''Invalid bytes success_timeout''"

section \<open>Codes are a bijection with their numbers\<close>

lemma from_u16_as_u16 [simp]: "from_u16 (as_u16 e) = Some e"
  by (cases e) (simp_all add: from_u16_def)

lemma as_u16_from_u16: "from_u16 v = Some e \<Longrightarrow> as_u16 e = v"
  by (auto simp: from_u16_def split: if_splits)

lemma as_u16_inj: "as_u16 a = as_u16 b \<longleftrightarrow> a = b"
  by (metis from_u16_as_u16 option.inject)

instantiation error_code :: linorder
begin

definition less_eq_error_code :: "error_code \<Rightarrow> error_code \<Rightarrow> bool" where
  "a \<le> b \<longleftrightarrow> as_u16 a \<le> as_u16 b"

definition less_error_code :: "error_code \<Rightarrow> error_code \<Rightarrow> bool" where
  "a < b \<longleftrightarrow> as_u16 a < as_u16 b"

instance
proof
  fix a b c :: error_code
  show "a < b \<longleftrightarrow> a \<le> b \<and> \<not> b \<le> a"
    by (auto simp: less_eq_error_code_def less_error_code_def)
  show "a \<le> a"
    by (simp add: less_eq_error_code_def)
  show "a \<le> b \<Longrightarrow> b \<le> c \<Longrightarrow> a \<le> c"
    unfolding less_eq_error_code_def by (rule order_trans)
  show "a \<le> b \<Longrightarrow> b \<le> a \<Longrightarrow> a = b"
    unfolding less_eq_error_code_def by (metis as_u16_inj order_antisym)
  show "a \<le> b \<or> b \<le> a"
    unfolding less_eq_error_code_def by (rule linear)
qed

end

text \<open>The client's side of a \<open>Failed\<close> payload: two bytes, looked up as a code.\<close>

definition parse_error_payload :: "u8 list \<Rightarrow> error_code option" where
  "parse_error_payload bs = (if length bs = 2 then from_u16 (u16_from_be_bytes bs) else None)"

lemma length_to_payload [simp]: "length (to_payload e) = 2"
  by (simp add: to_payload_def be16.enc_length)

text \<open>
  The error code of a failed response survives the wire: its two-byte payload parses
  back to the same code, and conversely every payload that parses is the encoding of the
  code it parses to, so no two codes share a payload and no unassigned number is accepted.
\<close>

theorem error_payload_roundtrip:
  "parse_error_payload bs = Some e \<longleftrightarrow> bs = to_payload e"
proof
  assume *: "parse_error_payload bs = Some e"
  then have "length bs = 2" "as_u16 e = u16_from_be_bytes bs"
    by (auto simp: parse_error_payload_def as_u16_from_u16 split: if_splits)
  then show "bs = to_payload e"
    by (simp add: to_payload_def be16.enc_dec)
next
  assume "bs = to_payload e"
  then show "parse_error_payload bs = Some e"
    by (simp add: parse_error_payload_def to_payload_def be16.dec_enc be16.enc_length)
qed

text \<open>
  The categories of the source's comment: general codes below 100, queue codes from 100,
  message codes from 200, configuration codes from 300, each category a block.
\<close>

lemma error_categories:
  "e \<le> PayloadTooLarge \<or> (QueueHashNotFound \<le> e \<and> e \<le> QueueStatsFailed)
     \<or> (PayloadMissingMessageId \<le> e \<and> e \<le> MessageNotInQueue) \<or> InvalidConfigPayloadSize \<le> e"
  by (cases e) (simp_all add: less_eq_error_code_def word_le_nat_alt)

end
