(* ===== verification/Queue_Config.thy ===== *)
theory Queue_Config
  imports Error_Codes
begin

unbundle bit_operations_syntax

text \<open>
  \<open>QueueConfig\<close> and \<open>NetQueueConfig\<close> of \<open>src/net/queue.rs\<close>: the stored configuration of
  a queue and the optional update a client sends, with its wire format
  \<open>[flags][auto_fail: 1 byte if bit 0][fail_timeout: 8 bytes if bit 1]\<close>.
\<close>

record queue_config =
  auto_fail :: bool
  fail_timeout :: u64

record net_queue_config =
  net_auto_fail :: "bool option"
  net_fail_timeout :: "u64 option"

definition queue_config_new :: queue_config where
  "queue_config_new = \<lparr>auto_fail = False, fail_timeout = 0\<rparr>"

definition net_queue_config_new :: "bool option \<Rightarrow> u64 option \<Rightarrow> net_queue_config" where
  "net_queue_config_new auto_success success_timeout =
     \<lparr>net_auto_fail = auto_success, net_fail_timeout = success_timeout\<rparr>"

definition net_config_flags :: "net_queue_config \<Rightarrow> u8" where
  "net_config_flags c =
     (let flags = 0;
          flags = (if net_auto_fail c \<noteq> None then flags OR 1 else flags);
          flags = (if net_fail_timeout c \<noteq> None then flags OR 2 else flags)
      in flags)"

definition net_config_to_be_bytes :: "net_queue_config \<Rightarrow> u8 list" where
  "net_config_to_be_bytes c =
     [net_config_flags c]
     @ (case net_auto_fail c of Some auto_success \<Rightarrow> [of_bool auto_success] | None \<Rightarrow> [])
     @ (case net_fail_timeout c of
          Some success_timeout \<Rightarrow> u64_to_be_bytes success_timeout | None \<Rightarrow> [])"

text \<open>
  The two optional fields are read in turn; each reader returns the field and the offset
  behind it, or the error of the source.
\<close>

definition read_auto_success ::
  "u8 \<Rightarrow> u8 list \<Rightarrow> usize \<Rightarrow> (io_error, bool option \<times> usize) result" where
  "read_auto_success flags bytes offset =
     (if flags AND 1 \<noteq> 0 then
        if length bytes < 1 + offset then Err (IoError InvalidData ''invalid bytes auto_success'')
        else Ok (Some (bytes ! offset \<noteq> 0), offset + 1)
      else Ok (None, offset))"

definition read_success_timeout ::
  "u8 \<Rightarrow> u8 list \<Rightarrow> usize \<Rightarrow> (io_error, u64 option \<times> usize) result" where
  "read_success_timeout flags bytes offset =
     (if flags AND 2 \<noteq> 0 then
        if length bytes < 8 + offset then Err (IoError InvalidData ''invalid bytes success_timeout'')
        else Ok (Some (u64_from_be_bytes (take 8 (drop offset bytes))), offset + 8)
      else Ok (None, offset))"

definition net_config_from_be_bytes ::
  "u8 list \<Rightarrow> (io_error, net_queue_config \<times> usize) result" where
  "net_config_from_be_bytes bytes =
     (case bytes of
        [] \<Rightarrow> Err (IoError InvalidData ''empty bytes'')
      | flags # _ \<Rightarrow>
          (case read_auto_success flags bytes 1 of
             Err e \<Rightarrow> Err e | Panic \<Rightarrow> Panic
           | Ok (auto_success, offset) \<Rightarrow>
               (case read_success_timeout flags bytes offset of
                  Err e \<Rightarrow> Err e | Panic \<Rightarrow> Panic
                | Ok (success_timeout, offset) \<Rightarrow>
                    Ok (net_queue_config_new auto_success success_timeout, offset))))"

section \<open>Round trip\<close>

text \<open>
  A configuration update survives the wire: decoding the encoding of any update, with
  any bytes behind it, gives the update back and the number of bytes it occupied.
\<close>

theorem net_config_roundtrip:
  "net_config_from_be_bytes (net_config_to_be_bytes c @ rest) = Ok (c, length (net_config_to_be_bytes c))"
proof (cases c)
  case (fields a t)
  have u64: "take 8 (u64_to_be_bytes v @ rest) = u64_to_be_bytes v"
      "u64_from_be_bytes (u64_to_be_bytes v) = v" "length (u64_to_be_bytes v) = 8" for v
    by (simp_all add: be64.enc_length be64.dec_enc)
  show ?thesis
    by (cases a; cases t)
       (simp_all add: fields net_config_from_be_bytes_def net_config_to_be_bytes_def
         net_config_flags_def read_auto_success_def read_success_timeout_def
         net_queue_config_new_def u64 del: take_append)
qed

text \<open>
  Decoding a configuration update is total: it returns an update with an offset inside
  the buffer, or an error, and never panics; it fails exactly when the buffer is empty or
  shorter than its flag byte announces.
\<close>

theorem net_config_decode_total:
  "(case net_config_from_be_bytes bytes of
      Ok (c, offset) \<Rightarrow> bytes \<noteq> [] \<and> offset \<le> length bytes
        \<and> offset = 1 + of_bool (bytes ! 0 AND 1 \<noteq> 0) + (if bytes ! 0 AND 2 \<noteq> 0 then 8 else 0)
        \<and> (net_auto_fail c \<noteq> None) = (bytes ! 0 AND 1 \<noteq> 0)
        \<and> (net_fail_timeout c \<noteq> None) = (bytes ! 0 AND 2 \<noteq> 0)
    | Err e \<Rightarrow> bytes = [] \<or> length bytes
        < 1 + of_bool (bytes ! 0 AND 1 \<noteq> 0) + (if bytes ! 0 AND 2 \<noteq> 0 then 8 else 0)
    | Panic \<Rightarrow> False)"
  by (cases bytes)
     (auto simp: net_config_from_be_bytes_def read_auto_success_def read_success_timeout_def
       net_queue_config_new_def Suc_le_eq)

end
