(* ===== verification/Queue_Model.thy ===== *)
theory Queue_Model
  imports Queue_Config
begin

text \<open>
  \<open>Queue\<close> of \<open>src/net/queue.rs\<close>, operation by operation. A queue is driven under its
  mutex, so each method is one step: it takes the queue and returns the new queue and the
  method's result. The lock vectors (\<open>Arc<RwLock<Vec<u128>>>\<close>) are only ever reached
  through the map that owns them, so the map holds the vectors themselves. The clock
  (\<open>SystemTime::now\<close>, in milliseconds since the epoch) is an argument of \<open>enqueue\<close>, and
  the order in which a hash map is visited an argument of the operations that iterate.
\<close>

section \<open>Messages\<close>

record queue_message =
  payload :: "u8 list"
  publisher_id :: u128
  timestamp :: u64
  locked_by :: "u128 option"

record message_meta =
  meta_id :: u128
  meta_publisher_id :: u128
  meta_timestamp :: u64
  meta_locked_by :: "u128 option"

text \<open>
  The clock counts milliseconds since the epoch; one set before it, on which the source panics, is
  left out.
\<close>

definition queue_message_new :: "u128 \<Rightarrow> u8 list \<Rightarrow> u128 \<Rightarrow> queue_message" where
  "queue_message_new now_millis pl publisher =
     \<lparr>payload = pl, publisher_id = publisher, timestamp = ucast now_millis, locked_by = None\<rparr>"

definition is_message_locked :: "queue_message \<Rightarrow> bool" where
  "is_message_locked m \<longleftrightarrow> locked_by m \<noteq> None"

definition message_lock :: "u128 \<Rightarrow> queue_message \<Rightarrow> queue_message" where
  "message_lock client m = m\<lparr>locked_by := Some client\<rparr>"

definition message_unlock :: "queue_message \<Rightarrow> queue_message" where
  "message_unlock m = m\<lparr>locked_by := None\<rparr>"

definition message_eq_client :: "queue_message \<Rightarrow> u128 \<Rightarrow> bool" where
  "message_eq_client m client = (case locked_by m of None \<Rightarrow> False | Some holder \<Rightarrow> holder = client)"

definition message_meta_new :: "u128 \<Rightarrow> u128 \<Rightarrow> u64 \<Rightarrow> u128 option \<Rightarrow> message_meta" where
  "message_meta_new i publisher ts holder =
     \<lparr>meta_id = i, meta_publisher_id = publisher, meta_timestamp = ts, meta_locked_by = holder\<rparr>"

text \<open>An unlocked message is written with the holder \<open>u128::MAX\<close>.\<close>

definition meta_to_be_bytes :: "message_meta \<Rightarrow> u8 list" where
  "meta_to_be_bytes m =
     u128_to_be_bytes (meta_id m)
     @ u128_to_be_bytes (meta_publisher_id m)
     @ u64_to_be_bytes (meta_timestamp m)
     @ u128_to_be_bytes (case meta_locked_by m of None \<Rightarrow> - 1 | Some holder \<Rightarrow> holder)"

definition meta_of :: "u128 \<Rightarrow> queue_message \<Rightarrow> message_meta" where
  "meta_of i m = message_meta_new i (publisher_id m) (timestamp m) (locked_by m)"

definition get_meta_as_vec :: "u128 \<Rightarrow> queue_message \<Rightarrow> u8 list" where
  "get_meta_as_vec i m = meta_to_be_bytes (meta_of i m)"

section \<open>The queue\<close>

record queue =
  q_order :: "u128 list"
  q_queue :: "(u128, queue_message) hash_map"
  q_locked :: "(u128, u128 list) hash_map"
  q_next_id :: "u128 option"
  q_config :: queue_config
  q_biggest_payloads :: "usize list"

definition queue_new :: queue where
  "queue_new = \<lparr>q_order = [], q_queue = hm_empty, q_locked = hm_empty, q_next_id = None,
     q_config = queue_config_new, q_biggest_payloads = replicate 5 0\<rparr>"

definition get_config_auto_fail :: "queue \<Rightarrow> bool" where
  "get_config_auto_fail q = auto_fail (q_config q)"

definition get_config_fail_timeout :: "queue \<Rightarrow> u64" where
  "get_config_fail_timeout q = fail_timeout (q_config q)"

definition update_config_auto_fail :: "bool \<Rightarrow> queue \<Rightarrow> queue" where
  "update_config_auto_fail v q = q\<lparr>q_config := (q_config q)\<lparr>auto_fail := v\<rparr>\<rparr>"

definition update_config_fail_timeout :: "u64 \<Rightarrow> queue \<Rightarrow> queue" where
  "update_config_fail_timeout v q = q\<lparr>q_config := (q_config q)\<lparr>fail_timeout := v\<rparr>\<rparr>"

abbreviation invalid_data :: "string \<Rightarrow> io_error" where
  "invalid_data text \<equiv> IoError InvalidData text"

abbreviation queue_is_empty_text :: string where
  "queue_is_empty_text \<equiv> ''Queue is empty''"

abbreviation no_such_message_id_text :: string where
  "no_such_message_id_text \<equiv> ''No such message id''"

abbreviation already_locked_text :: string where
  "already_locked_text \<equiv> ''Queue message already locked''"

abbreviation no_such_message_id_locked_text :: string where
  "no_such_message_id_locked_text \<equiv> ''No such message id locked''"

abbreviation not_locked_by_client_text :: string where
  "not_locked_by_client_text \<equiv> ''Queue message is not locked by client {client_id}''"

abbreviation not_in_queue_text :: string where
  "not_in_queue_text \<equiv> ''Message is not in queue''"

subsection \<open>Enqueue\<close>

text \<open>The id of the next message: one more than the last entry of the order, never 0.\<close>

definition next_message_id :: "u128 list \<Rightarrow> u128" where
  "next_message_id ord =
     (if ord = [] then 1
      else (let result = last ord + 1 in if result = 0 then 1 else result))"

definition enqueue :: "u128 \<Rightarrow> u8 list \<Rightarrow> u128 \<Rightarrow> queue \<Rightarrow> queue \<times> (io_error, unit) result" where
  "enqueue now_millis pl publisher q =
     (let i = next_message_id (q_order q);
          q = (if q_next_id q = None then q\<lparr>q_next_id := Some i\<rparr> else q);
          q = q\<lparr>q_order := q_order q @ [i]\<rparr>;
          q = q\<lparr>q_queue := hm_insert i (queue_message_new now_millis pl publisher) (q_queue q)\<rparr>
      in (q, Ok ()))"

subsection \<open>Clearing tombstones\<close>

definition magic_drain_vec :: usize where
  "magic_drain_vec = 10"

definition drain_zeroes :: "u128 list \<Rightarrow> u128 list" where
  "drain_zeroes ord =
     (if length ord \<ge> magic_drain_vec then
        case position (\<lambda>i. i \<noteq> 0) ord of
          Some idx \<Rightarrow> (if idx \<ge> magic_drain_vec - 1 then drop idx ord else ord)
        | None \<Rightarrow> []
      else ord)"

definition remove_zeroes :: "queue \<Rightarrow> queue" where
  "remove_zeroes q = q\<lparr>q_order := drain_zeroes (q_order q)\<rparr>"

subsection \<open>Locking the next message\<close>

definition first_nonzero :: "u128 list \<Rightarrow> u128 option" where
  "first_nonzero ord = find (\<lambda>x. x \<noteq> 0) ord"

text \<open>Where \<open>next_id\<close> moves after the message \<open>i\<close> has been handed out.\<close>

definition next_id_after :: "u128 \<Rightarrow> u128 list \<Rightarrow> u128 option" where
  "next_id_after i ord =
     (case next_after_find (\<lambda>x. x = i) ord of
        Some n \<Rightarrow> (if n = 0 then first_nonzero ord else Some n)
      | None \<Rightarrow> None)"

text \<open>The lock vector of a client, a fresh one when it has none yet.\<close>

definition locked_ids :: "(u128, u128 list) hash_map \<Rightarrow> u128 \<Rightarrow> u128 list" where
  "locked_ids locks client = (case hm_get locks client of Some ids \<Rightarrow> ids | None \<Rightarrow> [])"

definition lock_to_read ::
  "u128 \<Rightarrow> queue \<Rightarrow> queue \<times> (io_error, u8 list \<times> u128 option) result" where
  "lock_to_read client q =
     (if q_order q = [] then (q, Err (invalid_data queue_is_empty_text))
      else case q_next_id q of
        None \<Rightarrow> (q, Err (invalid_data queue_is_empty_text))
      | Some i \<Rightarrow>
          (case hm_get (q_queue q) i of
             None \<Rightarrow> (q, Err (invalid_data no_such_message_id_text))
           | Some message \<Rightarrow>
               if is_message_locked message then (q, Err (invalid_data already_locked_text))
               else
                 (let message = message_lock client message;
                      q = q\<lparr>q_queue := hm_insert i message (q_queue q)\<rparr>;
                      message_ids = locked_ids (q_locked q) client @ [i];
                      q = q\<lparr>q_locked := hm_insert client message_ids (q_locked q)\<rparr>;
                      head = get_meta_as_vec i message @ payload message;
                      q = q\<lparr>q_next_id := next_id_after i (q_order q)\<rparr>;
                      q = (if q_next_id q = None then remove_zeroes q else q)
                  in (q, Ok (head, Some i)))))"

subsection \<open>Dequeue\<close>

text \<open>
  Removal by id, any client may do it: the first occurrence of the id in the order becomes
  a tombstone, \<open>next_id\<close> moves on if it pointed there, the message goes, and so does the
  caller's own lock on it, if it holds one.
\<close>

definition tombstone_order :: "u128 \<Rightarrow> queue \<Rightarrow> queue" where
  "tombstone_order m q =
     (case position (\<lambda>i. i = m) (q_order q) of
        None \<Rightarrow> q
      | Some idx \<Rightarrow>
          (let q = (if q_next_id q = Some (q_order q ! idx)
                    then q\<lparr>q_next_id := next_after (Suc idx) (q_order q)\<rparr> else q);
               q = q\<lparr>q_order := (q_order q)[idx := 0]\<rparr>
           in if q_next_id q = Some 0 then q\<lparr>q_next_id := first_nonzero (q_order q)\<rparr> else q))"

definition dequeue_by_id :: "u128 \<Rightarrow> u128 \<Rightarrow> queue_message \<Rightarrow> queue \<Rightarrow> queue \<times> (io_error, usize) result" where
  "dequeue_by_id client m message q =
     (let q = tombstone_order m q;
          q = q\<lparr>q_queue := hm_remove m (q_queue q)\<rparr>
      in case hm_get (q_locked q) client of
           None \<Rightarrow> (q, Ok (length (payload message)))
         | Some ids \<Rightarrow>
             if m \<in> set ids then
               (case position (\<lambda>x. x = m) ids of
                  Some idx \<Rightarrow>
                    (remove_zeroes (q\<lparr>q_locked := hm_insert client (vec_remove idx ids) (q_locked q)\<rparr>),
                     Ok (length (payload message)))
                | None \<Rightarrow> (q, Err (invalid_data no_such_message_id_text)))
             else (q, Ok (length (payload message))))"

text \<open>
  Acknowledging the first message the client holds. The message is taken out of the map
  before the result is unwrapped, so a lock on a message that is gone panics after the
  state has changed.
\<close>

definition dequeue_first_locked :: "u128 \<Rightarrow> queue \<Rightarrow> queue \<times> (io_error, usize) result" where
  "dequeue_first_locked client q =
     (case hm_get (q_locked q) client of
        None \<Rightarrow> (q, Err (invalid_data not_locked_by_client_text))
      | Some ids \<Rightarrow>
          (case ids of
             [] \<Rightarrow> (q, Err (invalid_data no_such_message_id_locked_text))
           | i # _ \<Rightarrow>
               (let message = hm_get (q_queue q) i;
                    q = q\<lparr>q_queue := hm_remove i (q_queue q)\<rparr>;
                    q = q\<lparr>q_locked := hm_insert client (vec_remove 0 ids) (q_locked q)\<rparr>;
                    q = (case position (\<lambda>x. x = i) (q_order q) of
                           Some idx \<Rightarrow> q\<lparr>q_order := (q_order q)[idx := 0]\<rparr>
                         | None \<Rightarrow> q);
                    q = remove_zeroes q
                in (q, case message of Some msg \<Rightarrow> Ok (length (payload msg)) | None \<Rightarrow> Panic))))"

definition dequeue :: "u128 \<Rightarrow> u128 option \<Rightarrow> queue \<Rightarrow> queue \<times> (io_error, usize) result" where
  "dequeue client message_id q =
     (if q_order q = [] then (q, Err (invalid_data queue_is_empty_text))
      else case message_id of
        Some m \<Rightarrow>
          (case hm_get (q_queue q) m of
             Some message \<Rightarrow> dequeue_by_id client m message q
           | None \<Rightarrow> dequeue_first_locked client q)
      | None \<Rightarrow> dequeue_first_locked client q)"

subsection \<open>Unlocking\<close>

definition is_locked :: "u128 \<Rightarrow> u128 \<Rightarrow> queue \<Rightarrow> bool" where
  "is_locked client m q =
     (case hm_get (q_locked q) client of Some ids \<Rightarrow> m \<in> set ids | None \<Rightarrow> False)"

definition release_message :: "u128 \<Rightarrow> u128 \<Rightarrow> u128 list \<Rightarrow> usize \<Rightarrow> queue \<Rightarrow> queue" where
  "release_message client m ids idx q =
     (let q = q\<lparr>q_locked := hm_insert client (vec_remove idx ids) (q_locked q)\<rparr>;
          q = (case hm_get (q_queue q) m of
                 Some message \<Rightarrow> q\<lparr>q_queue := hm_insert m (message_unlock message) (q_queue q)\<rparr>
               | None \<Rightarrow> q)
      in case q_next_id q of
           Some n \<Rightarrow> (if m < n then q\<lparr>q_next_id := Some m\<rparr> else q)
         | None \<Rightarrow> q\<lparr>q_next_id := Some m\<rparr>)"

definition unlock :: "u128 \<Rightarrow> u128 option \<Rightarrow> queue \<Rightarrow> queue \<times> (io_error, unit) result" where
  "unlock client message_id q =
     (if q_order q = [] then (q, Err (invalid_data queue_is_empty_text))
      else case hm_get (q_locked q) client of
        None \<Rightarrow> (q, Err (invalid_data not_locked_by_client_text))
      | Some ids \<Rightarrow>
          (let found = (case message_id of
                          Some m \<Rightarrow> (if m \<in> set ids then Some (Some m) else None)
                        | None \<Rightarrow> Some (case ids of [] \<Rightarrow> None | i # _ \<Rightarrow> Some i))
           in case found of
                None \<Rightarrow> (q, Err (invalid_data not_locked_by_client_text))
              | Some None \<Rightarrow> (q, Ok ())
              | Some (Some m) \<Rightarrow>
                  (case position (\<lambda>x. x = m) ids of
                     Some idx \<Rightarrow> (release_message client m ids idx q, Ok ())
                   | None \<Rightarrow> (q, Panic))))"

subsection \<open>Requeue, list, update\<close>

definition requeue :: "u128 \<Rightarrow> u128 \<Rightarrow> u128 \<Rightarrow> queue \<Rightarrow> queue \<times> (io_error, unit) result" where
  "requeue now_millis client m q =
     (if q_order q = [] then (q, Err (invalid_data queue_is_empty_text))
      else case hm_get (q_queue q) m of
        None \<Rightarrow> (q, Err (invalid_data not_in_queue_text))
      | Some message \<Rightarrow>
          (case enqueue now_millis (payload message) (publisher_id message) q of
             (q, Err e) \<Rightarrow> (q, Err e)
           | (q, Panic) \<Rightarrow> (q, Panic)
           | (q, Ok _) \<Rightarrow>
               (case dequeue client (Some m) q of
                  (q, Err e) \<Rightarrow> (q, Err e)
                | (q, Panic) \<Rightarrow> (q, Panic)
                | (q, Ok _) \<Rightarrow> (q, Ok ()))))"

type_synonym queue_order = "(u128 \<times> queue_message) list \<Rightarrow> (u128 \<times> queue_message) list"

definition list_messages :: "queue_order \<Rightarrow> queue \<Rightarrow> (io_error, message_meta list) result" where
  "list_messages visit q = Ok (map (\<lambda>(key, value). meta_of key value) (visit (q_queue q)))"

definition update_message :: "u128 \<Rightarrow> u8 list \<Rightarrow> queue \<Rightarrow> queue \<times> (io_error, unit) result" where
  "update_message m pl q =
     (if q_order q = [] then (q, Err (invalid_data queue_is_empty_text))
      else case hm_get (q_queue q) m of
        None \<Rightarrow> (q, Err (invalid_data not_in_queue_text))
      | Some message \<Rightarrow> (q\<lparr>q_queue := hm_insert m (message\<lparr>payload := pl\<rparr>) (q_queue q)\<rparr>, Ok ()))"

subsection \<open>The biggest payloads\<close>

text \<open>\<open>while id < decr_id { a[id] = a[id + 1]; id += 1 }\<close>\<close>

function shift_down :: "usize \<Rightarrow> usize \<Rightarrow> usize list \<Rightarrow> usize list" where
  "shift_down idx decr_id a =
     (if idx < decr_id then shift_down (Suc idx) decr_id (a[idx := a ! Suc idx]) else a)"
  by pat_completeness auto
termination
  by (relation "measure (\<lambda>(idx, decr_id, a). decr_id - idx)") auto

declare shift_down.simps [simp del]

text \<open>
  The scan from index 4 down to 0; the argument is \<open>decr_id + 1\<close>, which reaches 0 where
  the signed counter of the source reaches -1.
\<close>

fun scan_payload :: "usize \<Rightarrow> usize \<Rightarrow> usize list \<Rightarrow> usize list" where
  "scan_payload 0 len a = a"
| "scan_payload (Suc decr_id) len a =
     (if len > a ! decr_id then (shift_down 0 decr_id a)[decr_id := len]
      else scan_payload decr_id len a)"

definition find_biggest_payloads :: "queue_order \<Rightarrow> queue \<Rightarrow> queue" where
  "find_biggest_payloads visit q =
     q\<lparr>q_biggest_payloads :=
        fold (\<lambda>(_, message) a. scan_payload 5 (length (payload message)) a)
          (visit (q_queue q)) (q_biggest_payloads q)\<rparr>"

definition get_next_biggest_payload :: "queue_order \<Rightarrow> queue \<Rightarrow> queue \<times> (io_error, usize) result" where
  "get_next_biggest_payload visit q =
     (let result = q_biggest_payloads q ! 4 in (find_biggest_payloads visit q, Ok result))"

end
