(* ===== verification/Queue_Invariant.thy ===== *)
theory Queue_Invariant
  imports Queue_Model
begin

text \<open>
  The well-formedness invariant of a queue, kept by every operation whatever its outcome,
  and what follows from it for reachable queues. The invariant is what the code really
  maintains: it does not say that \<open>next_id\<close> names a live message, which fails.
\<close>

section \<open>Tombstones and the order\<close>

lemma drain_zeroes_nonzero: "x \<noteq> 0 \<Longrightarrow> x \<in> set (drain_zeroes ord) \<longleftrightarrow> x \<in> set ord"
proof (cases "position (\<lambda>i. i \<noteq> 0) ord")
  case (Some idx)
  assume "x \<noteq> 0"
  from position_SomeD[OF Some] have "\<forall>y \<in> set (take idx ord). y = 0"
    by (auto simp: in_set_conv_nth)
  moreover have "set ord = set (take idx ord) \<union> set (drop idx ord)"
    by (metis append_take_drop_id set_append)
  ultimately show ?thesis
    using Some \<open>x \<noteq> 0\<close> by (auto simp: drain_zeroes_def)
next
  case None
  assume "x \<noteq> 0"
  from None have "\<forall>y \<in> set ord. y = 0"
    by (simp add: position_None)
  with None \<open>x \<noteq> 0\<close> show ?thesis
    by (auto simp: drain_zeroes_def)
qed

lemma drain_zeroes_short: "length ord < magic_drain_vec \<Longrightarrow> drain_zeroes ord = ord"
  by (simp add: drain_zeroes_def)

lemma remove_zeroes_fields [simp]:
  "q_queue (remove_zeroes q) = q_queue q" "q_locked (remove_zeroes q) = q_locked q"
  "q_next_id (remove_zeroes q) = q_next_id q" "q_config (remove_zeroes q) = q_config q"
  "q_biggest_payloads (remove_zeroes q) = q_biggest_payloads q"
  "q_order (remove_zeroes q) = drain_zeroes (q_order q)"
  by (simp_all add: remove_zeroes_def)

lemma first_nonzero_Some: "first_nonzero ord = Some x \<Longrightarrow> x \<noteq> 0 \<and> x \<in> set ord"
  by (auto simp: first_nonzero_def find_Some_iff)

lemma first_nonzero_None [simp]: "first_nonzero ord = None \<longleftrightarrow> (\<forall>x \<in> set ord. x = 0)"
  by (auto simp: first_nonzero_def find_None_iff)

lemma next_id_after_nonzero: "next_id_after i ord \<noteq> Some 0"
  by (auto simp: next_id_after_def dest: first_nonzero_Some split: option.splits)

lemma next_message_id_nonzero [simp]: "next_message_id ord \<noteq> 0"
  by (simp add: next_message_id_def Let_def)

lemma tombstone_order_fields [simp]:
  "q_queue (tombstone_order m q) = q_queue q" "q_locked (tombstone_order m q) = q_locked q"
  "q_config (tombstone_order m q) = q_config q"
  "q_biggest_payloads (tombstone_order m q) = q_biggest_payloads q"
  by (simp_all add: tombstone_order_def Let_def split: option.split)

lemma tombstone_order_order:
  "q_order (tombstone_order m q) =
     (case position (\<lambda>i. i = m) (q_order q) of None \<Rightarrow> q_order q | Some idx \<Rightarrow> (q_order q)[idx := 0])"
  by (simp add: tombstone_order_def Let_def split: option.split)

lemma in_set_list_update: "x \<in> set xs \<Longrightarrow> x \<noteq> xs ! i \<Longrightarrow> x \<in> set (xs[i := y])"
  by (metis in_set_conv_nth length_list_update nth_list_update_neq)

lemma tombstone_order_mem:
  assumes "x \<in> set (q_order q)" "x \<noteq> m"
  shows "x \<in> set (q_order (tombstone_order m q))"
  using assms
  by (auto simp: tombstone_order_order intro!: in_set_list_update dest: position_SomeD split: option.split)

lemma tombstone_order_next_id:
  "q_next_id q \<noteq> Some 0 \<Longrightarrow> q_next_id (tombstone_order m q) \<noteq> Some 0"
  by (auto simp: tombstone_order_def Let_def dest: first_nonzero_Some split: option.split if_splits)

section \<open>The top five\<close>

lemma length_shift_down [simp]: "length (shift_down i d a) = length a"
proof (induction i d a rule: shift_down.induct)
  case (1 i d a)
  then show ?case by (cases "i < d") (simp_all add: shift_down.simps[of i d a])
qed

lemma length_scan_payload [simp]: "length (scan_payload n len a) = length a"
  by (induction n) auto

lemma shift_down_eq:
  "idx \<le> d \<Longrightarrow> d < length a \<Longrightarrow>
     shift_down idx d a = take idx a @ take (d - idx) (drop (Suc idx) a) @ drop d a"
proof (induction idx d a rule: shift_down.induct)
  case (1 idx d a)
  show ?case
  proof (cases "idx < d")
    case True
    with "1.prems" have "drop (Suc idx) a = a ! Suc idx # drop (Suc (Suc idx)) a" 
      by (simp add: Cons_nth_drop_Suc)
    moreover have "d - idx = Suc (d - Suc idx)"
      using True by simp
    ultimately show ?thesis
      using True "1.prems" "1.IH"
      by (simp add: shift_down.simps[of idx d a] take_Suc_conv_app_nth take_update_cancel del: drop_Suc_Cons)
  next
    case False
    with "1.prems" show ?thesis
      by (simp add: shift_down.simps[of idx d a] shift_down.simps[of d d a])
  qed
qed

lemma insort_split:
  "\<forall>x \<in> set (take k a). x < len \<Longrightarrow> \<forall>x \<in> set (drop k a). len \<le> x \<Longrightarrow>
     insort len a = take k a @ len # drop k a" for len :: nat
proof (induction a arbitrary: k)
  case Nil
  then show ?case by simp
next
  case (Cons x a)
  then show ?case
  proof (cases k)
    case 0
    with Cons.prems show ?thesis by simp
  next
    case (Suc k')
    with Cons show ?thesis by auto
  qed
qed

text \<open>The scan inserts the length into the ascending array and drops the least entry.\<close>

lemma scan_payload_tl_insort:
  assumes "sorted a"
  shows "n \<le> length a \<Longrightarrow> \<forall>x \<in> set (drop n a). len \<le> x \<Longrightarrow> scan_payload n len a = tl (insort len a)"
proof (induction n)
  case 0
  then show ?case
    using insort_split[of 0 a len] by simp
next
  case (Suc d)
  then have d: "d < length a" by simp
  show ?case
  proof (cases "len > a ! d")
    case True
    moreover have "a ! i \<le> a ! d" if "i < Suc d" for i
      using assms d that by (simp add: sorted_iff_nth_mono less_Suc_eq_le)
    ultimately have "\<forall>x \<in> set (take (Suc d) a). x < len"
      by (fastforce simp: in_set_conv_nth)
    then have "insort len a = take (Suc d) a @ len # drop (Suc d) a"
      using Suc.prems(2) by (rule insort_split)
    moreover have "(shift_down 0 d a)[d := len] = tl (take (Suc d) a) @ len # drop (Suc d) a"
      using d by (simp add: shift_down_eq list_update_append tl_take drop_Suc flip: Cons_nth_drop_Suc)
    moreover have "take (Suc d) a \<noteq> []"
      using d by auto
    ultimately show ?thesis
      using True by (simp add: tl_append2)
  next
    case False
    have "drop d a = a ! d # drop (Suc d) a"
      using d by (simp add: Cons_nth_drop_Suc)
    with False Suc show ?thesis by simp
  qed
qed

lemma scan_payload_insort: "sorted a \<Longrightarrow> length a = 5 \<Longrightarrow> scan_payload 5 len a = tl (insort len a)"
  by (rule scan_payload_tl_insort) simp_all

lemma scan_payload_sorted:
  "sorted a \<Longrightarrow> length a = 5 \<Longrightarrow> sorted (scan_payload 5 len a)"
  by (simp add: scan_payload_insort sorted_tl sorted_insort)

section \<open>The invariant\<close>

definition queue_inv :: "queue \<Rightarrow> bool" where
  "queue_inv q \<longleftrightarrow>
     hm_ok (q_queue q) \<and> hm_ok (q_locked q)
     \<and> length (q_biggest_payloads q) = 5 \<and> sorted (q_biggest_payloads q)
     \<and> (\<forall>m. hm_get (q_queue q) m \<noteq> None \<longrightarrow> m \<noteq> 0 \<and> m \<in> set (q_order q))
     \<and> q_next_id q \<noteq> Some 0
     \<and> (\<forall>c. 0 \<notin> set (locked_ids (q_locked q) c))
     \<and> (\<forall>m msg c. hm_get (q_queue q) m = Some msg \<longrightarrow> locked_by msg = Some c \<longrightarrow>
          m \<in> set (locked_ids (q_locked q) c))"

lemma locked_ids_Nil [simp]: "locked_ids [] c = []"
  by (simp add: locked_ids_def)

lemma locked_ids_insert [simp]: "locked_ids (hm_insert c ids locks) c' = (if c' = c then ids else locked_ids locks c')"
  by (simp add: locked_ids_def)

lemma locked_ids_Some: "hm_get locks c = Some ids \<Longrightarrow> locked_ids locks c = ids"
  by (simp add: locked_ids_def)

lemma is_locked_iff: "is_locked c m q \<longleftrightarrow> m \<in> set (locked_ids (q_locked q) c)"
  by (simp add: is_locked_def locked_ids_def split: option.split)

lemma queue_inv_ids_nonzero: "queue_inv q \<Longrightarrow> hm_get (q_locked q) c = Some ids \<Longrightarrow> 0 \<notin> set ids"
  by (auto simp: queue_inv_def dest: locked_ids_Some)

lemma queue_inv_holder:
  "queue_inv q \<Longrightarrow> hm_get (q_locked q) c = Some ids \<Longrightarrow> hm_get (q_queue q) m = Some msg \<Longrightarrow>
     locked_by msg = Some c \<Longrightarrow> m \<in> set ids"
  by (auto simp: queue_inv_def dest: locked_ids_Some)

text \<open>Replacing a client's lock vector by one that still covers the messages it holds.\<close>

lemma queue_inv_set_ids:
  assumes "queue_inv q" "0 \<notin> set ids"
    and "\<And>m msg. hm_get (q_queue q) m = Some msg \<Longrightarrow> locked_by msg = Some c \<Longrightarrow> m \<in> set ids"
  shows "queue_inv (q\<lparr>q_locked := hm_insert c ids (q_locked q)\<rparr>)"
  using assms by (auto simp: queue_inv_def)

lemma queue_inv_remove_message: "queue_inv q \<Longrightarrow> queue_inv (q\<lparr>q_queue := hm_remove m (q_queue q)\<rparr>)"
  by (auto simp: queue_inv_def)

lemma queue_inv_new: "queue_inv queue_new"
  by (simp add: queue_inv_def queue_new_def)

lemma queue_inv_remove_zeroes: "queue_inv q \<Longrightarrow> queue_inv (remove_zeroes q)"
  by (auto simp: queue_inv_def drain_zeroes_nonzero)

lemma queue_inv_enqueue: "queue_inv q \<Longrightarrow> queue_inv (fst (enqueue now pl publisher q))"
  by (auto simp: queue_inv_def enqueue_def Let_def queue_message_new_def)


lemma queue_inv_lock_to_read: "queue_inv q \<Longrightarrow> queue_inv (fst (lock_to_read client q))"
  by (auto simp: queue_inv_def lock_to_read_def Let_def message_lock_def
      next_id_after_nonzero drain_zeroes_nonzero split: option.split if_splits)

lemma queue_inv_dequeue_by_id:
  assumes inv: "queue_inv q" and msg: "hm_get (q_queue q) m = Some message"
  shows "queue_inv (fst (dequeue_by_id client m message q))"
proof -
  define q1 where "q1 = (tombstone_order m q)\<lparr>q_queue := hm_remove m (q_queue q)\<rparr>"
  have q1: "queue_inv q1"
    using inv by (auto simp: queue_inv_def q1_def tombstone_order_mem dest: tombstone_order_next_id)
  have locked: "q_locked q1 = q_locked q"
    by (simp add: q1_def)
  have "queue_inv (remove_zeroes (q1\<lparr>q_locked := hm_insert client (vec_remove idx ids) (q_locked q1)\<rparr>))"
    if ids: "hm_get (q_locked q) client = Some ids" and pos: "position (\<lambda>x. x = m) ids = Some idx" for ids idx
  proof (intro queue_inv_remove_zeroes queue_inv_set_ids q1)
    show "0 \<notin> set (vec_remove idx ids)"
      using queue_inv_ids_nonzero[OF inv ids] set_vec_remove_subset by fast
  next
    fix m' msg' assume "hm_get (q_queue q1) m' = Some msg'" "locked_by msg' = Some client"
    with queue_inv_holder[OF q1, of client ids m'] ids have "m' \<in> set ids" "m' \<noteq> m"
      by (auto simp: locked q1_def split: if_splits)
    then show "m' \<in> set (vec_remove idx ids)"
      by (simp add: vec_remove_position[OF pos])
  qed
  with q1 show ?thesis
    by (auto simp: dequeue_by_id_def Let_def q1_def split: option.split)
qed

lemma queue_inv_tombstone_ack:
  assumes inv: "queue_inv q" and gone: "hm_get (q_queue q) i = None"
    and pos: "position (\<lambda>x. x = i) (q_order q) = Some idx"
  shows "queue_inv (q\<lparr>q_order := (q_order q)[idx := 0]\<rparr>)"
proof -
  have "m \<in> set ((q_order q)[idx := 0])" if "hm_get (q_queue q) m \<noteq> None" for m
    using inv that gone position_SomeD[OF pos] by (intro in_set_list_update) (auto simp: queue_inv_def)
  with inv show ?thesis
    by (simp add: queue_inv_def)
qed

lemma queue_inv_dequeue_first_locked:
  assumes inv: "queue_inv q"
  shows "queue_inv (fst (dequeue_first_locked client q))"
proof -
  have "queue_inv (fst (dequeue_first_locked client q))"
    if ids: "hm_get (q_locked q) client = Some (i # rest)" for i rest
  proof -
    define q0 where "q0 = q\<lparr>q_queue := hm_remove i (q_queue q)\<rparr>"
    define q1 where "q1 = q0\<lparr>q_locked := hm_insert client rest (q_locked q0)\<rparr>"
    have "queue_inv q0"
      unfolding q0_def using inv by (rule queue_inv_remove_message)
    then have "queue_inv q1"
      unfolding q1_def
    proof (rule queue_inv_set_ids)
      show "0 \<notin> set rest"
        using queue_inv_ids_nonzero[OF inv ids] by simp
    next
      fix m msg assume "hm_get (q_queue q0) m = Some msg" "locked_by msg = Some client"
      then show "m \<in> set rest"
        using queue_inv_holder[OF inv ids, of m] by (auto simp: q0_def split: if_splits)
    qed
    moreover have "hm_get (q_queue q1) i = None"
      by (simp add: q1_def q0_def)
    ultimately have "queue_inv (case position (\<lambda>x. x = i) (q_order q1) of
        Some idx \<Rightarrow> q1\<lparr>q_order := (q_order q1)[idx := 0]\<rparr> | None \<Rightarrow> q1)"
      by (simp add: queue_inv_tombstone_ack split: option.split)
    then show ?thesis
      using ids by (auto simp: dequeue_first_locked_def Let_def q1_def q0_def intro!: queue_inv_remove_zeroes
        split: option.splits)
  qed
  with inv show ?thesis
    by (auto simp: dequeue_first_locked_def split: option.split list.split)
qed

lemma queue_inv_dequeue: "queue_inv q \<Longrightarrow> queue_inv (fst (dequeue client message_id q))"
  by (auto simp: dequeue_def queue_inv_dequeue_by_id queue_inv_dequeue_first_locked split: option.split)

lemma queue_inv_unlock_message:
  assumes inv: "queue_inv q" and msg: "hm_get (q_queue q) m = Some msg"
  shows "queue_inv (q\<lparr>q_queue := hm_insert m (message_unlock msg) (q_queue q)\<rparr>)"
  using inv msg by (auto simp: queue_inv_def message_unlock_def)

lemma queue_inv_release_message:
  assumes inv: "queue_inv q" and ids: "hm_get (q_locked q) client = Some ids"
    and pos: "position (\<lambda>x. x = m) ids = Some idx"
  shows "queue_inv (release_message client m ids idx q)"
proof -
  have m: "m \<noteq> 0"
    using queue_inv_ids_nonzero[OF inv ids] position_mem[OF pos] by auto
  define q1 where "q1 = (case hm_get (q_queue q) m of
                 Some msg \<Rightarrow> q\<lparr>q_queue := hm_insert m (message_unlock msg) (q_queue q)\<rparr> | None \<Rightarrow> q)"
  define q2 where "q2 = q1\<lparr>q_locked := hm_insert client (vec_remove idx ids) (q_locked q1)\<rparr>"
  have fields: "q_locked q1 = q_locked q" "q_next_id q1 = q_next_id q"
    by (simp_all add: q1_def split: option.split)
  have q1: "queue_inv q1"
    using inv by (simp add: q1_def queue_inv_unlock_message split: option.split)
  then have "queue_inv q2"
    unfolding q2_def
  proof (rule queue_inv_set_ids)
    show "0 \<notin> set (vec_remove idx ids)"
      using queue_inv_ids_nonzero[OF inv ids] set_vec_remove_subset by fast
  next
    fix m' msg assume *: "hm_get (q_queue q1) m' = Some msg" "locked_by msg = Some client"
    then have "m' \<noteq> m"
      by (auto simp: q1_def message_unlock_def split: option.splits if_splits)
    with queue_inv_holder[OF q1 _ *] ids show "m' \<in> set (vec_remove idx ids)"
      by (simp add: vec_remove_position[OF pos] fields)
  qed
  then have "queue_inv (q2\<lparr>q_next_id := Some m\<rparr>)"
    using m by (simp add: queue_inv_def)
  moreover have "release_message client m ids idx q =
      (case q_next_id q of
           Some n \<Rightarrow> (if m < n then q2\<lparr>q_next_id := Some m\<rparr> else q2)
         | None \<Rightarrow> q2\<lparr>q_next_id := Some m\<rparr>)"
    by (auto simp: release_message_def Let_def q2_def q1_def split: option.splits)
  ultimately show ?thesis
    using \<open>queue_inv q2\<close> by (auto split: option.split)
qed

lemma queue_inv_unlock: "queue_inv q \<Longrightarrow> queue_inv (fst (unlock client message_id q))"
  by (auto simp: unlock_def Let_def queue_inv_release_message split: option.split)

lemma queue_inv_requeue: "queue_inv q \<Longrightarrow> queue_inv (fst (requeue now client m q))"
  using queue_inv_enqueue queue_inv_dequeue
  by (auto simp: requeue_def split: option.split prod.split result.split) (metis fst_conv)+

lemma queue_inv_update_message: "queue_inv q \<Longrightarrow> queue_inv (fst (update_message m pl q))"
  by (auto simp: queue_inv_def update_message_def split: option.split)

lemma queue_inv_update_config_auto_fail: "queue_inv q \<Longrightarrow> queue_inv (update_config_auto_fail v q)"
  by (simp add: queue_inv_def update_config_auto_fail_def)

lemma queue_inv_update_config_fail_timeout: "queue_inv q \<Longrightarrow> queue_inv (update_config_fail_timeout v q)"
  by (simp add: queue_inv_def update_config_fail_timeout_def)

lemma queue_inv_find_biggest: "queue_inv q \<Longrightarrow> queue_inv (find_biggest_payloads visit q)"
proof -
  have "sorted a \<Longrightarrow> length a = 5 \<Longrightarrow>
     sorted (fold (\<lambda>(_, message) a. scan_payload 5 (length (payload message)) a) ms a)
     \<and> length (fold (\<lambda>(_, message) a. scan_payload 5 (length (payload message)) a) ms a) = 5"
    for a :: "usize list" and ms :: "(u128 \<times> queue_message) list"
  proof (induction ms arbitrary: a)
    case (Cons m ms)
    then show ?case
      by (cases m) (simp add: scan_payload_sorted)
  qed simp
  then show "queue_inv q \<Longrightarrow> queue_inv (find_biggest_payloads visit q)"
    by (auto simp: queue_inv_def find_biggest_payloads_def)
qed

lemma length_meta_to_be_bytes [simp]: "length (meta_to_be_bytes m) = 56"
  by (simp add: meta_to_be_bytes_def be128.enc_length be64.enc_length)

lemma length_get_meta_as_vec [simp]: "length (get_meta_as_vec i msg) = 56"
  by (simp add: get_meta_as_vec_def)

section \<open>Runs of operations\<close>

text \<open>The queue's interface as one step function over its operations.\<close>

datatype queue_op =
    QEnqueue u128 "u8 list" u128
  | QLock u128
  | QDequeue u128 "u128 option"
  | QUnlock u128 "u128 option"
  | QRequeue u128 u128 u128
  | QUpdate u128 "u8 list"
  | QSetAutoFail bool
  | QSetFailTimeout u64
  | QNextBiggest queue_order

datatype queue_out =
    OutUnit "(io_error, unit) result"
  | OutRead "(io_error, u8 list \<times> u128 option) result"
  | OutSize "(io_error, usize) result"

fun queue_step :: "queue_op \<Rightarrow> queue \<Rightarrow> queue \<times> queue_out" where
  "queue_step (QEnqueue now pl publisher) q = apsnd OutUnit (enqueue now pl publisher q)"
| "queue_step (QLock client) q = apsnd OutRead (lock_to_read client q)"
| "queue_step (QDequeue client m) q = apsnd OutSize (dequeue client m q)"
| "queue_step (QUnlock client m) q = apsnd OutUnit (unlock client m q)"
| "queue_step (QRequeue now client m) q = apsnd OutUnit (requeue now client m q)"
| "queue_step (QUpdate m pl) q = apsnd OutUnit (update_message m pl q)"
| "queue_step (QSetAutoFail v) q = (update_config_auto_fail v q, OutUnit (Ok ()))"
| "queue_step (QSetFailTimeout v) q = (update_config_fail_timeout v q, OutUnit (Ok ()))"
| "queue_step (QNextBiggest visit) q = apsnd OutSize (get_next_biggest_payload visit q)"

definition queue_after :: "queue_op \<Rightarrow> queue \<Rightarrow> queue" where
  "queue_after op q = fst (queue_step op q)"

lemmas queue_inv_ops =
  queue_inv_enqueue queue_inv_lock_to_read queue_inv_dequeue queue_inv_unlock queue_inv_requeue
  queue_inv_update_message queue_inv_update_config_auto_fail queue_inv_update_config_fail_timeout
  queue_inv_find_biggest

interpretation qm: invariant_machine queue_after queue_inv
proof
  fix q op assume "queue_inv q"
  then show "queue_inv (queue_after op q)"
    by (cases op) (simp_all add: queue_after_def queue_inv_ops get_next_biggest_payload_def)
qed

text \<open>
  C1. Every queue the broker can reach is well formed, whatever sequence of operations (of
  any clients, failing or not) built it: ids are never 0, every stored message has its id
  in the order, \<open>next_id\<close> is never the tombstone, the lock vectors hold no tombstone, a
  message marked as held is in its holder's lock vector, the table of the five biggest
  payloads has five ascending entries.
\<close>

theorem queue_reachable_inv: "queue_inv (fold queue_after ops queue_new)"
  by (rule qm.inv_run[OF queue_inv_new])

end
