(* ===== verification/Queue_Fifo.thy ===== *)
theory Queue_Fifo
  imports Queue_Invariant "HOL-Library.Sublist"
begin

text \<open>
  The contract of the queue as a FIFO buffer, and the refinement: as long as messages are
  acknowledged in the order they were delivered, and given back only while no other message
  is out, \<open>Queue\<close> behaves exactly as a list of ready messages and a list of held ones. A
  single consumer meets the guard by construction.
\<close>

section \<open>The abstract buffer\<close>

text \<open>Held messages (holder, id, message) in delivery order; ready ones in arrival order.\<close>

record fifo =
  fi_held :: "(u128 \<times> u128 \<times> queue_message) list"
  fi_ready :: "(u128 \<times> queue_message) list"

datatype fifo_out = Done | Delivered "u8 list" u128 | Sized usize | Failed | Crashed

definition fifo_empty :: fifo where
  "fifo_empty = \<lparr>fi_held = [], fi_ready = []\<rparr>"

definition fifo_entries :: "fifo \<Rightarrow> (u128 \<times> queue_message) list" where
  "fifo_entries a = map snd (fi_held a) @ fi_ready a"

definition fifo_ids :: "fifo \<Rightarrow> u128 list" where
  "fifo_ids a = map fst (fifo_entries a)"

definition fifo_fresh :: "fifo \<Rightarrow> u128" where
  "fifo_fresh a = (if fifo_ids a = [] then 1 else last (fifo_ids a) + 1)"

definition held_by :: "u128 \<Rightarrow> fifo \<Rightarrow> u128 list" where
  "held_by c a = map (\<lambda>(_, i, _). i) (filter (\<lambda>(h, _). h = c) (fi_held a))"

definition set_entry :: "u128 \<Rightarrow> u8 list \<Rightarrow> u128 \<times> queue_message \<Rightarrow> u128 \<times> queue_message" where
  "set_entry m pl = (\<lambda>(i, msg). (i, if i = m then msg\<lparr>payload := pl\<rparr> else msg))"

fun fifo_step :: "queue_op \<Rightarrow> fifo \<Rightarrow> fifo \<times> fifo_out" where
  "fifo_step (QEnqueue now pl publisher) a =
     (a\<lparr>fi_ready := fi_ready a @ [(fifo_fresh a, queue_message_new now pl publisher)]\<rparr>, Done)"
| "fifo_step (QLock c) a =
     (case fi_ready a of
        [] \<Rightarrow> (a, Failed)
      | (i, msg) # rest \<Rightarrow>
          (a\<lparr>fi_held := fi_held a @ [(c, i, message_lock c msg)], fi_ready := rest\<rparr>,
           Delivered (get_meta_as_vec i (message_lock c msg) @ payload msg) i))"
| "fifo_step (QDequeue c None) a =
     (case fi_held a of
        (h, i, msg) # rest \<Rightarrow>
          (if h = c then (a\<lparr>fi_held := rest\<rparr>, Sized (length (payload msg))) else (a, Failed))
      | [] \<Rightarrow> (a, Failed))"
| "fifo_step (QUnlock c None) a =
     (case fi_held a of
        (h, i, msg) # rest \<Rightarrow>
          (a\<lparr>fi_held := rest, fi_ready := (i, message_unlock msg) # fi_ready a\<rparr>, Done)
      | [] \<Rightarrow> (a, Failed))"
| "fifo_step (QUpdate m pl) a =
     (if m \<in> set (fifo_ids a)
      then (a\<lparr>fi_held := map (\<lambda>(h, e). (h, set_entry m pl e)) (fi_held a),
              fi_ready := map (set_entry m pl) (fi_ready a)\<rparr>, Done)
      else (a, Failed))"
| "fifo_step _ a = (a, Done)"

text \<open>
  The guard: a client acknowledges only if it holds nothing or the oldest held message, and
  gives a message back only if it is the only one held. Removal by id, targeted unlocks and
  requeues are outside this contract.
\<close>

fun fifo_guard :: "queue_op \<Rightarrow> fifo \<Rightarrow> bool" where
  "fifo_guard (QDequeue c None) a \<longleftrightarrow> held_by c a = [] \<or> fst (hd (fi_held a)) = c"
| "fifo_guard (QDequeue c (Some m)) a \<longleftrightarrow> False"
| "fifo_guard (QUnlock c None) a \<longleftrightarrow> (\<exists>e. fi_held a = [(c, e)])"
| "fifo_guard (QUnlock c (Some m)) a \<longleftrightarrow> False"
| "fifo_guard (QRequeue now c m) a \<longleftrightarrow> False"
| "fifo_guard (QNextBiggest visit) a \<longleftrightarrow> False"
| "fifo_guard _ a \<longleftrightarrow> True"

fun out_view :: "queue_out \<Rightarrow> fifo_out" where
  "out_view (OutUnit (Ok _)) = Done"
| "out_view (OutRead (Ok (bytes, Some i))) = Delivered bytes i"
| "out_view (OutRead (Ok (bytes, None))) = Failed"
| "out_view (OutSize (Ok n)) = Sized n"
| "out_view (OutUnit (Err _)) = Failed"
| "out_view (OutRead (Err _)) = Failed"
| "out_view (OutSize (Err _)) = Failed"
| "out_view (OutUnit Panic) = Crashed"
| "out_view (OutRead Panic) = Crashed"
| "out_view (OutSize Panic) = Crashed"

definition queue_view_step :: "queue_op \<Rightarrow> queue \<Rightarrow> queue \<times> fifo_out" where
  "queue_view_step op q = apsnd out_view (queue_step op q)"

section \<open>The simulation relation\<close>

definition ids_bounded :: "nat \<Rightarrow> u128 list \<Rightarrow> bool" where
  "ids_bounded n ids \<longleftrightarrow> sorted_wrt (\<lambda>i j. unat i < unat j) ids \<and> (\<forall>i \<in> set ids. i \<noteq> 0 \<and> unat i \<le> n)"

definition fifo_rel :: "nat \<Rightarrow> queue \<Rightarrow> fifo \<Rightarrow> bool" where
  "fifo_rel n q a \<longleftrightarrow>
     ids_bounded n (fifo_ids a)
     \<and> (\<exists>k. q_order q = replicate k 0 @ fifo_ids a)
     \<and> (\<forall>m. hm_get (q_queue q) m = map_of (fifo_entries a) m)
     \<and> (\<forall>(h, i, msg) \<in> set (fi_held a). locked_by msg = Some h)
     \<and> (\<forall>(i, msg) \<in> set (fi_ready a). locked_by msg = None)
     \<and> q_next_id q = (case fi_ready a of [] \<Rightarrow> None | (i, _) # _ \<Rightarrow> Some i)
     \<and> (\<forall>c. locked_ids (q_locked q) c = held_by c a)"

lemma fifo_rel_new: "fifo_rel 0 queue_new fifo_empty"
  by (simp add: fifo_rel_def queue_new_def fifo_empty_def fifo_ids_def fifo_entries_def
      ids_bounded_def held_by_def)

lemma ids_bounded_mono: "ids_bounded n ids \<Longrightarrow> n \<le> n' \<Longrightarrow> ids_bounded n' ids"
  by (auto simp: ids_bounded_def)

lemma ids_bounded_distinct: "ids_bounded n ids \<Longrightarrow> distinct ids"
  by (auto simp: ids_bounded_def sorted_wrt_iff_nth_less distinct_conv_nth)
     (metis linorder_neqE_nat order_less_irrefl)

lemma ids_bounded_tl: "ids_bounded n (i # ids) \<Longrightarrow> ids_bounded n ids"
  by (simp add: ids_bounded_def)

text \<open>Appending the successor of the last id keeps the bound, as long as it does not wrap.\<close>

lemma ids_bounded_snoc:
  "ids_bounded n (ids @ [i]) \<longleftrightarrow>
     ids_bounded n ids \<and> (\<forall>j \<in> set ids. unat j < unat i) \<and> i \<noteq> 0 \<and> unat i \<le> n"
  by (auto simp: ids_bounded_def sorted_wrt_append)

lemma ids_bounded_fresh:
  assumes "ids_bounded n ids" "n < 2 ^ 128 - 1"
  shows "ids_bounded (Suc n) (ids @ [if ids = [] then 1 else last ids + 1])"
proof (cases ids rule: rev_cases)
  case Nil
  then show ?thesis by (simp add: ids_bounded_def)
next
  case (snoc js j)
  with assms have *: "ids_bounded n js" "\<forall>k \<in> set js. unat k < unat j" "unat j \<le> n"
    by (simp_all add: ids_bounded_snoc)
  with assms(2) have succ: "unat (j + 1) = Suc (unat j)"
    by (simp add: unat_word_ariths)
  then have "j + 1 \<noteq> 0"
    by (metis nat.distinct(1) unat_0)
  moreover have "ids_bounded (Suc n) ids"
    using assms(1) by (rule ids_bounded_mono) simp
  moreover have "\<forall>k \<in> set ids. unat k < unat (j + 1)"
    using *(2) succ by (auto simp: snoc less_Suc_eq)
  ultimately have "ids_bounded (Suc n) (ids @ [j + 1])"
    using *(3) succ by (simp add: ids_bounded_snoc)
  then show ?thesis
    by (simp add: snoc)
qed

lemma fresh_nonzero: "ids_bounded n (ids @ [i]) \<Longrightarrow> i \<noteq> 0"
  by (simp add: ids_bounded_snoc)

section \<open>Each operation simulates\<close>

text \<open>The conjuncts of the relation, to establish and to use one at a time.\<close>

lemma fifo_relI:
  assumes "ids_bounded n (fifo_ids a)"
    and "q_order q = replicate k 0 @ fifo_ids a"
    and "\<And>m. hm_get (q_queue q) m = map_of (fifo_entries a) m"
    and "\<And>h i msg. (h, i, msg) \<in> set (fi_held a) \<Longrightarrow> locked_by msg = Some h"
    and "\<And>i msg. (i, msg) \<in> set (fi_ready a) \<Longrightarrow> locked_by msg = None"
    and "q_next_id q = (case fi_ready a of [] \<Rightarrow> None | (i, _) # _ \<Rightarrow> Some i)"
    and "\<And>c. locked_ids (q_locked q) c = held_by c a"
  shows "fifo_rel n q a"
  using assms by (auto simp: fifo_rel_def)

lemma fifo_relD:
  assumes "fifo_rel n q a"
  shows "ids_bounded n (fifo_ids a)" "\<exists>k. q_order q = replicate k 0 @ fifo_ids a"
    "hm_get (q_queue q) m = map_of (fifo_entries a) m"
    "(h, i, msg) \<in> set (fi_held a) \<Longrightarrow> locked_by msg = Some h"
    "(i, msg) \<in> set (fi_ready a) \<Longrightarrow> locked_by msg = None"
    "q_next_id q = (case fi_ready a of [] \<Rightarrow> None | (i, _) # _ \<Rightarrow> Some i)"
    "locked_ids (q_locked q) c = held_by c a"
  using assms by (auto simp: fifo_rel_def)

lemma fifo_ids_parts: "fifo_ids a = map (\<lambda>(h, i, msg). i) (fi_held a) @ map fst (fi_ready a)"
  by (simp add: fifo_ids_def fifo_entries_def split_def comp_def)

lemma map_of_snoc_fresh:
  "i \<notin> fst ` set es \<Longrightarrow> map_of (es @ [(i, v)]) m = (if m = i then Some v else map_of es m)"
  by (induction es) (auto simp del: map_of_append)

lemma map_of_replace:
  "i \<notin> fst ` set xs \<Longrightarrow>
     map_of (xs @ (i, v') # ys) m = (if m = i then Some v' else map_of (xs @ (i, v) # ys) m)"
  by (induction xs) (auto simp del: map_of_append)

lemma enqueue_unfold:
  "enqueue now pl publisher q =
     (let i = next_message_id (q_order q) in
      (q\<lparr>q_next_id := (if q_next_id q = None then Some i else q_next_id q), q_order := q_order q @ [i],
         q_queue := hm_insert i (queue_message_new now pl publisher) (q_queue q)\<rparr>, Ok ()))"
  by (simp add: enqueue_def Let_def)

lemma next_message_id_fifo:
  assumes order: "q_order q = replicate k 0 @ fifo_ids a" and ids: "ids_bounded n (fifo_ids a)"
    and n: "n < 2 ^ 128 - 1"
  shows "next_message_id (q_order q) = fifo_fresh a"
proof (cases "fifo_ids a = []")
  case True
  then show ?thesis
    by (cases k) (simp_all add: next_message_id_def fifo_fresh_def order flip: replicate_append_same)
next
  case False
  then have "last (fifo_ids a) + 1 \<noteq> 0"
    using ids_bounded_fresh[OF ids n] by (auto dest: fresh_nonzero)
  with False show ?thesis
    by (simp add: next_message_id_def fifo_fresh_def order Let_def)
qed

lemma fifo_rel_enqueue:
  assumes rel: "fifo_rel n q a" and n: "n < 2 ^ 128 - 1"
  shows "fifo_rel (Suc n) (fst (enqueue now pl publisher q))
           (fst (fifo_step (QEnqueue now pl publisher) a))"
proof -
  define msg where "msg = queue_message_new now pl publisher"
  define a' where "a' = a\<lparr>fi_ready := fi_ready a @ [(fifo_fresh a, msg)]\<rparr>"
  obtain k where order: "q_order q = replicate k 0 @ fifo_ids a" and ids: "ids_bounded n (fifo_ids a)"
    using rel by (auto simp: fifo_rel_def)
  note fresh = next_message_id_fifo[OF order ids n]
  have entries: "fifo_entries a' = fifo_entries a @ [(fifo_fresh a, msg)]"
    by (simp add: a'_def fifo_entries_def)
  have ids': "ids_bounded (Suc n) (fifo_ids a @ [fifo_fresh a])"
    using ids_bounded_fresh[OF ids n] by (simp add: fifo_fresh_def)
  then have new: "fifo_fresh a \<notin> fst ` set (fifo_entries a)"
    by (auto simp: ids_bounded_snoc fifo_ids_def)
  have "fifo_rel (Suc n) (q\<lparr>q_next_id := (if q_next_id q = None then Some (fifo_fresh a) else q_next_id q),
      q_order := q_order q @ [fifo_fresh a], q_queue := hm_insert (fifo_fresh a) msg (q_queue q)\<rparr>) a'"
  proof (rule fifo_relI[where k = k])
    show "ids_bounded (Suc n) (fifo_ids a')"
      using ids' by (simp add: fifo_ids_def entries)
    fix m
    show "hm_get (q_queue (q\<lparr>q_next_id := (if q_next_id q = None then Some (fifo_fresh a) else q_next_id q),
        q_order := q_order q @ [fifo_fresh a], q_queue := hm_insert (fifo_fresh a) msg (q_queue q)\<rparr>)) m
        = map_of (fifo_entries a') m"
      using fifo_relD(3)[OF rel] by (simp add: entries map_of_snoc_fresh[OF new] del: map_of_append)
  qed (use rel in \<open>auto simp: a'_def fifo_rel_def held_by_def msg_def queue_message_new_def fifo_ids_parts
        order split: list.splits\<close>)
  then show ?thesis
    by (simp add: enqueue_unfold Let_def fresh a'_def msg_def)
qed

text \<open>Handing out the first ready message.\<close>

lemma drain_zeroes_padded:
  "0 \<notin> set ids \<Longrightarrow> \<exists>k'. drain_zeroes (replicate k 0 @ ids) = replicate k' 0 @ ids"
proof (cases ids)
  case Nil
  assume "0 \<notin> set ids"
  have "position (\<lambda>i. i \<noteq> (0::u128)) (replicate k 0) = None"
    by (simp add: position_None)
  with Nil have "drain_zeroes (replicate k 0 @ ids) = replicate 0 0 @ ids
      \<or> drain_zeroes (replicate k 0 @ ids) = replicate k 0 @ ids"
    by (simp add: drain_zeroes_def)
  then show ?thesis
    by blast
next
  case (Cons i rest)
  assume "0 \<notin> set ids"
  with Cons have "position (\<lambda>i. i \<noteq> 0) (replicate k 0 @ ids) = Some k"
    using position_skip[of "replicate k (0::u128)" "\<lambda>i. i \<noteq> 0" i rest] by auto
  then have "drain_zeroes (replicate k 0 @ ids) = ids \<or>
      drain_zeroes (replicate k 0 @ ids) = replicate k 0 @ ids"
    by (simp add: drain_zeroes_def)
  then show ?thesis
    by (metis append_Nil replicate_0)
qed

lemma ids_bounded_no_zero: "ids_bounded n ids \<Longrightarrow> 0 \<notin> set ids"
  by (auto simp: ids_bounded_def)

lemma next_id_after_padded:
  assumes "distinct (is @ i # js)" "0 \<notin> set (is @ i # js)"
  shows "next_id_after i (replicate k 0 @ is @ i # js) = (case js of [] \<Rightarrow> None | j # _ \<Rightarrow> Some j)"
proof -
  have "next_after_find (\<lambda>x. x = i) ((replicate k 0 @ is) @ i # js)
      = (case js of [] \<Rightarrow> None | j # _ \<Rightarrow> Some j)"
    using assms by (intro next_after_find_skip) auto
  with assms(2) show ?thesis
    by (auto simp: next_id_after_def split: list.splits)
qed

lemma fifo_lock_ready:
  assumes rel: "fifo_rel n q a" and ready: "fi_ready a = (i, msg) # rest"
  shows "lock_to_read c q =
     (let msg' = message_lock c msg; nxt = (case rest of [] \<Rightarrow> None | (j, _) # _ \<Rightarrow> Some j);
          q' = q\<lparr>q_queue := hm_insert i msg' (q_queue q),
            q_locked := hm_insert c (locked_ids (q_locked q) c @ [i]) (q_locked q), q_next_id := nxt\<rparr>
      in (if nxt = None then remove_zeroes q' else q', Ok (get_meta_as_vec i msg' @ payload msg, Some i)))"
proof -
  obtain k where order: "q_order q = replicate k 0 @ fifo_ids a" and ids: "ids_bounded n (fifo_ids a)"
    using rel by (auto simp: fifo_rel_def)
  have parts: "fifo_ids a = map (\<lambda>(h, i, msg). i) (fi_held a) @ i # map fst rest"
    by (simp add: fifo_ids_parts ready)
  have "map_of (fifo_entries a) i = Some msg"
  proof -
    have "distinct (map fst (fifo_entries a))"
      using ids_bounded_distinct[OF ids] by (simp add: fifo_ids_def)
    then show ?thesis
      by (rule map_of_is_SomeI) (simp add: fifo_entries_def ready)
  qed
  then have get: "hm_get (q_queue q) i = Some msg"
    using fifo_relD(3)[OF rel] by simp
  have nxt: "next_id_after i (q_order q) = (case rest of [] \<Rightarrow> None | (j, _) # _ \<Rightarrow> Some j)"
    using next_id_after_padded[of "map (\<lambda>(h, i, msg). i) (fi_held a)" i "map fst rest" k]
      ids_bounded_distinct[OF ids] ids_bounded_no_zero[OF ids]
    by (simp add: order parts split: list.split prod.split)
  have unlocked: "\<not> is_message_locked msg" and nonempty: "q_order q \<noteq> []"
      and next_id: "q_next_id q = Some i"
    using fifo_relD(5)[OF rel, of i msg] fifo_relD(6)[OF rel]
    by (simp_all add: is_message_locked_def ready order parts)
  then show ?thesis
    by (simp add: lock_to_read_def get nxt Let_def message_lock_def)
qed

lemma fifo_rel_lock:
  assumes rel: "fifo_rel n q a"
  shows "fifo_rel n (fst (lock_to_read c q)) (fst (fifo_step (QLock c) a))
       \<and> out_view (OutRead (snd (lock_to_read c q))) = snd (fifo_step (QLock c) a)"
proof (cases "fi_ready a")
  case Nil
  then show ?thesis
    using rel fifo_relD(6)[OF rel] by (simp add: lock_to_read_def)
next
  case (Cons e rest)
  obtain i msg where e: "e = (i, msg)"
    by (cases e)
  with Cons have ready: "fi_ready a = (i, msg) # rest" by simp
  obtain k where order: "q_order q = replicate k 0 @ fifo_ids a" and ids: "ids_bounded n (fifo_ids a)"
    using rel by (auto simp: fifo_rel_def)
  define a' where "a' = a\<lparr>fi_held := fi_held a @ [(c, i, message_lock c msg)], fi_ready := rest\<rparr>"
  have ids': "fifo_ids a' = fifo_ids a"
    by (simp add: a'_def fifo_ids_parts ready)
  obtain k' where drained: "drain_zeroes (q_order q) = replicate k' 0 @ fifo_ids a"
    using drain_zeroes_padded[OF ids_bounded_no_zero[OF ids]] order by metis
  define q' where "q' = q\<lparr>q_queue := hm_insert i (message_lock c msg) (q_queue q),
      q_locked := hm_insert c (locked_ids (q_locked q) c @ [i]) (q_locked q),
      q_next_id := (case rest of [] \<Rightarrow> None | (j, _) # _ \<Rightarrow> Some j)\<rparr>"
  have "distinct (map fst (fifo_entries a))"
    using ids_bounded_distinct[OF ids] by (simp add: fifo_ids_def)
  then have notin: "i \<notin> fst ` set (map snd (fi_held a))"
    by (force simp: fifo_entries_def ready image_iff)
  have lookup: "hm_get (q_queue q') m = map_of (fifo_entries a') m" for m
    using fifo_relD(3)[OF rel, of m] map_of_replace[OF notin, of "message_lock c msg" rest m msg]
    by (simp add: q'_def a'_def fifo_entries_def ready del: map_of_append)
  have rel': "fifo_rel n q'' a'" if "q_queue q'' = q_queue q'" "q_locked q'' = q_locked q'"
      "q_next_id q'' = q_next_id q'" "q_order q'' = replicate k'' 0 @ fifo_ids a" for q'' k''
  proof (rule fifo_relI[where k = k''])
    show "ids_bounded n (fifo_ids a')" "q_order q'' = replicate k'' 0 @ fifo_ids a'"
      using ids that(4) by (simp_all add: ids')
    show "hm_get (q_queue q'') m = map_of (fifo_entries a') m" for m
      using lookup that(1) by simp
    show "locked_ids (q_locked q'') c' = held_by c' a'" for c'
      using fifo_relD(7)[OF rel] that(2) by (simp add: q'_def a'_def held_by_def)
    show "locked_by msg = Some h" if "(h, j, msg) \<in> set (fi_held a')" for h j msg
      using that fifo_relD(4)[OF rel] by (auto simp: a'_def message_lock_def)
    show "locked_by msg = None" if "(j, msg) \<in> set (fi_ready a')" for j msg
      using that fifo_relD(5)[OF rel] by (auto simp: a'_def ready)
  qed (use that(3) in \<open>simp add: q'_def a'_def\<close>)
  from rel'[of q' k] rel'[of "remove_zeroes q'" k'] have "fifo_rel n q' a'" "fifo_rel n (remove_zeroes q') a'"
    using order drained by (simp_all add: q'_def)
  then show ?thesis
    by (cases rest) (auto simp add: fifo_lock_ready[OF rel ready] Let_def ready a'_def q'_def)
qed

text \<open>Acknowledging the oldest held message.\<close>

lemma position_held:
  assumes order: "ord = replicate k 0 @ i # is" and nz: "i \<noteq> (0::u128)"
  shows "position (\<lambda>x. x = i) ord = Some k" "ord[k := 0] = replicate (Suc k) 0 @ is"
  using position_skip[of "replicate k 0" "\<lambda>x. x = i" i "is"] nz
  by (simp_all add: order list_update_append replicate_app_Cons_same)

lemma fifo_ack_held:
  assumes rel: "fifo_rel n q a" and held: "fi_held a = (c, i, msg) # rest"
  shows "\<exists>k'. dequeue c None q =
     (q\<lparr>q_order := replicate k' 0 @ tl (fifo_ids a), q_queue := hm_remove i (q_queue q),
        q_locked := hm_insert c (tl (locked_ids (q_locked q) c)) (q_locked q)\<rparr>,
      Ok (length (payload msg)))"
proof -
  obtain k where order: "q_order q = replicate k 0 @ fifo_ids a" and ids: "ids_bounded n (fifo_ids a)"
    using rel by (auto simp: fifo_rel_def)
  obtain js where parts: "fifo_ids a = i # js"
    by (simp add: fifo_ids_parts held)
  have get: "hm_get (q_queue q) i = Some msg"
    using fifo_relD(3)[OF rel, of i] by (simp add: fifo_entries_def held)
  have "locked_ids (q_locked q) c = i # tl (locked_ids (q_locked q) c)"
    using fifo_relD(7)[OF rel, of c] by (simp add: held_by_def held)
  then have locked: "hm_get (q_locked q) c = Some (i # tl (locked_ids (q_locked q) c))"
    by (auto simp: locked_ids_def split: option.splits)
  have "i \<noteq> 0" "0 \<notin> set js"
    using ids_bounded_no_zero[OF ids] by (auto simp: parts)
  then obtain k' where "drain_zeroes (replicate (Suc k) 0 @ js) = replicate k' 0 @ js"
    using drain_zeroes_padded by blast
  with position_held[OF order[unfolded parts] \<open>i \<noteq> 0\<close>] show ?thesis
    by (intro exI[of _ k']) (simp add: dequeue_def dequeue_first_locked_def Let_def locked get parts
      order[unfolded parts] remove_zeroes_def)
qed

lemma fifo_rel_ack_held:
  assumes rel: "fifo_rel n q a" and held: "fi_held a = (c, i, msg) # rest"
  shows "fifo_rel n (fst (dequeue c None q)) (a\<lparr>fi_held := rest\<rparr>)"
proof -
  obtain k where deq: "dequeue c None q =
     (q\<lparr>q_order := replicate k 0 @ tl (fifo_ids a), q_queue := hm_remove i (q_queue q),
        q_locked := hm_insert c (tl (locked_ids (q_locked q) c)) (q_locked q)\<rparr>,
      Ok (length (payload msg)))"
    using fifo_ack_held[OF rel held] by blast
  have ids: "ids_bounded n (i # fifo_ids (a\<lparr>fi_held := rest\<rparr>))" "tl (fifo_ids a) = fifo_ids (a\<lparr>fi_held := rest\<rparr>)"
    using fifo_relD(1)[OF rel] by (simp_all add: fifo_ids_parts held)
  then have "map_of (fifo_entries (a\<lparr>fi_held := rest\<rparr>)) i = None"
    using ids_bounded_distinct by (force simp: map_of_eq_None_iff fifo_ids_def)
  moreover have "fifo_entries a = (i, msg) # fifo_entries (a\<lparr>fi_held := rest\<rparr>)"
    by (simp add: fifo_entries_def held)
  ultimately have lookup:
    "hm_get (hm_remove i (q_queue q)) m = map_of (fifo_entries (a\<lparr>fi_held := rest\<rparr>)) m" for m
    using fifo_relD(3)[OF rel, of m] by simp
  have locks: "locked_ids (hm_insert c (tl (locked_ids (q_locked q) c)) (q_locked q)) c' = held_by c' (a\<lparr>fi_held := rest\<rparr>)" for c'
    using fifo_relD(7)[OF rel] by (simp add: held_by_def held)
  show ?thesis
    unfolding deq fst_conv
  proof (rule fifo_relI[where k = k])
    show "locked_by m = Some h" if "(h, j, m) \<in> set (fi_held (a\<lparr>fi_held := rest\<rparr>))" for h j m
      using that fifo_relD(4)[OF rel, of h j m] by (simp add: held)
    show "ids_bounded n (fifo_ids (a\<lparr>fi_held := rest\<rparr>))"
      using ids(1) by (rule ids_bounded_tl)
  qed (use ids(2) lookup locks fifo_relD(5,6)[OF rel] in auto)
qed

lemma fifo_rel_ack:
  assumes rel: "fifo_rel n q a" and guard: "fifo_guard (QDequeue c None) a"
  shows "fifo_rel n (fst (dequeue c None q)) (fst (fifo_step (QDequeue c None) a))
       \<and> out_view (OutSize (snd (dequeue c None q))) = snd (fifo_step (QDequeue c None) a)"
proof (cases "held_by c a = []")
  case True
  then have "locked_ids (q_locked q) c = []"
    using fifo_relD(7)[OF rel] by simp
  then have "\<exists>e. dequeue c None q = (q, Err e)"
    by (auto simp: dequeue_def dequeue_first_locked_def locked_ids_def split: option.splits)
  moreover have "fifo_step (QDequeue c None) a = (a, Failed)"
    using True by (auto simp: held_by_def split: list.split prod.split)
  ultimately show ?thesis
    using rel by auto
next
  case False
  with guard obtain i msg rest where held: "fi_held a = (c, i, msg) # rest"
    by (cases "fi_held a") (auto simp: held_by_def)
  with fifo_ack_held[OF rel held] fifo_rel_ack_held[OF rel held] show ?thesis
    by auto
qed

text \<open>Giving the only held message back.\<close>

lemma fifo_unlock_only:
  assumes rel: "fifo_rel n q a" and held: "fi_held a = [(c, i, msg)]"
  shows "unlock c None q =
     (q\<lparr>q_queue := hm_insert i (message_unlock msg) (q_queue q),
        q_locked := hm_insert c [] (q_locked q), q_next_id := Some i\<rparr>, Ok ())"
proof -
  obtain k where order: "q_order q = replicate k 0 @ fifo_ids a" and ids: "ids_bounded n (fifo_ids a)"
    using rel by (auto simp: fifo_rel_def)
  have parts: "fifo_ids a = i # map fst (fi_ready a)"
    by (simp add: fifo_ids_parts held)
  have get: "hm_get (q_queue q) i = Some msg"
    using fifo_relD(3)[OF rel, of i] by (simp add: fifo_entries_def held)
  have "locked_ids (q_locked q) c = [i]"
    using fifo_relD(7)[OF rel, of c] by (simp add: held_by_def held)
  then have locked: "hm_get (q_locked q) c = Some [i]"
    by (auto simp: locked_ids_def split: option.splits)
  have below: "i < j" if "q_next_id q = Some j" for j
  proof -
    from that obtain m r where "fi_ready a = (j, m) # r"
      using fifo_relD(6)[OF rel] by (cases "fi_ready a") auto
    with ids show ?thesis
      by (simp add: parts ids_bounded_def word_less_nat_alt)
  qed
  have "release_message c i [i] 0 q =
     q\<lparr>q_queue := hm_insert i (message_unlock msg) (q_queue q),
        q_locked := hm_insert c [] (q_locked q), q_next_id := Some i\<rparr>"
    using below by (cases "q_next_id q") (auto simp: release_message_def Let_def get)
  then show ?thesis
    by (simp add: unlock_def Let_def locked order parts)
qed

lemma fifo_rel_nack:
  assumes rel: "fifo_rel n q a" and held: "fi_held a = [(c, i, msg)]"
  shows "fifo_rel n (fst (unlock c None q)) (fst (fifo_step (QUnlock c None) a))
       \<and> out_view (OutUnit (snd (unlock c None q))) = snd (fifo_step (QUnlock c None) a)"
proof -
  define a' where "a' = a\<lparr>fi_held := [], fi_ready := (i, message_unlock msg) # fi_ready a\<rparr>"
  have ids: "fifo_ids a' = fifo_ids a"
    by (simp add: a'_def fifo_ids_parts held)
  have lookup: "hm_get (hm_insert i (message_unlock msg) (q_queue q)) m = map_of (fifo_entries a') m" for m
    using fifo_relD(3)[OF rel, of m] by (simp add: a'_def fifo_entries_def held)
  have locks: "locked_ids (hm_insert c [] (q_locked q)) c' = held_by c' a'" for c'
    using fifo_relD(7)[OF rel, of c'] by (simp add: held_by_def held a'_def)
  obtain k where order: "q_order q = replicate k 0 @ fifo_ids a"
    using fifo_relD(2)[OF rel] by blast
  have "fifo_rel n (fst (unlock c None q)) a'"
    unfolding fifo_unlock_only[OF rel held] fst_conv
  proof (rule fifo_relI[where k = k])
    show "locked_by m = None" if "(j, m) \<in> set (fi_ready a')" for j m
      using that fifo_relD(5)[OF rel, of j m] by (auto simp: a'_def message_unlock_def)
    show "ids_bounded n (fifo_ids a')"
      using fifo_relD(1)[OF rel] by (simp add: ids)
  qed (use lookup locks order ids in \<open>simp_all add: a'_def\<close>)
  then show ?thesis
    by (simp add: held a'_def fifo_unlock_only[OF rel held])
qed

text \<open>Replacing the payload of a message in place.\<close>

lemma set_entry_fst [simp]: "fst (set_entry m pl e) = fst e"
  by (simp add: set_entry_def split_def)

lemma set_entry_Pair: "set_entry m pl (i, msg) = (i, if i = m then msg\<lparr>payload := pl\<rparr> else msg)"
  by (simp add: set_entry_def)

lemma map_of_set_entry:
  "map_of (map (set_entry m pl) es) j =
     (if j = m then map_option (\<lambda>msg. msg\<lparr>payload := pl\<rparr>) (map_of es j) else map_of es j)"
  by (induction es) (auto simp: set_entry_def)

lemma fifo_rel_update:
  assumes rel: "fifo_rel n q a"
  shows "fifo_rel n (fst (update_message m pl q)) (fst (fifo_step (QUpdate m pl) a))
       \<and> out_view (OutUnit (snd (update_message m pl q))) = snd (fifo_step (QUpdate m pl) a)"
proof (cases "m \<in> set (fifo_ids a)")
  case False
  then have "hm_get (q_queue q) m = None"
    using fifo_relD(3)[OF rel, of m] by (simp add: map_of_eq_None_iff fifo_ids_def)
  with False rel show ?thesis
    by (simp add: update_message_def)
next
  case True
  define a' where "a' = a\<lparr>fi_held := map (\<lambda>(h, e). (h, set_entry m pl e)) (fi_held a),
              fi_ready := map (set_entry m pl) (fi_ready a)\<rparr>"
  obtain k where order: "q_order q = replicate k 0 @ fifo_ids a"
    using fifo_relD(2)[OF rel] by blast
  from True obtain msg where get: "hm_get (q_queue q) m = Some msg"
    using fifo_relD(3)[OF rel, of m] by (auto simp: fifo_ids_def dest: weak_map_of_SomeI)
  have entries: "fifo_entries a' = map (set_entry m pl) (fifo_entries a)"
    by (simp add: a'_def fifo_entries_def split_def comp_def)
  then have ids: "fifo_ids a' = fifo_ids a"
    by (simp add: fifo_ids_def comp_def)
  have next_id: "(case fi_ready a' of [] \<Rightarrow> None | (i, _) # _ \<Rightarrow> Some i)
      = (case fi_ready a of [] \<Rightarrow> None | (i, _) # _ \<Rightarrow> Some i)"
    by (auto simp: a'_def set_entry_def split: list.split prod.split)
  have locks: "held_by c a' = held_by c a" for c
    by (simp add: held_by_def a'_def filter_map comp_def split_def)
  have "fifo_rel n (q\<lparr>q_queue := hm_insert m (msg\<lparr>payload := pl\<rparr>) (q_queue q)\<rparr>) a'"
  proof (rule fifo_relI[where k = k])
    show "hm_get (q_queue (q\<lparr>q_queue := hm_insert m (msg\<lparr>payload := pl\<rparr>) (q_queue q)\<rparr>)) j
        = map_of (fifo_entries a') j" for j
      using get fifo_relD(3)[OF rel, of j] fifo_relD(3)[OF rel, of m]
      by (simp add: entries map_of_set_entry)
    show "locked_by e = Some h" if "(h, j, e) \<in> set (fi_held a')" for h j e
      using that fifo_relD(4)[OF rel] by (fastforce simp: a'_def set_entry_def split: if_splits)
    show "locked_by e = None" if "(j, e) \<in> set (fi_ready a')" for j e
      using that fifo_relD(5)[OF rel] by (fastforce simp: a'_def set_entry_def split: if_splits)
  qed (use fifo_relD(1,6,7)[OF rel] order ids next_id locks in simp_all)
  moreover have "q_order q \<noteq> []"
    using True order by auto
  ultimately show ?thesis
    using True get by (simp add: update_message_def a'_def)
qed

lemma fifo_rel_mono: "fifo_rel n q a \<Longrightarrow> n \<le> n' \<Longrightarrow> fifo_rel n' q a"
  by (auto simp: fifo_rel_def intro: ids_bounded_mono)

lemma fifo_rel_config:
  "fifo_rel n q a \<Longrightarrow> fifo_rel n (update_config_auto_fail v q) a"
  "fifo_rel n q a \<Longrightarrow> fifo_rel n (update_config_fail_timeout t q) a"
  by (simp_all add: fifo_rel_def update_config_auto_fail_def update_config_fail_timeout_def)

interpretation fifo_sim: simulation queue_view_step fifo_step fifo_guard fifo_rel "2 ^ 128 - 1"
proof
  fix n q a op
  assume rel: "fifo_rel n q a" and n: "n < 2 ^ 128 - 1" and guard: "fifo_guard op a"
  have "snd (queue_view_step op q) = snd (fifo_step op a)
      \<and> (fifo_rel n (fst (queue_view_step op q)) (fst (fifo_step op a))
         \<or> fifo_rel (Suc n) (fst (queue_view_step op q)) (fst (fifo_step op a)))"
  proof (cases op)
    case (QEnqueue now pl publisher)
    then show ?thesis
      using fifo_rel_enqueue[OF rel n] by (simp add: queue_view_step_def enqueue_unfold Let_def)
  next
    case (QLock c)
    then show ?thesis
      using fifo_rel_lock[OF rel, of c] by (simp add: queue_view_step_def)
  next
    case (QDequeue c m)
    with guard have "m = None"
      by (cases m) auto
    with QDequeue guard show ?thesis
      using fifo_rel_ack[OF rel, of c] by (simp add: queue_view_step_def)
  next
    case (QUnlock c m)
    with guard have "m = None"
      by (cases m) auto
    with QUnlock guard show ?thesis
      using fifo_rel_nack[OF rel, of c] by (auto simp: queue_view_step_def)
  next
    case (QUpdate m pl)
    then show ?thesis
      using fifo_rel_update[OF rel, of m pl] by (simp add: queue_view_step_def del: fifo_step.simps)
  qed (use rel guard fifo_rel_config in \<open>auto simp: queue_view_step_def\<close>)
  then show "snd (queue_view_step op q) = snd (fifo_step op a)
      \<and> fifo_rel (Suc n) (fst (queue_view_step op q)) (fst (fifo_step op a))"
    by (auto intro: fifo_rel_mono)
qed

section \<open>The contract\<close>

text \<open>
  C2. Refinement. Any run of at most \<open>2 ^ 128 - 1\<close> operations on a new queue, by any number
  of clients, in which messages are acknowledged in delivery order and given back only when
  nothing else is held, shows its clients exactly what the abstract buffer shows: the same
  messages with the same ids and bytes, the same sizes, the same failures, no panic.
\<close>

theorem queue_refines_fifo:
  assumes "run_guarded fifo_step fifo_guard ops fifo_empty" and "length ops < 2 ^ 128"
  shows "snd (run_ops queue_view_step ops queue_new) = snd (run_ops fifo_step ops fifo_empty)"
  using fifo_sim.sim_run[OF fifo_rel_new] assms by simp

text \<open>
  Two clients; a message is given back and redelivered, one is updated while held.
\<close>

definition two_client_run :: "queue_op list" where
  "two_client_run = [QEnqueue 5 [1, 2] 9, QEnqueue 6 [3] 9, QLock 7, QUnlock 7 None, QLock 7,
     QUpdate 2 [4, 4, 4], QLock 8, QDequeue 7 None, QDequeue 8 None]"

theorem queue_refines_fifo_witness:
  "run_guarded fifo_step fifo_guard two_client_run fifo_empty
   \<and> snd (run_ops queue_view_step two_client_run queue_new) = snd (run_ops fifo_step two_client_run fifo_empty)"
proof -
  have g: "run_guarded fifo_step fifo_guard two_client_run fifo_empty"
    by (simp add: two_client_run_def fifo_empty_def held_by_def fifo_fresh_def fifo_ids_def
        fifo_entries_def set_entry_Pair)
  have n: "length two_client_run < 2 ^ 128"
    by (simp add: two_client_run_def)
  from g queue_refines_fifo[OF g n] show ?thesis
    by blast
qed

text \<open>What a producer puts in and what the consumer sees.\<close>

fun enqueued :: "queue_op list \<Rightarrow> u8 list list" where
  "enqueued [] = []"
| "enqueued (QEnqueue now pl publisher # ops) = pl # enqueued ops"
| "enqueued (_ # ops) = enqueued ops"

fun delivered :: "fifo_out list \<Rightarrow> u8 list list" where
  "delivered [] = []"
| "delivered (Delivered bytes i # outs) = drop 56 bytes # delivered outs"
| "delivered (_ # outs) = delivered outs"

fun acked :: "fifo_out list \<Rightarrow> usize list" where
  "acked [] = []"
| "acked (Sized n # outs) = n # acked outs"
| "acked (_ # outs) = acked outs"

fun consumer_op :: "u128 \<Rightarrow> queue_op \<Rightarrow> bool" where
  "consumer_op c (QEnqueue _ _ _) = True"
| "consumer_op c (QLock c') = (c' = c)"
| "consumer_op c (QDequeue c' m) = (c' = c \<and> m = None)"
| "consumer_op c _ = False"

lemma consumer_op_cases:
  assumes "consumer_op c op"
  obtains (enq) now pl publisher where "op = QEnqueue now pl publisher"
    | (lock) "op = QLock c" | (ack) "op = QDequeue c None"
  using assms by (cases op) auto

lemma consumer_step_held:
  assumes "consumer_op c op" "\<forall>(h, e) \<in> set (fi_held a). h = c"
  shows "\<forall>(h, e) \<in> set (fi_held (fst (fifo_step op a))). h = c"
  using assms(1) by (cases rule: consumer_op_cases) (use assms(2) in \<open>auto split: list.split\<close>)

lemma consumer_step_guard:
  assumes "consumer_op c op" "\<forall>(h, e) \<in> set (fi_held a). h = c"
  shows "fifo_guard op a"
  using assms(1)
proof (cases rule: consumer_op_cases)
  case ack
  with assms(2) show ?thesis
    by (cases "fi_held a") (simp_all add: held_by_def split_def)
qed simp_all

lemma consumer_guard:
  "\<forall>op \<in> set ops. consumer_op c op \<Longrightarrow> \<forall>(h, e) \<in> set (fi_held a). h = c \<Longrightarrow>
     run_guarded fifo_step fifo_guard ops a"
proof (induction ops arbitrary: a)
  case Nil
  then show ?case by simp
next
  case (Cons op ops)
  then show ?case
    using consumer_step_held[of c op a] consumer_step_guard[of c op a] by simp
qed

lemma consumer_delivered:
  "\<forall>op \<in> set ops. consumer_op c op \<Longrightarrow>
     prefix (delivered (snd (run_ops fifo_step ops a))) (map (\<lambda>e. payload (snd e)) (fi_ready a) @ enqueued ops)"
proof (induction ops arbitrary: a)
  case Nil
  then show ?case by simp
next
  case (Cons op ops)
  then have IH: "prefix (delivered (snd (run_ops fifo_step ops a'))) (map (\<lambda>e. payload (snd e)) (fi_ready a') @ enqueued ops)"
    for a' by (simp add: comp_def)
  from Cons.prems have "consumer_op c op" by simp
  then show ?case
  proof (cases rule: consumer_op_cases)
    case (enq now pl publisher)
    then show ?thesis
      using IH[of "fst (fifo_step op a)"]
      by (simp add: run_ops_Cons_outs queue_message_new_def del: run_ops.simps)
  next
    case lock
    then show ?thesis
      using IH[of "fst (fifo_step op a)"]
      by (cases "fi_ready a") (auto simp add: run_ops_Cons_outs simp del: run_ops.simps)
  next
    case ack
    then show ?thesis
      using IH[of "fst (fifo_step op a)"]
      by (cases "fi_held a") (auto simp add: run_ops_Cons_outs simp del: run_ops.simps)
  qed
qed

lemma consumer_acked:
  "\<forall>op \<in> set ops. consumer_op c op \<Longrightarrow>
     prefix (acked (snd (run_ops fifo_step ops a)))
       (map (\<lambda>(h, i, msg). length (payload msg)) (fi_held a)
        @ map length (delivered (snd (run_ops fifo_step ops a))))
     \<and> Crashed \<notin> set (snd (run_ops fifo_step ops a))"
proof (induction ops arbitrary: a)
  case Nil
  then show ?case by simp
next
  case (Cons op ops)
  then have IH: "prefix (acked (snd (run_ops fifo_step ops a')))
       (map (\<lambda>(h, i, msg). length (payload msg)) (fi_held a')
        @ map length (delivered (snd (run_ops fifo_step ops a'))))
     \<and> Crashed \<notin> set (snd (run_ops fifo_step ops a'))" for a'
    by simp
  from Cons.prems have "consumer_op c op" by simp
  then show ?case
  proof (cases rule: consumer_op_cases)
    case (enq now pl publisher)
    then show ?thesis
      using IH[of "fst (fifo_step op a)"] by (simp add: run_ops_Cons_outs del: run_ops.simps)
  next
    case lock
    then show ?thesis
      using IH[of "fst (fifo_step op a)"]
      by (cases "fi_ready a") (auto simp add: run_ops_Cons_outs message_lock_def simp del: run_ops.simps)
  next
    case ack
    then show ?thesis
      using IH[of "fst (fifo_step op a)"]
      by (cases "fi_held a") (auto simp add: run_ops_Cons_outs simp del: run_ops.simps split: if_splits)
  qed
qed

text \<open>
  C22. With a single consumer (any number of publishers, one client that locks and
  acknowledges) delivery is exact: in every run of fewer than \<open>2 ^ 128\<close> operations the
  payloads delivered are a prefix of the payloads enqueued, in order, none lost, none
  repeated; the sizes acknowledged are the sizes of the first messages delivered; nothing
  panics.
\<close>

theorem single_consumer_delivers_in_order:
  assumes "\<forall>op \<in> set ops. consumer_op c op" and "length ops < 2 ^ 128"
  shows "prefix (delivered (snd (run_ops queue_view_step ops queue_new))) (enqueued ops)
     \<and> prefix (acked (snd (run_ops queue_view_step ops queue_new)))
          (map length (delivered (snd (run_ops queue_view_step ops queue_new))))
     \<and> Crashed \<notin> set (snd (run_ops queue_view_step ops queue_new))"
proof -
  have guard: "run_guarded fifo_step fifo_guard ops fifo_empty"
    using consumer_guard[OF assms(1)] by (simp add: fifo_empty_def)
  have "snd (run_ops queue_view_step ops queue_new) = snd (run_ops fifo_step ops fifo_empty)"
    using fifo_sim.sim_run[OF fifo_rel_new _ guard] assms(2) by simp
  then show ?thesis
    using consumer_delivered[OF assms(1), of fifo_empty] consumer_acked[OF assms(1), of fifo_empty]
    by (simp add: fifo_empty_def)
qed

definition consumer_run :: "queue_op list" where
  "consumer_run = [QEnqueue 5 [1, 2] 9, QEnqueue 6 [3] 8, QLock 7, QLock 7, QDequeue 7 None,
     QDequeue 7 None, QEnqueue 7 [4] 9, QLock 7]"

theorem single_consumer_delivers_in_order_witness:
  "enqueued consumer_run = [[1, 2], [3], [4]]
   \<and> prefix (delivered (snd (run_ops queue_view_step consumer_run queue_new))) [[1, 2], [3], [4]]"
proof -
  have h: "\<forall>op \<in> set consumer_run. consumer_op 7 op" "length consumer_run < 2 ^ 128"
      "enqueued consumer_run = [[1, 2], [3], [4]]"
    by (simp_all add: consumer_run_def)
  show ?thesis
    using h single_consumer_delivers_in_order[OF h(1,2)] by simp
qed

end
