(* ===== verification/Queue_Behaviour.thy ===== *)
theory Queue_Behaviour
  imports Queue_Invariant
begin

text \<open>
  What each queue operation does, on every branch: the messages, locks and results after
  \<open>enqueue\<close>, \<open>lock_to_read\<close>, \<open>dequeue\<close>, \<open>unlock\<close>, \<open>requeue\<close>, \<open>update_message\<close>,
  \<open>list_messages\<close> and the payload statistics.
\<close>

section \<open>Contents of a queue\<close>

abbreviation messages :: "queue \<Rightarrow> u128 \<Rightarrow> queue_message option" where
  "messages q \<equiv> hm_get (q_queue q)"

abbreviation locks :: "queue \<Rightarrow> u128 \<Rightarrow> u128 list" where
  "locks q \<equiv> locked_ids (q_locked q)"

section \<open>Metadata\<close>

text \<open>
  The metadata block in front of a delivered message is 56 bytes and determines the id,
  the publisher, the timestamp and the holder, except that an unlocked message and one held
  by client \<open>u128::MAX\<close> look the same.
\<close>

theorem meta_bytes_injective:
  "length (meta_to_be_bytes a) = 56
   \<and> (meta_to_be_bytes a = meta_to_be_bytes b) =
       (meta_id a = meta_id b \<and> meta_publisher_id a = meta_publisher_id b
        \<and> meta_timestamp a = meta_timestamp b
        \<and> (case meta_locked_by a of None \<Rightarrow> - 1 | Some h \<Rightarrow> h)
          = (case meta_locked_by b of None \<Rightarrow> - 1 | Some h \<Rightarrow> h))"
  by (auto simp: meta_to_be_bytes_def be128.enc_length be64.enc_length be128.enc_append_eq_iff
      be64.enc_append_eq_iff be128.enc_eq_iff split: option.splits)

section \<open>Locking the next message\<close>

text \<open>
  What \<open>lock_to_read\<close> leaves as the next message: after the entry it handed out, the next one of the
  order, the first stored one when that is a removed slot, and none behind the last.
\<close>

lemma next_id_after_split:
  assumes "xs @ i # ys = ord" "i \<notin> set xs"
  shows "next_id_after i ord =
     (case ys of [] \<Rightarrow> None | y # _ \<Rightarrow> if y = 0 then find (\<lambda>x. x \<noteq> 0) ord else Some y)"
proof -
  have "next_after_find (\<lambda>x. x = i) ord = (case ys of [] \<Rightarrow> None | z # _ \<Rightarrow> Some z)"
    unfolding assms(1)[symmetric] using assms(2) by (intro next_after_find_skip) auto
  then show ?thesis
    by (simp add: next_id_after_def first_nonzero_def split: list.split)
qed

lemma filter_drain_zeroes [simp]: "filter (\<lambda>x. x \<noteq> 0) (drain_zeroes ord) = filter (\<lambda>x. x \<noteq> 0) ord"
proof -
  have "filter (\<lambda>x. x \<noteq> 0) (drop n ord) = filter (\<lambda>x. x \<noteq> 0) ord" if "\<forall>j < n. ord ! j = 0" for n
    using that
  proof (induction n arbitrary: ord)
    case (Suc n)
    show ?case
    proof (cases ord)
      case (Cons a list)
      have "a = 0" "\<forall>j < n. list ! j = 0"
        using Suc.prems Cons by force+
      with Suc.IH[of list] Cons show ?thesis by simp
    qed simp
  qed simp
  moreover have "filter (\<lambda>x. x \<noteq> 0) ord = []" if "position (\<lambda>i. i \<noteq> 0) ord = None"
    using that by (simp add: position_None)
  ultimately show ?thesis
    by (auto simp: drain_zeroes_def filter_empty_conv position_None dest: position_SomeD split: option.split)
qed

text \<open>
  C28. \<open>lock_to_read\<close> on every branch, for every well-formed queue. It succeeds exactly when \<open>next_id\<close>
  names a stored message nobody holds: then the client gets the 56-byte metadata (already
  naming it as the holder) followed by the payload, the message is marked, its id joins the
  end of the client's lock vector, nothing else is held or lost, the order keeps its ids, and
  \<open>next_id\<close> moves to the entry behind the one handed out (to the first stored one if that is a
  removed slot). In every other case the queue is unchanged and the error says which it is.
\<close>

theorem lock_to_read_outcome:
  assumes "queue_inv q"
  shows "(q_order q = [] \<or> q_next_id q = None \<longrightarrow> lock_to_read c q = (q, Err (invalid_data queue_is_empty_text)))
    \<and> (\<forall>i. q_order q \<noteq> [] \<longrightarrow> q_next_id q = Some i \<longrightarrow>
        (case messages q i of
           None \<Rightarrow> lock_to_read c q = (q, Err (invalid_data no_such_message_id_text))
         | Some msg \<Rightarrow>
             if locked_by msg \<noteq> None then lock_to_read c q = (q, Err (invalid_data already_locked_text))
             else \<exists>q' xs ys. lock_to_read c q = (q', Ok (get_meta_as_vec i (message_lock c msg) @ payload msg, Some i))
               \<and> messages q' = (messages q)(i \<mapsto> message_lock c msg)
               \<and> locks q' = (locks q)(c := locks q c @ [i])
               \<and> q_order q = xs @ i # ys \<and> i \<notin> set xs
               \<and> q_next_id q' = (case ys of [] \<Rightarrow> None
                   | y # _ \<Rightarrow> if y = 0 then find (\<lambda>x. x \<noteq> 0) (q_order q) else Some y)
               \<and> filter (\<lambda>x. x \<noteq> 0) (q_order q') = filter (\<lambda>x. x \<noteq> 0) (q_order q)
               \<and> (q_next_id q' \<noteq> None \<longrightarrow> q_order q' = q_order q)))"
proof (intro conjI allI impI)
  show "lock_to_read c q = (q, Err (invalid_data queue_is_empty_text))" if "q_order q = [] \<or> q_next_id q = None"
    using that by (auto simp: lock_to_read_def)
next
  fix i assume ord: "q_order q \<noteq> []" and i: "q_next_id q = Some i"
  show "case messages q i of
           None \<Rightarrow> lock_to_read c q = (q, Err (invalid_data no_such_message_id_text))
         | Some msg \<Rightarrow>
             if locked_by msg \<noteq> None then lock_to_read c q = (q, Err (invalid_data already_locked_text))
             else \<exists>q' xs ys. lock_to_read c q = (q', Ok (get_meta_as_vec i (message_lock c msg) @ payload msg, Some i))
               \<and> messages q' = (messages q)(i \<mapsto> message_lock c msg)
               \<and> locks q' = (locks q)(c := locks q c @ [i])
               \<and> q_order q = xs @ i # ys \<and> i \<notin> set xs
               \<and> q_next_id q' = (case ys of [] \<Rightarrow> None
                   | y # _ \<Rightarrow> if y = 0 then find (\<lambda>x. x \<noteq> 0) (q_order q) else Some y)
               \<and> filter (\<lambda>x. x \<noteq> 0) (q_order q') = filter (\<lambda>x. x \<noteq> 0) (q_order q)
               \<and> (q_next_id q' \<noteq> None \<longrightarrow> q_order q' = q_order q)"
  proof (cases "\<exists>msg. messages q i = Some msg \<and> locked_by msg = None")
    case True
    then obtain msg where msg: "messages q i = Some msg" "locked_by msg = None" by blast
    then have "i \<in> set (q_order q)" using assms by (auto simp: queue_inv_def)
    then obtain xs ys where s: "xs @ i # ys = q_order q" "i \<notin> set xs" by (metis split_list_first)
    define q' where "q' = fst (lock_to_read c q)"
    have "lock_to_read c q = (q', Ok (get_meta_as_vec i (message_lock c msg) @ payload msg, Some i))"
      using ord i msg by (simp add: q'_def lock_to_read_def Let_def is_message_locked_def message_lock_def)
    moreover have "messages q' = (messages q)(i \<mapsto> message_lock c msg)" "locks q' = (locks q)(c := locks q c @ [i])"
        "q_next_id q' = next_id_after i (q_order q)"
        "filter (\<lambda>x. x \<noteq> 0) (q_order q') = filter (\<lambda>x. x \<noteq> 0) (q_order q)"
        "q_next_id q' \<noteq> None \<longrightarrow> q_order q' = q_order q"
      using ord i msg
      by (auto simp: q'_def lock_to_read_def Let_def is_message_locked_def remove_zeroes_def fun_eq_iff)
    ultimately show ?thesis
      unfolding next_id_after_split[OF s]
      by (simp add: msg) (intro exI[of _ q'] exI[of _ xs] exI[of _ ys] conjI; simp add: s)
  next
    case False
    with ord i show ?thesis
      by (auto simp: lock_to_read_def is_message_locked_def split: option.split)
  qed
qed

theorem lock_to_read_outcome_witness:
  "\<exists>q' xs ys. lock_to_read 8 (fst (enqueue 5 [1, 2] 9 queue_new))
       = (q', Ok (get_meta_as_vec 1 (message_lock 8 (queue_message_new 5 [1, 2] 9)) @ [1, 2], Some 1))
     \<and> locks q' 8 = [1] \<and> q_next_id q' = None"
proof -
  let ?q = "fst (enqueue 5 [1, 2] 9 queue_new)"
  have q: "queue_inv ?q" by (simp add: queue_inv_ops queue_inv_new)
  have f: "q_order ?q = [1]" "q_next_id ?q = Some 1" "messages ?q 1 = Some (queue_message_new 5 [1, 2] 9)" "locks ?q 8 = []"
    by (simp_all add: enqueue_def Let_def queue_new_def next_message_id_def)
  from lock_to_read_outcome[OF q, of 8] f show ?thesis
    by (auto simp: queue_message_new_def Cons_eq_append_conv)
qed

text \<open>The operations that never release or remove a message.\<close>

fun keeps_held :: "queue_op \<Rightarrow> bool" where
  "keeps_held (QLock _) = True"
| "keeps_held (QUpdate _ _) = True"
| "keeps_held (QSetAutoFail _) = True"
| "keeps_held (QSetFailTimeout _) = True"
| "keeps_held (QNextBiggest _) = True"
| "keeps_held _ = False"

fun delivered_ids :: "queue_out list \<Rightarrow> u128 list" where
  "delivered_ids [] = []"
| "delivered_ids (OutRead (Ok (_, Some i)) # outs) = i # delivered_ids outs"
| "delivered_ids (_ # outs) = delivered_ids outs"

definition held :: "queue \<Rightarrow> u128 \<Rightarrow> bool" where
  "held q i \<longleftrightarrow> (\<exists>msg. messages q i = Some msg \<and> locked_by msg \<noteq> None)"

lemma keeps_held_step: "keeps_held op \<Longrightarrow> held q i \<Longrightarrow> held (fst (queue_step op q)) i"
  by (cases op)
     (auto simp: held_def lock_to_read_def update_message_def update_config_auto_fail_def
       update_config_fail_timeout_def get_next_biggest_payload_def find_biggest_payloads_def
       message_lock_def Let_def split: option.split)

lemma lock_delivers_free:
  "lock_to_read c q = (q', Ok (bytes, Some i)) \<Longrightarrow> \<not> held q i \<and> held q' i"
  by (auto simp: lock_to_read_def Let_def held_def is_message_locked_def message_lock_def
      split: option.splits if_splits)

lemma keeps_held_outs:
  assumes "keeps_held op"
  shows "delivered_ids [snd (queue_step op q)] = []
       \<or> (\<exists>i. delivered_ids [snd (queue_step op q)] = [i] \<and> \<not> held q i \<and> held (fst (queue_step op q)) i)"
proof (cases op)
  case (QLock c)
  obtain q' r where lock: "lock_to_read c q = (q', r)"
    by (cases "lock_to_read c q")
  show ?thesis
  proof (cases "\<exists>bytes i. r = Ok (bytes, Some i)")
    case True
    with lock lock_delivers_free[of c q q'] show ?thesis
      by (auto simp: QLock)
  next
    case False
    then have "delivered_ids [OutRead r] = []"
      by (cases "[OutRead r]" rule: delivered_ids.cases) auto
    with lock show ?thesis
      by (simp add: QLock)
  qed
qed (use assms in simp_all)

lemma delivered_ids_Cons: "delivered_ids (out # outs) = delivered_ids [out] @ delivered_ids outs"
  by (cases "[out]" rule: delivered_ids.cases) auto

lemma delivered_ids_distinct_free:
  "\<forall>op \<in> set ops. keeps_held op \<Longrightarrow>
     distinct (delivered_ids (snd (run_ops queue_step ops q)))
     \<and> (\<forall>i \<in> set (delivered_ids (snd (run_ops queue_step ops q))). \<not> held q i)"
proof (induction ops arbitrary: q)
  case Nil
  then show ?case by simp
next
  case (Cons op ops)
  define q' where "q' = fst (queue_step op q)"
  from Cons.prems have op: "keeps_held op" by simp
  have IH: "distinct (delivered_ids (snd (run_ops queue_step ops q')))"
      "\<forall>i \<in> set (delivered_ids (snd (run_ops queue_step ops q'))). \<not> held q' i"
    using Cons by simp_all
  then have "\<forall>i \<in> set (delivered_ids (snd (run_ops queue_step ops q'))). \<not> held q i"
    using keeps_held_step[OF op] by (auto simp: q'_def)
  moreover have "delivered_ids (snd (run_ops queue_step (op # ops) q))
      = delivered_ids [snd (queue_step op q)] @ delivered_ids (snd (run_ops queue_step ops q'))"
    by (subst run_ops_Cons_outs, subst delivered_ids_Cons) (simp add: q'_def)
  ultimately show ?case
    using keeps_held_outs[OF op, of q] IH by (auto simp: q'_def)
qed

text \<open>
  C3. No message is delivered twice while it is out: in any run of \<open>lock_to_read\<close> calls by
  any clients (mixed with payload and configuration updates) on any queue, the ids delivered
  are pairwise distinct and none of them was held before.
\<close>

theorem no_double_delivery:
  assumes "\<forall>op \<in> set ops. keeps_held op"
  shows "distinct (delivered_ids (snd (run_ops queue_step ops q)))
       \<and> (\<forall>i \<in> set (delivered_ids (snd (run_ops queue_step ops q))). \<not> held q i)"
  using assms by (rule delivered_ids_distinct_free)

theorem no_double_delivery_witness:
  "distinct (delivered_ids (snd (run_ops queue_step [QLock 7, QLock 8, QUpdate 1 [9]]
      (fst (enqueue 1 [1] 5 (fst (enqueue 1 [2] 5 queue_new)))))))"
proof -
  have h: "\<forall>op \<in> set [QLock 7, QLock 8, QUpdate 1 [9]]. keeps_held op"
    by simp
  show ?thesis
    using no_double_delivery[OF h] by blast
qed

section \<open>Enqueue\<close>

lemma hm_len_insert:
  "hm_ok m \<Longrightarrow> hm_len (hm_insert k v m) = hm_len m + (if hm_get m k = None then 1 else 0)"
proof -
  assume "hm_ok m"
  moreover have "finite (hm_keys m)"
    by (simp add: hm_keys_def)
  ultimately show ?thesis
    by (simp add: hm_ok_card hm.keys_insert card_insert_if) (simp add: hm_keys_get)
qed

text \<open>
  \<open>enqueue\<close> always succeeds and stores the payload, unlocked and stamped, under the next
  id, leaving every other message alone; the number of stored messages grows by one exactly
  when that id was free. A well-formed queue can therefore only lose a message to an
  enqueue through an id that is still in use.
\<close>

theorem enqueue_outcome:
  assumes "queue_inv q"
  shows "\<exists>q'. enqueue now pl publisher q = (q', Ok ())
     \<and> messages q' = (messages q)(next_message_id (q_order q) \<mapsto> queue_message_new now pl publisher)
     \<and> locks q' = locks q \<and> q_order q' = q_order q @ [next_message_id (q_order q)]
     \<and> hm_len (q_queue q') = hm_len (q_queue q)
         + (if messages q (next_message_id (q_order q)) = None then 1 else 0)
     \<and> q_next_id q' = (if q_next_id q = None then Some (next_message_id (q_order q)) else q_next_id q)"
  using assms by (auto simp: enqueue_def Let_def fun_eq_iff hm_len_insert queue_inv_def)

theorem enqueue_outcome_witness:
  "\<exists>q'. enqueue 7 [1, 2] 5 queue_new = (q', Ok ()) \<and> hm_len (q_queue q') = 1"
  using enqueue_outcome[OF queue_inv_new, of 7 "[1, 2]" 5]
  by (auto simp: queue_new_def hm_len_def)

section \<open>Dequeue\<close>

lemma dequeue_by_id_result:
  assumes "q_order q \<noteq> []" and "messages q m = Some msg"
  shows "\<exists>q'. dequeue c (Some m) q = (q', Ok (length (payload msg)))
     \<and> messages q' = (messages q)(m := None)
     \<and> locks q' = (locks q)(c := remove1 m (locks q c))"
  using assms
  by (auto simp: dequeue_def dequeue_by_id_def Let_def fun_eq_iff locked_ids_def remove1_idem
      vec_remove_position position_None split: option.split)

text \<open>
  C30. Removal by id: when the message exists, any client's \<open>dequeue\<close> with its id succeeds
  with the size of the payload, removes exactly that message, and drops exactly the first
  entry for it in the caller's own lock vector; locks of other clients stay.
\<close>

theorem dequeue_by_id_outcome:
  assumes "queue_inv q" and "messages q m = Some msg"
  shows "\<exists>q'. dequeue c (Some m) q = (q', Ok (length (payload msg)))
     \<and> messages q' = (messages q)(m := None)
     \<and> locks q' = (locks q)(c := remove1 m (locks q c))"
proof -
  have "q_order q \<noteq> []"
    using assms by (auto simp: queue_inv_def)
  then show ?thesis
    using assms(2) by (rule dequeue_by_id_result)
qed

theorem dequeue_by_id_outcome_witness:
  "\<exists>q'. dequeue 3 (Some 1) (fst (enqueue 7 [1, 2] 5 queue_new)) = (q', Ok 2)
     \<and> messages q' 1 = None"
proof -
  define q where "q = fst (enqueue 7 [1, 2] 5 queue_new)"
  have inv: "queue_inv q"
    by (simp add: q_def queue_inv_enqueue queue_inv_new)
  have msg: "messages q 1 = Some (queue_message_new 7 [1, 2] 5)"
    by (simp add: q_def enqueue_def queue_new_def next_message_id_def)
  show ?thesis
    using dequeue_by_id_outcome[OF inv msg, of 3] by (auto simp: q_def queue_message_new_def)
qed

text \<open>
  C29. Acknowledging (\<open>dequeue\<close> without an id) on every branch: with an empty order, no lock
  vector or an empty one it fails and changes nothing. Otherwise it takes the first entry
  of the client's lock vector and removes that message; the result is the payload's size, or
  a panic (after the lock has been dropped) when the message is no longer stored.
\<close>

theorem dequeue_ack_outcome:
  "case dequeue c None q of
     (q', Ok n) \<Rightarrow> (\<exists>i rest msg. locks q c = i # rest \<and> messages q i = Some msg
        \<and> n = length (payload msg) \<and> messages q' = (messages q)(i := None)
        \<and> locks q' = (locks q)(c := rest) \<and> q_next_id q' = q_next_id q)
   | (q', Panic) \<Rightarrow> (\<exists>i rest. q_order q \<noteq> [] \<and> locks q c = i # rest \<and> messages q i = None
        \<and> messages q' = messages q \<and> locks q' = (locks q)(c := rest) \<and> q_next_id q' = q_next_id q)
   | (q', Err e) \<Rightarrow> q' = q \<and> (q_order q = [] \<or> locks q c = [])"
  by (auto simp: dequeue_def dequeue_first_locked_def Let_def locked_ids_def fun_eq_iff
      split: option.splits list.splits)

section \<open>Unlock\<close>


section \<open>Requeue and update\<close>

lemma last_drain_zeroes:
  assumes "ord \<noteq> []" "last ord \<noteq> 0"
  shows "drain_zeroes ord \<noteq> [] \<and> last (drain_zeroes ord) = last ord"
proof -
  from assms have "last ord \<in> set ord"
    by simp
  then obtain idx where idx: "position (\<lambda>i. i \<noteq> 0) ord = Some idx"
    using assms(2) position_exists[of "last ord" ord "\<lambda>i. i \<noteq> 0"] by blast
  then have "idx < length ord"
    by (simp add: position_SomeD)
  then show ?thesis
    by (simp add: drain_zeroes_def idx assms(1))
qed

lemma last_tombstone_order:
  assumes "q_order q \<noteq> []" "last (q_order q) \<noteq> m"
  shows "q_order (tombstone_order m q) \<noteq> [] \<and> last (q_order (tombstone_order m q)) = last (q_order q)"
proof (cases "position (\<lambda>i. i = m) (q_order q)")
  case (Some idx)
  with position_SomeD[OF Some] assms have "idx \<noteq> length (q_order q) - 1"
    by (auto simp: last_conv_nth)
  with Some assms(1) show ?thesis
    by (auto simp: tombstone_order_order last_list_update)
qed (use assms in \<open>simp add: tombstone_order_order\<close>)

lemma dequeue_by_id_last:
  assumes "q_order q \<noteq> []" "last (q_order q) \<noteq> m" "last (q_order q) \<noteq> 0"
  shows "last (q_order (fst (dequeue_by_id c m msg q))) = last (q_order q)"
  using last_tombstone_order[OF assms(1,2)] assms(3)
    last_drain_zeroes[of "q_order (tombstone_order m q)"]
  by (simp add: dequeue_by_id_def Let_def split: option.split)

text \<open>
  C32. \<open>requeue\<close> of a stored message, when the next id is free: the message moves to the end
  of the order under the new id with its payload and publisher, unlocked; every other
  message keeps its contents, and the caller loses its lock on the old id.
\<close>

theorem requeue_outcome:
  assumes "queue_inv q" and "messages q m = Some msg"
    and "messages q (next_message_id (q_order q)) = None"
  shows "\<exists>q'. requeue now c m q = (q', Ok ())
     \<and> messages q' = (messages q)(m := None,
          next_message_id (q_order q) \<mapsto> queue_message_new now (payload msg) (publisher_id msg))
     \<and> locks q' = (locks q)(c := remove1 m (locks q c))
     \<and> last (q_order q') = next_message_id (q_order q)"
proof -
  define i where "i = next_message_id (q_order q)"
  define q1 where "q1 = fst (enqueue now (payload msg) (publisher_id msg) q)"
  have enq: "enqueue now (payload msg) (publisher_id msg) q = (q1, Ok ())"
    by (simp add: q1_def enqueue_def Let_def)
  have q1: "queue_inv q1" "messages q1 = (messages q)(i \<mapsto> queue_message_new now (payload msg) (publisher_id msg))"
      "q_locked q1 = q_locked q" "q_order q1 = q_order q @ [i]"
    using queue_inv_enqueue[OF assms(1)] by (auto simp: q1_def i_def enqueue_def Let_def fun_eq_iff)
  have mi: "i \<noteq> m" "i \<noteq> 0"
    using assms(2,3) by (auto simp: i_def)
  then have msg: "messages q1 m = Some msg"
    using assms(2) q1(2) by simp
  obtain q' where deq: "dequeue c (Some m) q1 = (q', Ok (length (payload msg)))"
      "messages q' = (messages q1)(m := None)" "locks q' = (locks q1)(c := remove1 m (locks q1 c))"
    using dequeue_by_id_result[of q1 m msg c] msg q1(4) by auto
  have "last (q_order q') = i"
    using dequeue_by_id_last[of q1 m c msg] deq(1) msg q1(4) mi by (simp add: dequeue_def)
  moreover have "q_order q \<noteq> []"
    using assms(1,2) by (auto simp: queue_inv_def)
  ultimately show ?thesis
    using deq q1 mi assms(2) enq by (auto simp: requeue_def i_def[symmetric] fun_eq_iff)
qed

theorem requeue_outcome_witness:
  "\<exists>q'. requeue 9 3 1 (fst (enqueue 7 [1, 2] 5 queue_new)) = (q', Ok ())
     \<and> last (q_order q') = 2"
proof -
  define q where "q = fst (enqueue 7 [1, 2] 5 queue_new)"
  have inv: "queue_inv q"
    by (simp add: q_def queue_inv_enqueue queue_inv_new)
  have msg: "messages q 1 = Some (queue_message_new 7 [1, 2] 5)" "next_message_id (q_order q) = 2"
      "messages q (next_message_id (q_order q)) = None"
    by (simp_all add: q_def enqueue_def queue_new_def next_message_id_def)
  show ?thesis
    using requeue_outcome[OF inv msg(1,3), of 9 3] by (auto simp: q_def[symmetric] msg(2))
qed

text \<open>
  \<open>update_message\<close> replaces the payload of a stored message and nothing else, not even
  its lock, timestamp or place in the order; on an unknown id it fails and changes nothing.
\<close>

theorem update_message_outcome:
  "update_message m pl q =
     (case (q_order q, messages q m) of
        ([], _) \<Rightarrow> (q, Err (invalid_data queue_is_empty_text))
      | (_, None) \<Rightarrow> (q, Err (invalid_data not_in_queue_text))
      | (_, Some msg) \<Rightarrow> (fst (update_message m pl q), Ok ()))
   \<and> messages (fst (update_message m pl q)) =
       (if q_order q = [] then messages q
        else (messages q)(m := map_option (\<lambda>msg. msg\<lparr>payload := pl\<rparr>) (messages q m)))
   \<and> q_order (fst (update_message m pl q)) = q_order q
   \<and> q_next_id (fst (update_message m pl q)) = q_next_id q
   \<and> locks (fst (update_message m pl q)) = locks q"
  by (auto simp: update_message_def fun_eq_iff split: option.split list.split)

section \<open>Listing and payload statistics\<close>

text \<open>
  \<open>list_messages\<close> reports every stored message exactly once, in the order the hash map
  is visited, whatever that order is.
\<close>

theorem list_messages_complete:
  assumes "queue_inv q" and "hash_order visit"
  shows "\<exists>ms. list_messages visit q = Ok ms \<and> distinct (map meta_id ms)
     \<and> (\<forall>i. (\<exists>m \<in> set ms. meta_id m = i) = (messages q i \<noteq> None))
     \<and> mset ms = image_mset (\<lambda>(i, msg). meta_of i msg) (mset (q_queue q))"
proof -
  have perm: "mset (visit (q_queue q)) = mset (q_queue q)"
    using assms(2) by (simp add: hash_order_def)
  then have "mset (map fst (visit (q_queue q))) = mset (map fst (q_queue q))"
    by (simp add: mset_map)
  moreover have "distinct (map fst (q_queue q))"
    using assms(1) by (simp add: queue_inv_def hm_ok_def)
  ultimately have "distinct (map fst (visit (q_queue q)))"
    by (metis mset_eq_imp_distinct_iff)
  then have "distinct (map meta_id (map (\<lambda>(i, msg). meta_of i msg) (visit (q_queue q))))"
    by (simp add: meta_of_def message_meta_new_def comp_def split_def)
  moreover have "(\<exists>m \<in> set (map (\<lambda>(i, msg). meta_of i msg) (visit (q_queue q))). meta_id m = i)
      = (messages q i \<noteq> None)" for i
  proof -
    have "set (visit (q_queue q)) = set (q_queue q)"
      using perm by (metis set_mset_mset)
    then show ?thesis
      by (force simp: meta_of_def message_meta_new_def hm_get_def map_of_eq_None_iff)
  qed
  ultimately show ?thesis
    using perm by (auto simp: list_messages_def mset_map)
qed

theorem list_messages_complete_witness:
  "\<exists>ms. list_messages rev (fst (enqueue 7 [1, 2] 5 queue_new)) = Ok ms \<and> distinct (map meta_id ms)"
proof -
  have inv: "queue_inv (fst (enqueue 7 [1, 2] 5 queue_new))"
    by (simp add: queue_inv_enqueue queue_inv_new)
  have order: "hash_order rev"
    by (simp add: hash_order_def)
  show ?thesis
    using list_messages_complete[OF inv order] by blast
qed

text \<open>
  Inserting into a sorted list, by the part below and the part above; so dropping the least
  of five kept entries before sorting in more values loses nothing among the five greatest.
\<close>

lemma filter_below_head: "sorted (a # xs) \<Longrightarrow> \<not> a < h \<Longrightarrow> filter (\<lambda>y. y < h) xs = []" for h :: nat
  by (auto simp: filter_empty_conv)

lemma sorted_filter_split:
  "sorted xs \<Longrightarrow> filter (\<lambda>y. y < h) xs @ filter (\<lambda>y. \<not> y < h) xs = xs" for h :: nat
proof (induction xs)
  case (Cons a xs)
  with filter_below_head[of a xs h] show ?case by (cases "a < h") auto
qed simp

lemma insort_filter:
  "sorted xs \<Longrightarrow> insort h xs = filter (\<lambda>y. y < h) xs @ h # filter (\<lambda>y. \<not> y < h) xs" for h :: nat
proof (induction xs)
  case (Cons a xs)
  with filter_below_head[of a xs h] sorted_filter_split[of xs h] show ?case
    by (cases "a < h") auto
qed simp

lemma drop_least_sorted:
  fixes a :: "nat list"
  assumes ins: "insort x a = h # b" and "sorted a"
  shows "drop (Suc (length lens)) (sort (a @ x # lens)) = drop (length lens) (sort (b @ lens))"
proof -
  define S where "S = sort (b @ lens)"
  have "sorted (h # b)"
    using assms by (metis sorted_insort)
  then have "filter (\<lambda>y. y < h) b = []"
    by (auto simp: filter_empty_conv)
  moreover have "length (filter (\<lambda>y. y < h) S) = length (filter (\<lambda>y. y < h) (b @ lens))"
    by (metis S_def mset_filter mset_sort size_mset)
  ultimately have few: "length (filter (\<lambda>y. y < h) S) \<le> length lens"
    by simp
  have "mset (insort x a) = mset (h # b)"
    using ins by simp
  then have "sort (a @ x # lens) = sort (h # b @ lens)"
    by (intro properties_for_sort[symmetric]) auto
  also have "\<dots> = filter (\<lambda>y. y < h) S @ h # filter (\<lambda>y. \<not> y < h) S"
    by (simp add: S_def insort_filter)
  finally have "drop (Suc (length lens)) (sort (a @ x # lens))
      = drop (length lens - length (filter (\<lambda>y. y < h) S)) (filter (\<lambda>y. \<not> y < h) S)"
    using few by (simp add: Suc_diff_le)
  also have "\<dots> = drop (length lens) (filter (\<lambda>y. y < h) S @ filter (\<lambda>y. \<not> y < h) S)"
    using few by simp
  also have "\<dots> = drop (length lens) S"
    by (simp add: S_def sorted_filter_split)
  finally show ?thesis
    by (simp add: S_def)
qed

lemma fold_scan_sort:
  "sorted a \<Longrightarrow> length a = 5 \<Longrightarrow>
     fold (\<lambda>(_, message) a. scan_payload 5 (length (payload message)) a) es a
       = drop (length es) (sort (a @ map (\<lambda>(_, message). length (payload message)) es))"
proof (induction es arbitrary: a)
  case Nil
  then show ?case by (simp add: sorted_sort_id)
next
  case (Cons e es)
  obtain i msg where e: "e = (i, msg)"
    by (cases e)
  define b where "b = tl (insort (length (payload msg)) a)"
  define lens where "lens = map (\<lambda>(_, message). length (payload message)) es"
  have ins: "insort (length (payload msg)) a = hd (insort (length (payload msg)) a) # b"
    unfolding b_def by (simp add: insort_not_Nil)
  have sorted_ins: "sorted (insort (length (payload msg)) a)"
    using Cons.prems by (simp add: sorted_insort)
  have b: "sorted b" "length b = 5"
    using Cons.prems sorted_ins by (simp_all add: b_def sorted_tl)
  have step: "fold (\<lambda>(_, message) a. scan_payload 5 (length (payload message)) a) (e # es) a
      = drop (length es) (sort (b @ lens))"
    using Cons.IH[OF b] Cons.prems by (simp add: e b_def scan_payload_insort lens_def)
  have "drop (Suc (length es)) (sort (a @ length (payload msg) # lens)) = drop (length es) (sort (b @ lens))"
    using drop_least_sorted[OF ins Cons.prems(1), of lens] by (simp add: lens_def)
  with step show ?case
    by (simp add: e lens_def)
qed

text \<open>
  The payload statistics are right: scanning a queue leaves the five greatest among the
  five entries it had and the sizes of all stored messages, ascending, whatever the order
  in which the hash map is visited.
\<close>

theorem find_biggest_payloads_top_five:
  assumes "queue_inv q" and "hash_order visit"
  shows "q_biggest_payloads (find_biggest_payloads visit q) =
     drop (hm_len (q_queue q))
       (sort (q_biggest_payloads q @ map (\<lambda>(_, message). length (payload message)) (q_queue q)))"
proof -
  have perm: "mset (visit (q_queue q)) = mset (q_queue q)"
    using assms(2) by (simp add: hash_order_def)
  then have "length (visit (q_queue q)) = hm_len (q_queue q)"
    unfolding hm_len_def by (metis size_mset)
  moreover have "sort (q_biggest_payloads q @ map (\<lambda>(_, message). length (payload message)) (visit (q_queue q)))
     = sort (q_biggest_payloads q @ map (\<lambda>(_, message). length (payload message)) (q_queue q))"
    using perm by (intro properties_for_sort[symmetric]) (simp_all add: mset_map)
  ultimately show ?thesis
    using assms(1) fold_scan_sort[of "q_biggest_payloads q" "visit (q_queue q)"]
    by (simp add: find_biggest_payloads_def queue_inv_def)
qed

theorem find_biggest_payloads_top_five_witness:
  "q_biggest_payloads (find_biggest_payloads rev (fst (enqueue 7 [1, 2] 5 queue_new))) = [0, 0, 0, 0, 2]"
proof -
  have inv: "queue_inv (fst (enqueue 7 [1, 2] 5 queue_new))"
    by (simp add: queue_inv_enqueue queue_inv_new)
  have order: "hash_order rev"
    by (simp add: hash_order_def)
  have q: "q_queue (fst (enqueue 7 [1, 2] 5 queue_new)) = [(1, queue_message_new 7 [1, 2] 5)]"
      "q_biggest_payloads (fst (enqueue 7 [1, 2] 5 queue_new)) = [0, 0, 0, 0, 0]"
    by (simp_all add: enqueue_def queue_new_def next_message_id_def hm_insert_def eval_nat_numeral)
  show ?thesis
    unfolding find_biggest_payloads_top_five[OF inv order] q
    by (simp add: hm_len_def queue_message_new_def)
qed

lemma biggest_unchanged:
  "(\<And>visit. op \<noteq> QNextBiggest visit) \<Longrightarrow> q_biggest_payloads (queue_after op q) = q_biggest_payloads q"
  by (cases op)
     (auto simp: queue_after_def enqueue_def lock_to_read_def dequeue_def dequeue_by_id_def
       dequeue_first_locked_def unlock_def release_message_def requeue_def update_message_def
       update_config_auto_fail_def update_config_fail_timeout_def Let_def
       split: option.split list.split result.split prod.split)

text \<open>
  The value \<open>get_next_biggest_payload\<close> returns is the one computed by the call before:
  it reads the top entry first and rescans afterwards. On a queue that has never been asked,
  whatever operations built it, the answer is 0, however large the stored messages are.
\<close>

theorem first_biggest_payload_is_zero:
  assumes "\<forall>op \<in> set ops. \<forall>visit. op \<noteq> QNextBiggest visit"
  shows "snd (get_next_biggest_payload visit (fold queue_after ops queue_new)) = Ok 0"
proof -
  have "q_biggest_payloads (fold queue_after ops q) = q_biggest_payloads q" for q
    using assms
  proof (induction ops arbitrary: q)
    case (Cons op ops)
    then have "q_biggest_payloads (queue_after op q) = q_biggest_payloads q"
      by (intro biggest_unchanged) auto
    with Cons show ?case by simp
  qed simp
  then show ?thesis
    by (simp add: get_next_biggest_payload_def queue_new_def)
qed

theorem first_biggest_payload_is_zero_witness:
  "snd (get_next_biggest_payload rev (fold queue_after [QEnqueue 1 [1, 2, 3] 5, QLock 6] queue_new)) = Ok 0"
proof -
  have h: "\<forall>op \<in> set [QEnqueue 1 [1, 2, 3] 5, QLock 6]. \<forall>visit. op \<noteq> QNextBiggest visit"
    by simp
  show ?thesis
    by (rule first_biggest_payload_is_zero[OF h])
qed

end
