(* ===== verification/Queue_Defects.thy ===== *)
theory Queue_Defects
  imports Queue_Behaviour Queue_Fifo
begin

text \<open>
  Where the queue leaves its contract, as theorems about the code as it is: a cursor left
  on a message that is gone, ids reused while in flight, an acknowledgement that panics, a
  removal that acknowledges something else. Each is reached from a new queue by ordinary
  client requests.
\<close>

section \<open>A cursor that names no message\<close>

text \<open>\<open>next_id\<close> names a message that is not stored, while the order is not empty.\<close>

definition stranded :: "u128 \<Rightarrow> queue \<Rightarrow> bool" where
  "stranded i q \<longleftrightarrow> q_next_id q = Some i \<and> messages q i = None \<and> q_order q \<noteq> []"

lemma stranded_lock: "stranded i q \<Longrightarrow> lock_to_read c q = (q, Err (invalid_data no_such_message_id_text))"
  by (simp add: stranded_def lock_to_read_def)

lemma stranded_enqueue:
  "stranded i q \<Longrightarrow> next_message_id (q_order q) \<noteq> i \<Longrightarrow> stranded i (fst (enqueue now pl publisher q))"
  by (simp add: stranded_def enqueue_def Let_def)

text \<open>The last id of the order, counting up by enqueues without wrapping.\<close>

definition last_id_is :: "nat \<Rightarrow> queue \<Rightarrow> bool" where
  "last_id_is n q \<longleftrightarrow> q_order q \<noteq> [] \<and> unat (last (q_order q)) = n"

lemma last_id_enqueue:
  assumes "last_id_is n q" "Suc n < 2 ^ 128"
  shows "last_id_is (Suc n) (fst (enqueue now pl publisher q)) \<and> unat (next_message_id (q_order q)) = Suc n"
proof -
  have succ: "unat (last (q_order q) + 1) = Suc n"
    using assms by (simp add: last_id_is_def unat_word_ariths)
  then have "last (q_order q) + 1 \<noteq> 0"
    by (metis nat.distinct(1) unat_0)
  with assms(1) succ show ?thesis
    by (simp add: last_id_is_def enqueue_def next_message_id_def Let_def)
qed

fun enqueue_all :: "(u128 \<times> u8 list \<times> u128) list \<Rightarrow> queue \<Rightarrow> queue" where
  "enqueue_all [] q = q"
| "enqueue_all ((now, pl, publisher) # ms) q = enqueue_all ms (fst (enqueue now pl publisher q))"

lemma stranded_enqueue_all:
  "stranded i q \<Longrightarrow> last_id_is n q \<Longrightarrow> unat i \<le> n \<Longrightarrow> n + length ms < 2 ^ 128 \<Longrightarrow> stranded i (enqueue_all ms q)"
proof (induction ms arbitrary: q n)
  case Nil
  then show ?case by simp
next
  case (Cons m ms)
  obtain now pl publisher where m: "m = (now, pl, publisher)"
    by (cases m)
  from Cons.prems have step: "last_id_is (Suc n) (fst (enqueue now pl publisher q))"
      "unat (next_message_id (q_order q)) = Suc n"
    using last_id_enqueue by simp_all
  with Cons.prems have "stranded i (fst (enqueue now pl publisher q))"
    by (intro stranded_enqueue) auto
  with Cons.IH[OF _ step(1)] Cons.prems show ?case
    by (simp add: m)
qed

text \<open>
  Three messages, the second removed by id before the first is taken: the cursor skips the
  tombstone back to the first message, which is then acknowledged under it.
\<close>

definition stranding_run :: "queue_op list" where
  "stranding_run = [QEnqueue 1 [10] 5, QEnqueue 2 [20] 5, QEnqueue 3 [30] 5,
     QDequeue 6 (Some 2), QLock 7, QDequeue 7 None]"

lemmas queue_eval =
  queue_after_def queue_new_def enqueue_def next_message_id_def Let_def lock_to_read_def
  dequeue_def dequeue_by_id_def dequeue_first_locked_def unlock_def release_message_def requeue_def
  tombstone_order_def remove_zeroes_def drain_zeroes_def magic_drain_vec_def next_id_after_def
  first_nonzero_def is_message_locked_def message_lock_def message_unlock_def queue_message_new_def
  locked_ids_def hm_insert_def hm_remove_def hm_get_def AList.delete_eq

lemma stranding_run_state:
  "stranded 1 (fold queue_after stranding_run queue_new)
   \<and> last_id_is 3 (fold queue_after stranding_run queue_new)
   \<and> messages (fold queue_after stranding_run queue_new) 3
       = Some \<lparr>payload = [30], publisher_id = 5, timestamp = 3, locked_by = None\<rparr>"
  by (simp add: stranding_run_def stranded_def last_id_is_def queue_eval)

text \<open>
  C24. A queue can stop delivering for good. After three enqueues, a removal of the second
  message by id, one delivery and its acknowledgement, the third message is stored and free,
  yet every \<open>lock_to_read\<close> of every client fails with "No such message id", also after any
  further (fewer than \<open>2 ^ 127\<close>) messages have been enqueued.
\<close>

theorem queue_strands_messages:
  assumes "length later < 2 ^ 127"
  shows "lock_to_read c (enqueue_all later (fold queue_after stranding_run queue_new))
           = (enqueue_all later (fold queue_after stranding_run queue_new),
              Err (invalid_data no_such_message_id_text))
     \<and> (\<exists>msg. messages (fold queue_after stranding_run queue_new) 3 = Some msg \<and> locked_by msg = None)"
proof
  have "stranded 1 (enqueue_all later (fold queue_after stranding_run queue_new))"
    by (rule stranded_enqueue_all[where n = 3]) (use assms stranding_run_state in simp_all)
  then show "lock_to_read c (enqueue_all later (fold queue_after stranding_run queue_new))
           = (enqueue_all later (fold queue_after stranding_run queue_new),
              Err (invalid_data no_such_message_id_text))"
    by (rule stranded_lock)
qed (use stranding_run_state in simp)

theorem queue_strands_messages_witness:
  "snd (lock_to_read 9 (enqueue_all [(4, [40], 5)] (fold queue_after stranding_run queue_new)))
     = Err (invalid_data no_such_message_id_text)"
proof -
  have h: "length [(4 :: u128, [40 :: u8], 5 :: u128)] < 2 ^ 127"
    by simp
  show ?thesis
    using queue_strands_messages[OF h, of 9] by simp
qed

section \<open>Ids reused while in use\<close>

text \<open>
  An enqueue behind a trailing tombstone starts again at id 1: if message 1 is still
  stored, its payload is replaced by the new one, its lock mark is cleared, and the number
  of stored messages does not grow.
\<close>

theorem enqueue_after_tombstone_overwrites:
  assumes "queue_inv q" and "last (q_order q) = 0" and "messages q 1 = Some old"
  shows "messages (fst (enqueue now pl publisher q)) = (messages q)(1 \<mapsto> queue_message_new now pl publisher)
     \<and> hm_len (q_queue (fst (enqueue now pl publisher q))) = hm_len (q_queue q)"
  using assms by (auto simp: enqueue_def Let_def next_message_id_def fun_eq_iff hm_len_insert queue_inv_def)

text \<open>Two consumers, the second message acknowledged before the first.\<close>

definition out_of_order_run :: "queue_op list" where
  "out_of_order_run = [QEnqueue 1 [10] 5, QEnqueue 2 [20, 20] 5, QLock 7, QLock 8, QDequeue 8 None]"

theorem enqueue_after_tombstone_overwrites_witness:
  "messages (fst (enqueue 3 [30, 30, 30] 5 (fold queue_after out_of_order_run queue_new))) 1
     = Some (queue_message_new 3 [30, 30, 30] 5)"
proof -
  have inv: "queue_inv (fold queue_after out_of_order_run queue_new)"
    by (rule qm.inv_run[OF queue_inv_new])
  have last: "last (q_order (fold queue_after out_of_order_run queue_new)) = 0"
    by (simp add: out_of_order_run_def queue_eval)
  have old: "messages (fold queue_after out_of_order_run queue_new) 1
      = Some \<lparr>payload = [10], publisher_id = 5, timestamp = 1, locked_by = Some 7\<rparr>"
    by (simp add: out_of_order_run_def queue_eval)
  show ?thesis
    using enqueue_after_tombstone_overwrites[OF inv last old, of 3 "[30, 30, 30]" 5] by simp
qed

text \<open>
  C25. The consequence for two well-behaved consumers, for every well-formed queue whose last slot
  is a removed message and whose message 1 is the first one client \<open>c\<close> works on: the next message
  published takes its place, and the acknowledgement of \<open>c\<close> removes that new message, free and never
  delivered, reporting its size. Both messages are gone, everything else is as before.
\<close>

theorem out_of_order_ack_loses_message:
  assumes "queue_inv q" "last (q_order q) = 0" "messages q 1 = Some old" "locks q c = 1 # rest"
  shows "\<exists>q1 q2. enqueue now pl publisher q = (q1, Ok ())
    \<and> messages q1 1 = Some (queue_message_new now pl publisher) \<and> \<not> held q1 1
    \<and> dequeue c None q1 = (q2, Ok (length pl))
    \<and> messages q2 = (messages q)(1 := None) \<and> locks q2 = (locks q)(c := rest)"
proof -
  define q1 where "q1 = fst (enqueue now pl publisher q)"
  have e: "enqueue now pl publisher q = (q1, Ok ())"
    by (simp add: q1_def enqueue_def Let_def)
  have ord: "q_order q \<noteq> []"
    using assms(1,3) by (auto simp: queue_inv_def)
  have q1: "q_order q1 \<noteq> []" "q_locked q1 = q_locked q"
      "messages q1 = (messages q)(1 \<mapsto> queue_message_new now pl publisher)"
    using ord assms(2) by (auto simp: q1_def enqueue_def Let_def next_message_id_def fun_eq_iff)
  have c: "hm_get (q_locked q) c = Some (1 # rest)"
    using assms(4) by (auto simp: locked_ids_def split: option.splits)
  define q2 where "q2 = fst (dequeue c None q1)"
  have d: "dequeue c None q1 = (q2, Ok (length pl))"
    using q1 c by (simp add: q2_def dequeue_def dequeue_first_locked_def Let_def queue_message_new_def)
  have "messages q2 = (messages q)(1 := None)" "locks q2 = (locks q)(c := rest)"
    using q1 c by (auto simp: q2_def dequeue_def dequeue_first_locked_def Let_def remove_zeroes_def fun_eq_iff
        split: option.splits)
  moreover have "\<not> held q1 1" "messages q1 1 = Some (queue_message_new now pl publisher)"
    using q1(3) by (simp_all add: held_def queue_message_new_def)
  ultimately show ?thesis
    using e d by blast
qed

theorem out_of_order_ack_loses_message_witness:
  "\<exists>q1 q2. enqueue 3 [30, 30, 30] 5 (fold queue_after out_of_order_run queue_new) = (q1, Ok ())
     \<and> dequeue 7 None q1 = (q2, Ok 3) \<and> messages q2 1 = None"
proof -
  let ?q = "fold queue_after out_of_order_run queue_new"
  have "queue_inv ?q"
    by (rule qm.inv_run[OF queue_inv_new])
  moreover have "last (q_order ?q) = 0" "locks ?q 7 = [1]"
      "messages ?q 1 = Some \<lparr>payload = [10], publisher_id = 5, timestamp = 1, locked_by = Some 7\<rparr>"
    by (simp_all add: out_of_order_run_def queue_eval)
  ultimately show ?thesis
    using out_of_order_ack_loses_message[of ?q _ 7 "[]" 3 "[30, 30, 30]" 5] by fastforce
qed

text \<open>
  \<open>requeue\<close> can lose the message it moves: with two messages of which the second has
  been removed, requeueing the first succeeds and leaves the queue without any message.
\<close>

theorem requeue_loses_message:
  "snd (queue_step (QRequeue 3 6 1)
      (fold queue_after [QEnqueue 1 [10] 5, QEnqueue 2 [20] 5, QDequeue 6 (Some 2)] queue_new)) = OutUnit (Ok ())
   \<and> hm_len (q_queue (fold queue_after [QEnqueue 1 [10] 5, QEnqueue 2 [20] 5, QDequeue 6 (Some 2)] queue_new)) = 1
   \<and> q_queue (fold queue_after
        [QEnqueue 1 [10] 5, QEnqueue 2 [20] 5, QDequeue 6 (Some 2), QRequeue 3 6 1] queue_new) = []"
  by (simp add: queue_eval hm_len_def)

section \<open>Removal by id against other clients' locks\<close>

text \<open>
  Removing a message by id leaves the lock another client holds on it behind, and that
  client's next acknowledgement of it panics (the task serving the request dies, no response
  is sent), with the lock dropped and no message removed.
\<close>

theorem ack_of_removed_message_panics:
  assumes "queue_inv q" and "messages q m = Some msg" and "locks q c = m # rest" and "d \<noteq> c"
    and "q_order (fst (dequeue d (Some m) q)) \<noteq> []"
  shows "snd (dequeue c None (fst (dequeue d (Some m) q))) = Panic"
proof -
  have "q_order q \<noteq> []"
    using assms(1,2) by (auto simp: queue_inv_def)
  then obtain q' where q': "dequeue d (Some m) q = (q', Ok (length (payload msg)))"
      "messages q' = (messages q)(m := None)" "locks q' = (locks q)(d := remove1 m (locks q d))"
    using dequeue_by_id_result[of q m msg d] assms(2) by blast
  with assms(3,4) have "locks q' c = m # rest" "messages q' m = None"
    by simp_all
  then have "hm_get (q_locked q') c = Some (m # rest)"
    by (auto simp: locked_ids_def split: option.splits)
  with \<open>messages q' m = None\<close> assms(5) q'(1) show ?thesis
    by (simp add: dequeue_def dequeue_first_locked_def Let_def)
qed

theorem ack_of_removed_message_panics_witness:
  "snd (dequeue 7 None (fst (dequeue 6 (Some 1) (fold queue_after [QEnqueue 1 [10] 5, QLock 7] queue_new)))) = Panic"
proof -
  define q where "q = fold queue_after [QEnqueue 1 [10] 5, QLock 7] queue_new"
  have inv: "queue_inv q"
    unfolding q_def by (rule qm.inv_run[OF queue_inv_new])
  have msg: "messages q 1 = Some \<lparr>payload = [10], publisher_id = 5, timestamp = 1, locked_by = Some 7\<rparr>"
      "locks q 7 = 1 # []" "(6 :: u128) \<noteq> 7" "q_order (fst (dequeue 6 (Some 1) q)) \<noteq> []"
    by (simp_all add: q_def queue_eval)
  show ?thesis
    using ack_of_removed_message_panics[OF inv msg] by (simp add: q_def)
qed

text \<open>
  A removal by an id that is not in the queue is not refused when the client holds a
  lock: it acknowledges, and removes, the first message the client holds.
\<close>

theorem dequeue_missing_id_acks_first_lock:
  assumes "messages q m = None" and "locks q c = i # rest" and "messages q i = Some msg"
    and "q_order q \<noteq> []"
  shows "dequeue c (Some m) q = dequeue c None q
     \<and> snd (dequeue c (Some m) q) = Ok (length (payload msg))
     \<and> messages (fst (dequeue c (Some m) q)) i = None"
proof -
  have "hm_get (q_locked q) c = Some (i # rest)"
    using assms(2) by (auto simp: locked_ids_def split: option.splits)
  with assms show ?thesis
    by (auto simp: dequeue_def dequeue_first_locked_def Let_def split: option.split)
qed

theorem dequeue_missing_id_acks_first_lock_witness:
  "snd (dequeue 7 (Some 99) (fold queue_after [QEnqueue 1 [10, 11] 5, QLock 7] queue_new)) = Ok 2"
proof -
  define q where "q = fold queue_after [QEnqueue 1 [10, 11] 5, QLock 7] queue_new"
  have h: "messages q 99 = None" "locks q 7 = 1 # []"
      "messages q 1 = Some \<lparr>payload = [10, 11], publisher_id = 5, timestamp = 1, locked_by = Some 7\<rparr>"
      "q_order q \<noteq> []"
    by (simp_all add: q_def queue_eval)
  have "snd (dequeue 7 (Some 99) q) = Ok 2"
    using dequeue_missing_id_acks_first_lock[OF h, THEN conjunct2, THEN conjunct1] by simp
  then show ?thesis
    by (simp only: q_def)
qed

text \<open>
  Contrary to the field's comment, \<open>next_id\<close> is not the next message nobody holds: with
  messages 1 and 2 out, 1 given back and taken again, a further client is refused with
  "already locked" although message 3 is free.
\<close>

theorem next_id_names_held_message:
  "let q = fold queue_after [QEnqueue 1 [10] 5, QEnqueue 2 [20] 5, QEnqueue 3 [30] 5,
       QLock 7, QLock 8, QUnlock 7 None, QLock 9] queue_new
   in snd (lock_to_read 6 q) = Err (invalid_data already_locked_text)
      \<and> q_next_id q = Some 2 \<and> held q 2
      \<and> (\<exists>msg. messages q 3 = Some msg \<and> locked_by msg = None)"
  by (simp add: queue_eval held_def)

end
