(* ===== verification/Allocator_Model.thy ===== *)
theory Allocator_Model
  imports Broker_Prelude
begin

unbundle bit_operations_syntax

text \<open>
  The global allocator of \<open>src/memory/allocator.rs\<close>: an arena handed out by a bump offset
  and an intrusive free list. Addresses are natural numbers, 0 is the null pointer, and the
  arena's memory is a store of 8-byte cells, so a \<open>FreeNode\<close> at \<open>a\<close> is the cells \<open>a\<close> (size)
  and \<open>a + 8\<close> (next) and an \<open>AllocHeader\<close> before the user pointer \<open>p\<close> is the cells \<open>p - 16\<close>
  (slot offset) and \<open>p - 8\<close> (slot size). Requests the arena does not serve go to the system
  allocator, which is an outcome of its own.
\<close>

section \<open>State\<close>

record arena =
  ar_base :: usize
  ar_allocated :: usize
  ar_used :: usize
  ar_offset :: usize
  ar_locked_size :: usize
  ar_dealloc_count :: usize
  ar_defrag_wanted :: bool
  ar_free_head :: usize
  ar_mem :: "usize \<Rightarrow> usize"

record layout =
  l_size :: usize
  l_align :: usize

definition null :: usize where "null = 0"
definition header_bytes :: usize where "header_bytes = 16"
definition min_slot_size :: usize where "min_slot_size = 16"
definition slot_align :: usize where "slot_align = 8"

lemmas arena_consts = null_def header_bytes_def min_slot_size_def slot_align_def

text \<open>The globals before \<open>init\<close>.\<close>

definition arena_boot :: "(usize \<Rightarrow> usize) \<Rightarrow> arena" where
  "arena_boot m = \<lparr>ar_base = null, ar_allocated = 0, ar_used = 0, ar_offset = 0, ar_locked_size = 0,
     ar_dealloc_count = 0, ar_defrag_wanted = False, ar_free_head = null, ar_mem = m\<rparr>"

text \<open>\<open>AtomicUsize::fetch_add\<close> and \<open>fetch_sub\<close> wrap.\<close>

definition wrapping_add :: "usize \<Rightarrow> usize \<Rightarrow> usize" where
  "wrapping_add a b = (a + b) mod 2 ^ 64"

definition wrapping_sub :: "usize \<Rightarrow> usize \<Rightarrow> usize" where
  "wrapping_sub a b = (if b \<le> a then a - b else a + 2 ^ 64 - b)"

section \<open>Sizes and headers\<close>

definition align_up :: "usize \<Rightarrow> usize \<Rightarrow> usize" where
  "align_up v a = unat ((word_of_nat v + word_of_nat a - 1 :: u64) AND NOT (word_of_nat a - 1))"

definition required_slot_size :: "layout \<Rightarrow> usize option" where
  "required_slot_size l =
     (case checked_add header_bytes (l_align l - 1) of
        None \<Rightarrow> None
      | Some h \<Rightarrow>
          (case checked_add h (l_size l) of
             None \<Rightarrow> None
           | Some worst \<Rightarrow> Some (align_up (max worst min_slot_size) slot_align)))"

definition place_header :: "usize \<Rightarrow> usize \<Rightarrow> layout \<Rightarrow> arena \<Rightarrow> arena \<times> usize" where
  "place_header slot slot_size l st =
     (let min_user = slot + header_bytes;
          user = align_up min_user (l_align l);
          header = user - header_bytes
      in (st\<lparr>ar_mem := (ar_mem st)(header := user - slot, header + 8 := slot_size)\<rparr>, user))"

section \<open>Reserving\<close>

text \<open>One turn of the loop of \<open>reserve_used\<close>: the value its exchange tries to store.\<close>

definition reserve_try :: "usize \<Rightarrow> usize \<Rightarrow> usize \<Rightarrow> usize \<Rightarrow> usize option" where
  "reserve_try capacity needed current locked =
     (case checked_sub capacity locked of
        None \<Rightarrow> None
      | Some ceiling \<Rightarrow>
          (case checked_add current needed of
             Some v \<Rightarrow> (if v \<le> ceiling then Some v else None)
           | None \<Rightarrow> None))"

text \<open>
  The loop under interference: each pair is a failed exchange, the value it observed and the
  locked size the next turn reads; then the exchange succeeds.
\<close>

fun reserve_loop :: "usize \<Rightarrow> usize \<Rightarrow> usize \<Rightarrow> usize \<Rightarrow> (usize \<times> usize) list \<Rightarrow> usize option" where
  "reserve_loop capacity needed current locked [] = reserve_try capacity needed current locked"
| "reserve_loop capacity needed current locked ((observed, locked') # failures) =
     (case reserve_try capacity needed current locked of
        None \<Rightarrow> None
      | Some _ \<Rightarrow> reserve_loop capacity needed observed locked' failures)"

definition reserve_used :: "usize \<Rightarrow> arena \<Rightarrow> arena \<times> bool" where
  "reserve_used needed st =
     (case reserve_loop (ar_allocated st) needed (ar_used st) (ar_locked_size st) [] of
        Some new_used \<Rightarrow> (st\<lparr>ar_used := new_used\<rparr>, True)
      | None \<Rightarrow> (st, False))"

section \<open>The free list\<close>

text \<open>
  \<open>prev: *mut *mut FreeNode\<close> points to the head of a list or to the \<open>next\<close> field of a node.
\<close>

datatype link = Head | NextOf usize

fun read_link :: "usize \<Rightarrow> (usize \<Rightarrow> usize) \<Rightarrow> link \<Rightarrow> usize" where
  "read_link head m Head = head"
| "read_link head m (NextOf a) = m (a + 8)"

fun write_link :: "link \<Rightarrow> usize \<Rightarrow> usize \<times> (usize \<Rightarrow> usize) \<Rightarrow> usize \<times> (usize \<Rightarrow> usize)" where
  "write_link Head v (head, m) = (v, m)"
| "write_link (NextOf a) v (head, m) = (head, m(a + 8 := v))"

text \<open>
  The first node that is big enough. The walk ends when the list does; \<open>None\<close> is a walk that
  never ends.
\<close>

partial_function (option) find_fit ::
    "usize \<Rightarrow> (usize \<Rightarrow> usize) \<Rightarrow> usize \<Rightarrow> link \<Rightarrow> (link \<times> usize) option option" where
  "find_fit head m needed prev =
     (if read_link head m prev = null then Some None
      else if m (read_link head m prev) \<ge> needed then Some (Some (prev, read_link head m prev))
      else find_fit head m needed (NextOf (read_link head m prev)))"

definition take_node :: "usize \<Rightarrow> layout \<Rightarrow> link \<Rightarrow> usize \<Rightarrow> arena \<Rightarrow> arena \<times> usize" where
  "take_node needed l prev node st =
     (let node_size = ar_mem st node;
          (head, m) = write_link prev (ar_mem st (node + 8)) (ar_free_head st, ar_mem st);
          leftover = node_size - needed
      in if leftover \<ge> min_slot_size then
           (let remainder = node + needed;
                m = m(remainder := leftover, remainder + 8 := read_link head m prev);
                (head, m) = write_link prev remainder (head, m)
            in place_header node needed l (st\<lparr>ar_free_head := head, ar_mem := m\<rparr>))
         else
           (let excess = node_size - needed;
                st = st\<lparr>ar_free_head := head, ar_mem := m\<rparr>;
                st = (if excess > 0 then st\<lparr>ar_used := wrapping_add (ar_used st) excess\<rparr> else st)
            in place_header node node_size l st))"

definition alloc_from_free_list :: "usize \<Rightarrow> layout \<Rightarrow> arena \<Rightarrow> (arena \<times> usize option) option" where
  "alloc_from_free_list needed l st =
     (case find_fit (ar_free_head st) (ar_mem st) needed Head of
        None \<Rightarrow> None
      | Some None \<Rightarrow> Some (st, None)
      | Some (Some (prev, node)) \<Rightarrow>
          (let (st, user) = take_node needed l prev node st in Some (st, Some user)))"

section \<open>The bump offset\<close>

text \<open>One turn: the slot start and the offset after it.\<close>

definition bump_try :: "usize \<Rightarrow> usize \<Rightarrow> usize \<Rightarrow> (usize \<times> usize) option" where
  "bump_try capacity needed current =
     (let slot_start = align_up current slot_align
      in case checked_add slot_start needed of
           None \<Rightarrow> None
         | Some after \<Rightarrow> (if after > capacity then None else Some (slot_start, after)))"

fun bump_loop :: "usize \<Rightarrow> usize \<Rightarrow> usize \<Rightarrow> usize list \<Rightarrow> (usize \<times> usize) option" where
  "bump_loop capacity needed current [] = bump_try capacity needed current"
| "bump_loop capacity needed current (observed # failures) =
     (case bump_try capacity needed current of
        None \<Rightarrow> None
      | Some _ \<Rightarrow> bump_loop capacity needed observed failures)"

definition alloc_from_bump :: "usize \<Rightarrow> layout \<Rightarrow> arena \<Rightarrow> arena \<times> usize option" where
  "alloc_from_bump needed l st =
     (case bump_loop (ar_allocated st) needed (ar_offset st) [] of
        None \<Rightarrow> (st, None)
      | Some (slot_start, after) \<Rightarrow>
          (let (st, user) = place_header (ar_base st + slot_start) needed l (st\<lparr>ar_offset := after\<rparr>)
           in (st, Some user)))"

section \<open>The allocator interface\<close>

datatype alloc_result = FromSystem | NullPtr | Ptr usize

definition alloc :: "layout \<Rightarrow> arena \<Rightarrow> (arena \<times> alloc_result) option" where
  "alloc l st =
     (if ar_base st = null then Some (st, FromSystem)
      else case required_slot_size l of
        None \<Rightarrow> Some (st, NullPtr)
      | Some needed \<Rightarrow>
          (case reserve_used needed st of
             (st, False) \<Rightarrow> Some (st, NullPtr)
           | (st, True) \<Rightarrow>
               (case alloc_from_free_list needed l st of
                  None \<Rightarrow> None
                | Some (st, Some p) \<Rightarrow> Some (st, Ptr p)
                | Some (st, None) \<Rightarrow>
                    (case alloc_from_bump needed l st of
                       (st, Some p) \<Rightarrow> Some (st, Ptr p)
                     | (st, None) \<Rightarrow>
                         Some (st\<lparr>ar_used := wrapping_sub (ar_used st) needed\<rparr>, NullPtr)))))"

datatype dealloc_result = ToSystem | Ignored | Freed

text \<open>
  A pointer inside the arena is trusted to have a header in front of it; a header whose slot
  leaves the arena is ignored. Every 32nd call asks for defragmentation.
\<close>

definition dealloc :: "usize \<Rightarrow> arena \<Rightarrow> arena \<times> dealloc_result" where
  "dealloc ptr st =
     (if ar_base st = null then (st, ToSystem)
      else
        (let base = ar_base st; capacity = ar_allocated st
         in if ptr < base \<or> ptr \<ge> base + capacity then (st, ToSystem)
            else
              (let slot_offset = ar_mem st (ptr - header_bytes);
                   slot_size = ar_mem st (ptr - header_bytes + 8);
                   slot_start = ptr - slot_offset
               in if slot_start < base \<or> slot_start + slot_size > base + capacity then (st, Ignored)
                  else
                    (let st = st\<lparr>ar_mem := (ar_mem st)(slot_start := slot_size,
                                 slot_start + 8 := ar_free_head st), ar_free_head := slot_start\<rparr>;
                         st = st\<lparr>ar_used := wrapping_sub (ar_used st) slot_size\<rparr>;
                         wake = ar_dealloc_count st mod 32 = 31;
                         st = st\<lparr>ar_dealloc_count := wrapping_add (ar_dealloc_count st) 1\<rparr>
                     in (if wake then st\<lparr>ar_defrag_wanted := True\<rparr> else st, Freed)))))"

definition get_free_mem_size :: "arena \<Rightarrow> usize" where
  "get_free_mem_size st =
     (if ar_allocated st = 0 then usize_max else wrapping_sub (ar_allocated st) (ar_used st))"

definition set_locked_size :: "usize \<Rightarrow> arena \<Rightarrow> arena \<times> bool" where
  "set_locked_size bytes st =
     (case checked_add (ar_used st) bytes of
        None \<Rightarrow> (st, False)
      | Some result \<Rightarrow>
          (if result > ar_allocated st then (st, False)
           else (st\<lparr>ar_locked_size := bytes\<rparr>, True)))"

section \<open>Start-up\<close>

text \<open>
  The two stores that publish the arena, in their order; the memory mapping is an argument,
  \<open>None\<close> where the system refuses it. On Unix no defragmentation thread is started.
\<close>

definition publish_base :: "usize \<Rightarrow> arena \<Rightarrow> arena" where
  "publish_base ptr st = st\<lparr>ar_base := ptr\<rparr>"

definition publish_size :: "usize \<Rightarrow> arena \<Rightarrow> arena" where
  "publish_size arena_size st = st\<lparr>ar_allocated := arena_size\<rparr>"

definition init_unix :: "usize \<Rightarrow> usize option \<Rightarrow> arena \<Rightarrow> (unit, arena) result" where
  "init_unix arena_size mapping st =
     (if arena_size < 8 * 1024 * 1024 * 1024 then Panic
      else if ar_base st \<noteq> null then Panic
      else case mapping of
        None \<Rightarrow> Panic
      | Some ptr \<Rightarrow> Ok (publish_size arena_size (publish_base ptr st)))"

definition init_windows :: "usize \<Rightarrow> usize option \<Rightarrow> arena \<Rightarrow> (unit, arena) result" where
  "init_windows arena_size mapping st =
     (if arena_size \<le> 1 * 1024 * 1024 * 1024 then Panic
      else if ar_base st \<noteq> null then Panic
      else case mapping of
        None \<Rightarrow> Panic
      | Some ptr \<Rightarrow> Ok (publish_size arena_size (publish_base ptr st)))"

section \<open>Defragmentation\<close>

text \<open>Where \<open>current\<close> belongs in the list sorted so far.\<close>

partial_function (option) find_place :: "usize \<Rightarrow> (usize \<Rightarrow> usize) \<Rightarrow> usize \<Rightarrow> link \<Rightarrow> link option" where
  "find_place chain m current prev =
     (if read_link chain m prev \<noteq> null \<and> read_link chain m prev < current
      then find_place chain m current (NextOf (read_link chain m prev)) else Some prev)"

partial_function (option) sort_loop ::
    "usize \<Rightarrow> (usize \<Rightarrow> usize) \<Rightarrow> usize \<Rightarrow> (usize \<times> (usize \<Rightarrow> usize)) option" where
  "sort_loop chain m current =
     (if current = null then Some (chain, m)
      else Option.bind (find_place chain m current Head) (\<lambda>prev.
        let next_node = m (current + 8);
            m1 = m(current + 8 := read_link chain m prev);
            (chain2, m2) = write_link prev current (chain, m1)
        in sort_loop chain2 m2 next_node))"

partial_function (option) merge_loop ::
    "(usize \<Rightarrow> usize) \<Rightarrow> usize \<Rightarrow> (usize \<Rightarrow> usize) option" where
  "merge_loop m node =
     (if node = null \<or> m (node + 8) = null then Some m
      else
        (let next_node = m (node + 8)
         in if node + m node = next_node then
              (let m1 = m(node := m node + m next_node);
                   m2 = m1(node + 8 := m1 (next_node + 8))
               in merge_loop m2 node)
            else merge_loop m next_node))"

definition defragment :: "arena \<Rightarrow> arena option" where
  "defragment st =
     (case sort_loop null (ar_mem st) (ar_free_head st) of
        None \<Rightarrow> None
      | Some (chain, m) \<Rightarrow>
          (case merge_loop m chain of
             None \<Rightarrow> None
           | Some m \<Rightarrow> Some (st\<lparr>ar_free_head := chain, ar_mem := m\<rparr>)))"

text \<open>One turn of the background thread: it sleeps until it is wanted.\<close>

definition defrag_thread_turn :: "arena \<Rightarrow> arena option" where
  "defrag_thread_turn st =
     (if ar_defrag_wanted st then defragment (st\<lparr>ar_defrag_wanted := False\<rparr>) else Some st)"

end
