(* ===== verification/Allocator_Heap.thy ===== *)
theory Allocator_Heap
  imports Allocator_Model
begin

text \<open>
  The heap the allocator maintains: its free list read out of memory, the slots it has handed
  out, and the invariant that both tile the used part of the arena. Every operation of the
  allocator keeps it.
\<close>

section \<open>Alignment\<close>

lemma clear_low_bits:
  fixes w :: "'a::len word"
  assumes "k < LENGTH('a)"
  shows "unat (w AND NOT (mask k)) = unat w - unat w mod 2 ^ k"
proof -
  have "(w AND NOT (mask k)) AND (w AND mask k) = 0"
    by (rule bit_eqI) (simp add: bit_simps)
  moreover have "(w AND NOT (mask k)) OR (w AND mask k) = w"
    by (rule bit_eqI) (auto simp: bit_simps)
  ultimately have "(w AND NOT (mask k)) + take_bit k w = w"
    using word_plus_and_or[of "w AND NOT (mask k)" "w AND mask k"] by (simp add: take_bit_eq_mask)
  then have "w AND NOT (mask k) = w - take_bit k w"
    by (simp add: eq_diff_eq)
  moreover have tb: "unat (take_bit k w) = unat w mod 2 ^ k"
    unfolding unsigned_take_bit_eq by (rule take_bit_eq_mod)
  moreover have "take_bit k w \<le> w"
    unfolding word_le_nat_alt tb by simp
  ultimately show ?thesis
    by (simp add: unat_sub)
qed

lemma align_up_eq:
  assumes "k < 64" "v + 2 ^ k \<le> 2 ^ 64"
  shows "align_up v (2 ^ k) = (v + 2 ^ k - 1) - (v + 2 ^ k - 1) mod 2 ^ k"
proof -
  have "(word_of_nat (2 ^ k) - 1 :: u64) = mask k"
    by (simp add: mask_eq_exp_minus_1)
  moreover have "(word_of_nat v + word_of_nat (2 ^ k) - 1 :: u64) = word_of_nat (v + 2 ^ k - 1)"
    by (subst of_nat_diff) (simp_all add: Suc_leI)
  moreover have "unat (word_of_nat (v + 2 ^ k - 1) :: u64) = v + 2 ^ k - 1"
    using assms by (simp add: unat_of_nat)
  moreover have "unat (word_of_nat (v + 2 ^ k - 1) AND NOT (mask k) :: u64)
      = unat (word_of_nat (v + 2 ^ k - 1) :: u64) - unat (word_of_nat (v + 2 ^ k - 1) :: u64) mod 2 ^ k"
    by (rule clear_low_bits) (use assms(1) in simp)
  ultimately show ?thesis
    unfolding align_up_def by presburger
qed

lemma round_up_bounds:
  fixes v a :: nat
  assumes "0 < a"
  defines "r \<equiv> (v + a - 1) - (v + a - 1) mod a"
  shows "r mod a = 0" "v \<le> r" "r \<le> v + a - 1" "v mod a = 0 \<Longrightarrow> r = v"
proof -
  have r: "r = (v + a - 1) div a * a"
    by (simp add: r_def minus_mod_eq_div_mult)
  then show "r mod a = 0" by simp
  have "(v + a - 1) mod a < a"
    using assms(1) by simp
  then show le: "v \<le> r"
    unfolding r_def using assms(1) by linarith
  show up: "r \<le> v + a - 1"
    unfolding r_def by simp
  show "r = v" if "v mod a = 0"
  proof -
    define n where "n = v div a"
    define m where "m = (v + a - 1) div a"
    have n: "v = n * a" and m: "r = m * a"
      using that r div_mult_mod_eq[of v a] by (simp_all add: n_def m_def)
    have "m * a < (n + 1) * a"
      using up n m assms(1) by simp
    then have "m < n + 1"
      by (simp only: mult_less_cancel2)
    then have "m \<le> n" by simp
    with le n m mult_le_mono1[of m n a] show ?thesis by linarith
  qed
qed

lemma align_up_mod:
  assumes room: "k < 64" "v + 2 ^ k \<le> 2 ^ 64"
  shows "align_up v (2 ^ k) mod 2 ^ k = 0"
  using round_up_bounds(1)[of "2 ^ k" v] unfolding align_up_eq[OF room] by simp

lemma align_up_ge:
  assumes room: "k < 64" "v + 2 ^ k \<le> 2 ^ 64"
  shows "v \<le> align_up v (2 ^ k)"
  using round_up_bounds(2)[of "2 ^ k" v] unfolding align_up_eq[OF room] by simp

lemma align_up_lt:
  assumes room: "k < 64" "v + 2 ^ k \<le> 2 ^ 64"
  shows "align_up v (2 ^ k) < v + 2 ^ k"
  using round_up_bounds(3)[of "2 ^ k" v] unfolding align_up_eq[OF room]
  by (metis Suc_pred' add_gr_0 le_imp_less_Suc zero_less_numeral zero_less_power)

lemma align_up_same:
  assumes room: "k < 64" "v + 2 ^ k \<le> 2 ^ 64"
  shows "v mod 2 ^ k = 0 \<Longrightarrow> align_up v (2 ^ k) = v"
  using round_up_bounds(4)[of "2 ^ k" v] unfolding align_up_eq[OF room] by simp

text \<open>
  \<open>align_up\<close>, the bit trick on machine words, is rounding up: for a power of two and a
  value that leaves room for it, the result is the least multiple that is not below the value.
\<close>

theorem align_up_rounds_up:
  assumes "k < 64" "v + 2 ^ k \<le> 2 ^ 64"
  shows "align_up v (2 ^ k) mod 2 ^ k = 0 \<and> v \<le> align_up v (2 ^ k)
     \<and> align_up v (2 ^ k) < v + 2 ^ k \<and> (v mod 2 ^ k = 0 \<longrightarrow> align_up v (2 ^ k) = v)"
  using align_up_mod[OF assms] align_up_ge[OF assms] align_up_lt[OF assms] align_up_same[OF assms] by blast

theorem align_up_rounds_up_witness: "align_up 13 8 mod 8 = 0 \<and> 13 \<le> align_up 13 8 \<and> align_up 13 8 < 21"
  using align_up_rounds_up[of 3 13] by simp

section \<open>Layouts and slots\<close>

text \<open>
  What \<open>std::alloc::Layout\<close> guarantees and \<open>GlobalAlloc::alloc\<close> asks for: the alignment is a
  power of two, the padded size fits \<open>isize\<close>, the size is not zero.
\<close>

definition layout_ok :: "layout \<Rightarrow> bool" where
  "layout_ok l \<longleftrightarrow> (\<exists>k<63. l_align l = 2 ^ k) \<and> 0 < l_size l \<and> l_size l + l_align l \<le> 2 ^ 63"

lemma required_slot_size_ok:
  assumes "layout_ok l"
  obtains needed where "required_slot_size l = Some needed" "needed mod 8 = 0" "16 \<le> needed"
    "15 + l_align l + l_size l \<le> needed" "needed < 24 + l_align l + l_size l"
proof -
  define worst where "worst = 15 + l_align l + l_size l"
  have pos: "1 \<le> l_align l" "l_align l + l_size l \<le> 2 ^ 63"
    using assms by (auto simp: layout_ok_def)
  moreover from pos have "max worst 16 = worst \<or> worst = 15 + 1 + 0"
    by (auto simp: worst_def max_def)
  then have "max worst 16 = worst" by auto
  ultimately have "required_slot_size l = Some (align_up worst (2 ^ 3))"
    by (simp add: required_slot_size_def arena_consts worst_def checked_add_def)
  moreover have room: "(3::nat) < 64" "worst + 2 ^ 3 \<le> 2 ^ 64"
    using pos by (simp_all add: worst_def)
  ultimately show ?thesis
    using that[of "align_up worst (2 ^ 3)"] align_up_mod[OF room] align_up_ge[OF room] align_up_lt[OF room] pos
    by (simp add: worst_def)
qed

lemma header_position:
  assumes "layout_ok l" "slot mod 8 = 0" "slot + needed \<le> 2 ^ 63" "15 + l_align l + l_size l \<le> needed"
  defines "user \<equiv> align_up (slot + 16) (l_align l)"
  shows "user mod l_align l = 0" "user mod 8 = 0" "slot + 16 \<le> user" "user + l_size l \<le> slot + needed"
proof -
  obtain k where k: "k < 64" "l_align l = 2 ^ k"
    using assms(1) by (auto simp: layout_ok_def)
  have room: "k < 64" "slot + 16 + 2 ^ k \<le> 2 ^ 64"
    using k assms(3,4) by simp_all
  note props = align_up_mod[OF room] align_up_ge[OF room] align_up_lt[OF room] align_up_same[OF room]
  show "user mod l_align l = 0" "slot + 16 \<le> user"
    using props k by (simp_all add: user_def)
  show "user + l_size l \<le> slot + needed"
    using props(3) k assms(4) by (simp add: user_def)
  show "user mod 8 = 0"
  proof (cases "k < 3")
    case True
    then have "(2::nat) ^ k dvd 2 ^ 3"
      by (intro le_imp_power_dvd) simp
    moreover have "(2::nat) ^ 3 dvd slot + 16"
      using assms(2) by (simp add: mod_eq_0_iff_dvd)
    ultimately have "(slot + 16) mod 2 ^ k = 0"
      by (meson dvd_trans mod_eq_0_iff_dvd)
    with props(4) k have "user = slot + 16" by (simp add: user_def)
    with assms(2) show ?thesis by presburger
  next
    case False
    then have "(2::nat) ^ 3 dvd 2 ^ k"
      by (intro le_imp_power_dvd) simp
    moreover have "2 ^ k dvd user"
      using props(1) k by (simp add: user_def mod_eq_0_iff_dvd)
    ultimately have "2 ^ 3 dvd user"
      by (rule dvd_trans)
    then show ?thesis by (simp add: mod_eq_0_iff_dvd)
  qed
qed

section \<open>Blocks\<close>

type_synonym block = "usize \<times> usize"

definition inb :: "block \<Rightarrow> usize \<Rightarrow> bool" where
  "inb b x \<longleftrightarrow> fst b \<le> x \<and> x < fst b + snd b"

definition sep :: "block \<Rightarrow> block \<Rightarrow> bool" where
  "sep b c \<longleftrightarrow> fst b + snd b \<le> fst c \<or> fst c + snd c \<le> fst b"

fun disj :: "block list \<Rightarrow> bool" where
  "disj [] = True"
| "disj (b # bs) = ((\<forall>c \<in> set bs. sep b c) \<and> disj bs)"

lemma sep_sym: "sep b c \<longleftrightarrow> sep c b"
  by (auto simp: sep_def)

lemma sep_inb: "sep b c \<Longrightarrow> inb b x \<Longrightarrow> \<not> inb c x"
  by (auto simp: sep_def inb_def)

lemma disj_append [simp]:
  "disj (bs @ cs) \<longleftrightarrow> disj bs \<and> disj cs \<and> (\<forall>b \<in> set bs. \<forall>c \<in> set cs. sep b c)"
  by (induction bs) auto

lemma sep_part: "sep (a, s) c \<Longrightarrow> n \<le> s \<Longrightarrow> sep (a, n) c \<and> sep (a + n, s - n) c"
  by (auto simp: sep_def)

section \<open>Chains of free nodes\<close>

text \<open>A segment of the list in memory, from the node at \<open>p\<close> up to the pointer \<open>q\<close>.\<close>

fun seg :: "(usize \<Rightarrow> usize) \<Rightarrow> usize \<Rightarrow> block list \<Rightarrow> usize \<Rightarrow> bool" where
  "seg m p [] q \<longleftrightarrow> p = q"
| "seg m p ((a, s) # bs) q \<longleftrightarrow> p = a \<and> a \<noteq> null \<and> m a = s \<and> seg m (m (a + 8)) bs q"

lemma seg_append: "seg m p (bs @ cs) q \<longleftrightarrow> (\<exists>r. seg m p bs r \<and> seg m r cs q)"
  by (induction m p bs q rule: seg.induct) auto

lemma seg_cong:
  "seg m p bs q \<Longrightarrow> (\<And>b. b \<in> set bs \<Longrightarrow> m' (fst b) = m (fst b) \<and> m' (fst b + 8) = m (fst b + 8))
   \<Longrightarrow> seg m' p bs q"
proof (induction m p bs q rule: seg.induct)
  case (2 m p a s bs q)
  have "m' a = m a \<and> m' (a + 8) = m (a + 8)"
    using 2(3)[of "(a, s)"] by simp
  moreover have "seg m' (m (a + 8)) bs q"
    using 2 by simp
  ultimately show ?case using 2(2) by simp
qed simp

definition link_of :: "block list \<Rightarrow> link" where
  "link_of pre = (if pre = [] then Head else NextOf (fst (last pre)))"

lemma read_link_of: "seg m h pre q \<Longrightarrow> read_link h m (link_of pre) = q"
  by (cases pre rule: rev_cases) (auto simp: link_of_def seg_append)

text \<open>Cells of a block that can hold a node.\<close>

lemma node_cells: "16 \<le> snd b \<Longrightarrow> inb b (fst b) \<and> inb b (fst b + 8)"
  by (simp add: inb_def)

lemma relink:
  assumes "seg m h pre p" "disj pre" "\<forall>b \<in> set pre. 16 \<le> snd b" "(h', m') = write_link (link_of pre) q (h, m)"
  shows "seg m' h' pre q" "\<And>x. \<forall>b \<in> set pre. \<not> inb b x \<Longrightarrow> m' x = m x"
proof -
  have "seg m' h' pre q \<and> (\<forall>x. (\<forall>b \<in> set pre. \<not> inb b x) \<longrightarrow> m' x = m x)"
  proof (cases pre rule: rev_cases)
    case Nil
    then show ?thesis using assms(4) by (simp add: link_of_def)
  next
    case (snoc pre0 b)
    obtain c s where b: "b = (c, s)" by (cases b)
    have m': "h' = h" "m' = m(c + 8 := q)"
      using assms(4) snoc b by (simp_all add: link_of_def)
    from assms(1) snoc b have s: "seg m h pre0 c" "c \<noteq> null" "m c = s"
      by (auto simp: seg_append)
    have apart: "\<not> inb d (c + 8)" if "d \<in> set pre0" for d
      using that assms(2,3) snoc b sep_inb[of "(c, s)" d "c + 8"] sep_sym[of d "(c, s)"] by (simp add: inb_def)
    have "seg m' h pre0 c"
      by (rule seg_cong[OF s(1)]) (use apart node_cells assms(3) snoc m' in \<open>fastforce\<close>)
    moreover have "m' c = s" "m' (c + 8) = q"
      using m' s by simp_all
    moreover have "m' x = m x" if "\<forall>b \<in> set pre. \<not> inb b x" for x
      using that snoc b assms(3) m' by (auto simp: inb_def)
    ultimately show ?thesis
      using snoc b s m' by (auto simp: seg_append)
  qed
  then show "seg m' h' pre q" "\<And>x. \<forall>b \<in> set pre. \<not> inb b x \<Longrightarrow> m' x = m x"
    by blast+
qed

lemma find_fit_none:
  "seg m h (pre @ bs) null \<Longrightarrow> \<forall>b \<in> set bs. snd b < needed \<Longrightarrow> find_fit h m needed (link_of pre) = Some None"
proof (induction bs arbitrary: pre)
  case Nil
  then show ?case
    using read_link_of[of m h pre null] by (simp add: find_fit.simps)
next
  case (Cons b bs)
  obtain a s where b: "b = (a, s)" by (cases b)
  from Cons.prems(1) have "read_link h m (link_of pre) = a" "a \<noteq> null" "m a = s"
    using read_link_of[of m h pre] by (auto simp: seg_append b)
  moreover have "link_of (pre @ [b]) = NextOf a"
    by (simp add: link_of_def b)
  ultimately show ?case
    using Cons.IH[of "pre @ [b]"] Cons.prems b by (simp add: find_fit.simps)
qed

lemma find_fit_some:
  "seg m h (pre @ bs @ (a, s) # post) null \<Longrightarrow> \<forall>b \<in> set bs. snd b < needed \<Longrightarrow> needed \<le> s \<Longrightarrow>
     find_fit h m needed (link_of pre) = Some (Some (link_of (pre @ bs), a))"
proof (induction bs arbitrary: pre)
  case Nil
  then have "read_link h m (link_of pre) = a" "a \<noteq> null" "m a = s"
    using read_link_of[of m h pre] by (auto simp: seg_append)
  with Nil show ?case by (simp add: find_fit.simps)
next
  case (Cons b bs)
  obtain a' s' where b: "b = (a', s')" by (cases b)
  from Cons.prems(1) have "read_link h m (link_of pre) = a'" "a' \<noteq> null" "m a' = s'"
    using read_link_of[of m h pre] by (auto simp: seg_append b)
  moreover have "link_of (pre @ [b]) = NextOf a'"
    by (simp add: link_of_def b)
  ultimately show ?case
    using Cons.IH[of "pre @ [b]"] Cons.prems b by (simp add: find_fit.simps)
qed

section \<open>The heap invariant\<close>

text \<open>A live slot: its start, its size and the user pointer that was handed out.\<close>

type_synonym live = "usize \<times> usize \<times> usize"

fun live_block :: "live \<Rightarrow> block" where
  "live_block (s, n, u) = (s, n)"

fun live_ok :: "(usize \<Rightarrow> usize) \<Rightarrow> live \<Rightarrow> bool" where
  "live_ok m (s, n, u) \<longleftrightarrow> m (u - 16) = u - s \<and> m (u - 8) = n \<and> s + 16 \<le> u \<and> u < s + n \<and> u mod 8 = 0"

definition block_ok :: "usize \<Rightarrow> usize \<Rightarrow> block \<Rightarrow> bool" where
  "block_ok base off b \<longleftrightarrow> fst b mod 8 = 0 \<and> snd b mod 8 = 0 \<and> 16 \<le> snd b
     \<and> base \<le> fst b \<and> fst b + snd b \<le> base + off"

definition block_sum :: "block list \<Rightarrow> usize" where
  "block_sum bs = sum_list (map snd bs)"

lemma block_sum_simps [simp]:
  "block_sum [] = 0" "block_sum (b # bs) = snd b + block_sum bs" "block_sum (bs @ cs) = block_sum bs + block_sum cs"
  by (simp_all add: block_sum_def)

text \<open>The arena itself, apart from what is in it.\<close>

definition arena_ok :: "arena \<Rightarrow> bool" where
  "arena_ok st \<longleftrightarrow> ar_base st \<noteq> null \<and> ar_base st mod 8 = 0 \<and> ar_base st + ar_allocated st \<le> 2 ^ 63
     \<and> ar_offset st \<le> ar_allocated st \<and> ar_offset st mod 8 = 0"

text \<open>
  The blocks \<open>free\<close> of the list and the slots \<open>live\<close> are pairwise disjoint and add up to the
  used part of the arena; \<open>used\<close> counts the live slots, plus \<open>reserved\<close> bytes of a call in
  progress.
\<close>

definition heap_inv :: "usize \<Rightarrow> arena \<Rightarrow> block list \<Rightarrow> live list \<Rightarrow> bool" where
  "heap_inv reserved st free live \<longleftrightarrow> arena_ok st
     \<and> seg (ar_mem st) (ar_free_head st) free null
     \<and> (\<forall>l \<in> set live. live_ok (ar_mem st) l)
     \<and> (\<forall>b \<in> set free \<union> live_block ` set live. block_ok (ar_base st) (ar_offset st) b)
     \<and> disj (free @ map live_block live)
     \<and> block_sum free + block_sum (map live_block live) = ar_offset st
     \<and> ar_used st = block_sum (map live_block live) + reserved"

abbreviation heap_ok :: "arena \<Rightarrow> block list \<Rightarrow> live list \<Rightarrow> bool" where
  "heap_ok \<equiv> heap_inv 0"

text \<open>The bytes of live slots are untouched.\<close>

definition live_same :: "live list \<Rightarrow> (usize \<Rightarrow> usize) \<Rightarrow> (usize \<Rightarrow> usize) \<Rightarrow> bool" where
  "live_same live m m' \<longleftrightarrow> (\<forall>l \<in> set live. \<forall>x. inb (live_block l) x \<longrightarrow> m' x = m x)"

lemma live_cells: "live_ok m (s, n, u) \<Longrightarrow> 16 \<le> n \<Longrightarrow> inb (s, n) (u - 16) \<and> inb (s, n) (u - 8)"
  by (auto simp: inb_def)

lemma live_ok_cong:
  assumes "live_same live m m'" "l \<in> set live" "live_ok m l" "16 \<le> snd (live_block l)"
  shows "live_ok m' l"
proof -
  obtain s n u where l: "l = (s, n, u)" by (cases l)
  with assms live_cells[of m s n u] have "inb (live_block l) (u - 16)" "inb (live_block l) (u - 8)"
    by auto
  with assms(1,2) have "m' (u - 16) = m (u - 16)" "m' (u - 8) = m (u - 8)"
    by (simp_all add: live_same_def)
  with assms(3) show ?thesis by (simp add: l)
qed

lemma place_header_eq:
  assumes "16 \<le> align_up (slot + 16) (l_align l)"
  shows "place_header slot n l st = (let u = align_up (slot + 16) (l_align l)
     in (st\<lparr>ar_mem := (ar_mem st)(u - 16 := u - slot, u - 8 := n)\<rparr>, u))"
proof -
  have "u - 16 + 8 = u - 8" if "16 \<le> u" for u :: nat
    using that by simp
  with assms show ?thesis
    by (simp add: place_header_def Let_def arena_consts)
qed

lemma header_same:
  assumes "slot + 16 \<le> u" "u \<le> slot + n" "\<not> inb (slot, n) x"
  shows "(m(u - 16 := v, u - 8 := w)) x = m x"
  using assms by (auto simp: inb_def)

text \<open>
  A block that has been carved out becomes a live slot when its header is placed; what stays
  of the heap is untouched.
\<close>

lemma place_header_live:
  assumes chain: "seg (ar_mem st) (ar_free_head st) free null" "\<forall>b \<in> set free. 16 \<le> snd b"
    and layout: "layout_ok l"
    and slot: "disj ((slot, n) # free @ map live_block live)" "slot mod 8 = 0" "slot + n \<le> 2 ^ 63"
      "15 + l_align l + l_size l \<le> n"
  obtains st' u where "place_header slot n l st = (st', u)"
    "u mod l_align l = 0" "slot + 16 \<le> u" "u + l_size l \<le> slot + n" "live_ok (ar_mem st') (slot, n, u)"
    "live_same live (ar_mem st) (ar_mem st')" "seg (ar_mem st') (ar_free_head st) free null"
    "st' = st\<lparr>ar_mem := ar_mem st'\<rparr>"
proof -
  define u where "u = align_up (slot + 16) (l_align l)"
  note pos = header_position[OF layout slot(2,3,4), folded u_def]
  define m' where "m' = (ar_mem st)(u - 16 := u - slot, u - 8 := n)"
  have same: "m' x = ar_mem st x" if "\<not> inb (slot, n) x" for x
    unfolding m'_def by (rule header_same) (use pos that in simp_all)
  have "place_header slot n l st = (st\<lparr>ar_mem := m'\<rparr>, u)"
    using place_header_eq[of slot l n st] pos by (simp add: u_def[symmetric] m'_def Let_def)
  moreover have "live_ok m' (slot, n, u)"
    using pos layout by (simp add: m'_def layout_ok_def)
  moreover have "live_same live (ar_mem st) m'"
    unfolding live_same_def
  proof (intro ballI allI impI)
    fix k x assume "k \<in> set live" "inb (live_block k) x"
    then show "m' x = ar_mem st x"
      using slot(1) sep_inb[of "live_block k" "(slot, n)" x] sep_sym same by auto
  qed
  moreover have "seg m' (ar_free_head st) free null"
  proof (rule seg_cong)
    show "seg (ar_mem st) (ar_free_head st) free null"
      by (rule chain(1))
    fix b assume b: "b \<in> set free"
    with chain(2) have "16 \<le> snd b" by simp
    then show "m' (fst b) = ar_mem st (fst b) \<and> m' (fst b + 8) = ar_mem st (fst b + 8)"
      using slot(1) b node_cells[of b] sep_inb[of b "(slot, n)"] sep_sym same by auto
  qed
  ultimately show ?thesis
    using pos that[of "st\<lparr>ar_mem := m'\<rparr>" u] by simp
qed

lemma live_same_trans: "live_same live m m' \<Longrightarrow> live_same live m' m'' \<Longrightarrow> live_same live m m''"
  by (simp add: live_same_def)

lemma live_same_outside:
  assumes "\<And>x. \<forall>b \<in> set bs. \<not> inb b x \<Longrightarrow> m' x = m x" "disj (bs @ map live_block live)"
  shows "live_same live m m'"
  unfolding live_same_def
proof (intro ballI allI impI)
  fix l x assume l: "l \<in> set live" "inb (live_block l) x"
  then have "\<not> inb b x" if "b \<in> set bs" for b
    using assms(2) that sep_inb[of "live_block l" b x] sep_sym[of b "live_block l"] by auto
  then show "m' x = m x"
    using assms(1) by blast
qed

lemma seg_outside:
  assumes "seg m p cs q" "\<And>x. \<forall>b \<in> set bs. \<not> inb b x \<Longrightarrow> m' x = m x" "disj (bs @ cs)"
    "\<forall>c \<in> set cs. 16 \<le> snd c"
  shows "seg m' p cs q"
proof (rule seg_cong[OF assms(1)])
  fix c assume c: "c \<in> set cs"
  have "m' x = m x" if "inb c x" for x
    using assms(2,3) c that sep_inb[of c _ x] sep_sym by auto
  with node_cells[of c] assms(4) c show "m' (fst c) = m (fst c) \<and> m' (fst c + 8) = m (fst c + 8)"
    by simp
qed

text \<open>Taking a node out of the list, whole or split, before its header is placed.\<close>

lemma unlink_node:
  assumes chain: "seg m h (pre @ (a, s) # post) null" "disj (pre @ (a, s) # post)"
      "\<forall>b \<in> set (pre @ (a, s) # post). 16 \<le> snd b"
    and w: "(h1, m1) = write_link (link_of pre) (m (a + 8)) (h, m)"
  shows "seg m1 h1 (pre @ post) null" "seg m1 h1 pre (m (a + 8))" "seg m1 (m (a + 8)) post null"
    "\<And>x. \<forall>b \<in> set pre. \<not> inb b x \<Longrightarrow> m1 x = m x"
proof -
  from chain(1) have s: "seg m h pre a" "m a = s" "seg m (m (a + 8)) post null"
    by (auto simp: seg_append)
  have d: "disj pre" "\<forall>b \<in> set pre. 16 \<le> snd b"
    using chain by simp_all
  note r = relink[OF s(1) d w]
  show pre: "seg m1 h1 pre (m (a + 8))" by (rule r(1))
  show post: "seg m1 (m (a + 8)) post null"
    by (rule seg_outside[OF s(3) r(2)]) (use chain in auto)
  show "seg m1 h1 (pre @ post) null"
    using pre post by (auto simp: seg_append)
  show "\<And>x. \<forall>b \<in> set pre. \<not> inb b x \<Longrightarrow> m1 x = m x" by (rule r(2))
qed

lemma insert_node:
  assumes chain: "seg m1 h1 pre nx" "seg m1 nx post null" "disj (pre @ (r, n) # post)"
      "\<forall>b \<in> set (pre @ (r, n) # post). 16 \<le> snd b" "r \<noteq> null"
    and w: "m2 = m1(r := n, r + 8 := nx)" "(h3, m3) = write_link (link_of pre) r (h1, m2)"
  shows "seg m3 h3 (pre @ (r, n) # post) null"
    "\<And>x. \<forall>b \<in> set (pre @ [(r, n)]). \<not> inb b x \<Longrightarrow> m3 x = m1 x"
proof -
  have out2: "m2 x = m1 x" if "\<not> inb (r, n) x" for x
    using that w(1) chain(4) by (auto simp: inb_def)
  have d: "disj pre" "\<forall>b \<in> set pre. 16 \<le> snd b"
    using chain by simp_all
  have pre2: "seg m2 h1 pre nx"
    by (rule seg_outside[OF chain(1), of "[(r, n)]"]) (use out2 chain(3,4) sep_sym in auto)
  note rl = relink[OF pre2 d w(2)]
  have apart: "\<forall>b \<in> set pre. \<not> inb b r \<and> \<not> inb b (r + 8)"
    using chain(3,4) node_cells[of "(r, n)"] sep_inb sep_sym by fastforce
  have post: "seg m3 nx post null"
  proof (rule seg_outside[OF chain(2), of "pre @ [(r, n)]"])
    show "m3 x = m1 x" if "\<forall>b \<in> set (pre @ [(r, n)]). \<not> inb b x" for x
      using rl(2) out2 that by simp
  qed (use chain(3,4) in auto)
  have "m3 r = n" "m3 (r + 8) = nx"
    using rl(2)[of r] rl(2)[of "r + 8"] apart w(1) by simp_all
  with rl(1) post chain(5) show "seg m3 h3 (pre @ (r, n) # post) null"
    by (auto simp: seg_append)
  show "m3 x = m1 x" if "\<forall>b \<in> set (pre @ [(r, n)]). \<not> inb b x" for x
    using rl(2) out2 that by simp
qed

end
