(* ===== verification/Allocator_Ops.thy ===== *)
theory Allocator_Ops
  imports Allocator_Heap
begin

text \<open>
  The operations of the allocator keep the heap: allocation from the free list and from the
  bump offset, and deallocation.
\<close>

section \<open>The free list\<close>

lemma heap_invD:
  assumes "heap_inv r st free live"
  shows "arena_ok st" "seg (ar_mem st) (ar_free_head st) free null"
    "\<forall>l \<in> set live. live_ok (ar_mem st) l" "disj (free @ map live_block live)"
    "\<forall>b \<in> set free. block_ok (ar_base st) (ar_offset st) b"
    "\<forall>l \<in> set live. block_ok (ar_base st) (ar_offset st) (live_block l)"
    "block_sum free + block_sum (map live_block live) = ar_offset st"
    "ar_used st = block_sum (map live_block live) + r"
  using assms by (auto simp: heap_inv_def)

lemma live_all_ok_cong:
  assumes "heap_inv r st free live" "live_same live (ar_mem st) m'"
  shows "\<forall>l \<in> set live. live_ok m' l"
  using assms heap_invD(3,6)[OF assms(1)] live_ok_cong[of live "ar_mem st" m'] by (auto simp: block_ok_def)

text \<open>The outcome of a successful allocation, from a heap with \<open>live\<close> in use.\<close>

definition served :: "layout \<Rightarrow> live list \<Rightarrow> arena \<Rightarrow> arena \<Rightarrow> usize \<Rightarrow> bool" where
  "served l live st st' u \<longleftrightarrow> (\<exists>slot n free'. heap_ok st' free' ((slot, n, u) # live)
     \<and> u mod l_align l = 0 \<and> slot + 16 \<le> u \<and> u + l_size l \<le> slot + n
     \<and> live_same live (ar_mem st) (ar_mem st'))"

lemma served_from: "served l live st2 st' u \<Longrightarrow> live_same live (ar_mem st) (ar_mem st2) \<Longrightarrow> served l live st st' u"
  unfolding served_def using live_same_trans[of live "ar_mem st" "ar_mem st2" "ar_mem st'"] by metis

text \<open>
  A state whose books already count a carved-out block as used: placing its header completes
  the allocation.
\<close>

lemma place_carved:
  assumes A: "arena_ok st" and l: "layout_ok l" "15 + l_align l + l_size l \<le> n"
    and chain: "seg (ar_mem st) (ar_free_head st) free null"
    and dj: "disj ((slot, n) # free @ map live_block live)"
    and blocks: "\<forall>b \<in> set ((slot, n) # free @ map live_block live). block_ok (ar_base st) (ar_offset st) b"
    and live: "\<forall>k \<in> set live. live_ok (ar_mem st) k"
    and sums: "block_sum free + n + block_sum (map live_block live) = ar_offset st"
      "ar_used st = n + block_sum (map live_block live)"
  shows "\<exists>st' u. place_header slot n l st = (st', u) \<and> served l live st st' u"
proof -
  have slot: "block_ok (ar_base st) (ar_offset st) (slot, n)"
    using blocks by simp
  have big: "\<forall>b \<in> set free. 16 \<le> snd b"
    using blocks by (auto simp: block_ok_def)
  obtain st' u where p: "place_header slot n l st = (st', u)"
      "u mod l_align l = 0" "slot + 16 \<le> u" "u + l_size l \<le> slot + n" "live_ok (ar_mem st') (slot, n, u)"
      "live_same live (ar_mem st) (ar_mem st')" "seg (ar_mem st') (ar_free_head st) free null"
      "st' = st\<lparr>ar_mem := ar_mem st'\<rparr>"
    by (rule place_header_live[OF chain big l(1) dj _ _ l(2)])
      (use slot A in \<open>auto simp: block_ok_def arena_ok_def\<close>)
  have fields: "ar_base st' = ar_base st" "ar_offset st' = ar_offset st" "ar_allocated st' = ar_allocated st"
      "ar_used st' = ar_used st" "ar_free_head st' = ar_free_head st"
    by (subst p(8), simp)+
  have "live_ok (ar_mem st') k" if "k \<in> set live" for k
    using live_ok_cong[OF p(6) that] live blocks that by (auto simp: block_ok_def)
  then have "heap_ok st' free ((slot, n, u) # live)"
    using A chain dj blocks sums p(5,7) sep_sym
    by (auto simp: heap_inv_def arena_ok_def fields)
  with p(2,3,4,6) have "served l live st st' u"
    unfolding served_def by metis
  with p(1) show ?thesis by simp
qed

lemma block_ok_split:
  assumes "block_ok base off (a, s)" "n mod 8 = 0" "16 \<le> n" "n + 16 \<le> s"
  shows "block_ok base off (a, n) \<and> block_ok base off (a + n, s - n)"
proof -
  have "(a + n) mod 8 = 0" "(s - n) mod 8 = 0"
    using assms unfolding block_ok_def fst_conv snd_conv by presburger+
  with assms show ?thesis by (auto simp: block_ok_def)
qed

lemma disj_split:
  assumes "disj (pre @ (a, s) # post)" "n \<le> s"
  shows "disj ((a, n) # pre @ (a + n, s - n) # post)" "disj ((a, s) # pre @ post)"
proof -
  have "sep (a, n) c \<and> sep (a + n, s - n) c \<and> sep c (a, n) \<and> sep c (a + n, s - n)"
    if "sep (a, s) c \<or> sep c (a, s)" for c
    using that sep_part[of a s c n] assms(2) sep_sym by blast
  moreover have "sep (a, n) (a + n, s - n)"
    by (simp add: sep_def)
  ultimately show "disj ((a, n) # pre @ (a + n, s - n) # post)"
    using assms(1) by (auto simp: ball_Un)
  show "disj ((a, s) # pre @ post)"
    using assms(1) sep_sym by (auto simp: ball_Un)
qed

lemma take_node_split:
  assumes inv: "heap_inv needed st (pre @ (a, s) # post) live" and l: "layout_ok l"
    and need: "needed mod 8 = 0" "16 \<le> needed" "15 + l_align l + l_size l \<le> needed" "needed + 16 \<le> s"
  shows "\<exists>st' u. take_node needed l (link_of pre) a st = (st', u) \<and> served l live st st' u"
proof -
  note D = heap_invD[OF inv]
  define m r where "m = ar_mem st" and "r = a + needed"
  obtain h1 m1 where w1: "write_link (link_of pre) (m (a + 8)) (ar_free_head st, m) = (h1, m1)"
    by (cases "write_link (link_of pre) (m (a + 8)) (ar_free_head st, m)")
  define m2 where "m2 = m1(r := s - needed, r + 8 := m (a + 8))"
  obtain h3 m3 where w3: "write_link (link_of pre) r (h1, m2) = (h3, m3)"
    by (cases "write_link (link_of pre) r (h1, m2)")
  let ?free = "pre @ (r, s - needed) # post"
  define st2 where "st2 = st\<lparr>ar_free_head := h3, ar_mem := m3\<rparr>"
  have chain: "seg m (ar_free_head st) (pre @ (a, s) # post) null" "disj (pre @ (a, s) # post)"
      "\<forall>b \<in> set (pre @ (a, s) # post). 16 \<le> snd b"
    using D(2,4,5) by (auto simp: m_def block_ok_def)
  note U = unlink_node[OF chain w1[symmetric]]
  have ms: "m a = s" "a \<noteq> null"
    using chain(1) by (auto simp: seg_append)
  have dj: "disj ((a, needed) # ?free @ map live_block live)"
    using disj_split(1)[of pre a s "post @ map live_block live" needed] D(4) need(4) by (simp add: r_def)
  have blocks: "\<forall>b \<in> set ((a, needed) # ?free @ map live_block live). block_ok (ar_base st) (ar_offset st) b"
    using block_ok_split[of "ar_base st" "ar_offset st" a s needed] D(5,6) need by (auto simp: r_def)
  have "disj ?free" "\<forall>b \<in> set ?free. 16 \<le> snd b" "r \<noteq> null"
    using dj blocks ms need(4) chain(3) by (simp_all add: r_def null_def)
  note I = insert_node[OF U(2) U(3) this m2_def w3[symmetric]]
  have same: "live_same live (ar_mem st) m3"
    by (rule live_same_outside[of "pre @ [(r, s - needed)]"])
      (use I(2) U(4) dj in \<open>auto simp: m_def ball_Un\<close>)
  have "\<exists>st' u. place_header a needed l st2 = (st', u) \<and> served l live st2 st' u"
  proof (rule place_carved[OF _ l need(3)])
    show "seg (ar_mem st2) (ar_free_head st2) ?free null" "arena_ok st2"
      using I(1) D(1) by (simp_all add: st2_def arena_ok_def)
    show "\<forall>k \<in> set live. live_ok (ar_mem st2) k"
      using live_all_ok_cong[OF inv same] by (simp add: st2_def)
  qed (use dj blocks D(7,8) need(4) in \<open>simp_all add: st2_def\<close>)
  moreover have "take_node needed l (link_of pre) a st = place_header a needed l st2"
  proof -
    have "16 \<le> s - needed"
      using need(4) by simp
    then show ?thesis
      using w1 w3 read_link_of[OF U(2)] ms
      by (simp add: take_node_def Let_def arena_consts m_def r_def m2_def st2_def)
  qed
  ultimately show ?thesis
    using served_from[of l live st2 _ _ st] same by (auto simp: st2_def)
qed

lemma take_node_whole:
  assumes inv: "heap_inv needed st (pre @ (a, s) # post) live" and l: "layout_ok l"
    and need: "15 + l_align l + l_size l \<le> needed" "needed \<le> s" "s < needed + 16"
  shows "\<exists>st' u. take_node needed l (link_of pre) a st = (st', u) \<and> served l live st st' u"
proof -
  note D = heap_invD[OF inv]
  define m where "m = ar_mem st"
  obtain h1 m1 where w1: "write_link (link_of pre) (m (a + 8)) (ar_free_head st, m) = (h1, m1)"
    by (cases "write_link (link_of pre) (m (a + 8)) (ar_free_head st, m)")
  define used' where "used' = (if s - needed > 0 then wrapping_add (ar_used st) (s - needed) else ar_used st)"
  define st2 where "st2 = st\<lparr>ar_free_head := h1, ar_mem := m1, ar_used := used'\<rparr>"
  have used': "used' = ar_used st + (s - needed)"
    using D(1,7,8) need(2) by (auto simp: used'_def wrapping_add_def arena_ok_def)
  have chain: "seg m (ar_free_head st) (pre @ (a, s) # post) null" "disj (pre @ (a, s) # post)"
      "\<forall>b \<in> set (pre @ (a, s) # post). 16 \<le> snd b"
    using D(2,4,5) by (auto simp: m_def block_ok_def)
  note U = unlink_node[OF chain w1[symmetric]]
  have ms: "m a = s"
    using chain(1) by (auto simp: seg_append)
  have dj: "disj ((a, s) # (pre @ post) @ map live_block live)"
    using disj_split(2)[of pre a s "post @ map live_block live" s] D(4) by simp
  have same: "live_same live (ar_mem st) m1"
    by (rule live_same_outside[of pre]) (use U(4) dj in \<open>auto simp: m_def ball_Un\<close>)
  have "\<exists>st' u. place_header a s l st2 = (st', u) \<and> served l live st2 st' u"
  proof (rule place_carved[OF _ l])
    show "seg (ar_mem st2) (ar_free_head st2) (pre @ post) null" "arena_ok st2"
      using U(1) D(1) by (simp_all add: st2_def arena_ok_def)
    show "\<forall>k \<in> set live. live_ok (ar_mem st2) k"
      using live_all_ok_cong[OF inv same] by (simp add: st2_def)
  qed (use dj D(5,6,7,8) need used' in \<open>auto simp: st2_def\<close>)
  moreover have "take_node needed l (link_of pre) a st = place_header a s l st2"
  proof -
    have "\<not> 16 \<le> s - needed"
      using need(3) by simp
    then show ?thesis
      using w1 ms by (simp add: take_node_def Let_def arena_consts m_def st2_def used'_def)
  qed
  ultimately show ?thesis
    using served_from[of l live st2 _ _ st] same by (auto simp: st2_def)
qed

lemma alloc_from_free_list_ok:
  assumes inv: "heap_inv needed st free live" and l: "layout_ok l"
    and need: "needed mod 8 = 0" "16 \<le> needed" "15 + l_align l + l_size l \<le> needed"
  shows "if \<exists>b \<in> set free. needed \<le> snd b
     then \<exists>st' u. alloc_from_free_list needed l st = Some (st', Some u) \<and> served l live st st' u
     else alloc_from_free_list needed l st = Some (st, None)"
proof (cases "\<exists>b \<in> set free. needed \<le> snd b")
  case True
  then obtain pre b post where free: "free = pre @ b # post" "needed \<le> snd b" "\<forall>c \<in> set pre. \<not> needed \<le> snd c"
    by (rule split_list_first_propE)
  obtain a s where b: "b = (a, s)" by (cases b)
  note inv' = inv[unfolded free(1) b]
  have "find_fit (ar_free_head st) (ar_mem st) needed Head = Some (Some (link_of pre, a))"
    using find_fit_some[of "ar_mem st" "ar_free_head st" "[]" pre a s post needed] heap_invD(2)[OF inv'] free b
    by (simp add: link_of_def not_le)
  moreover have "\<exists>st' u. take_node needed l (link_of pre) a st = (st', u) \<and> served l live st st' u"
  proof (cases "needed + 16 \<le> s")
    case True
    then show ?thesis by (rule take_node_split[OF inv' l need])
  next
    case False
    then show ?thesis
      by (intro take_node_whole[OF inv' l need(3)]) (use free(2) b in simp_all)
  qed
  ultimately show ?thesis
    using True by (auto simp: alloc_from_free_list_def)
next
  case False
  then show ?thesis
    using find_fit_none[of "ar_mem st" "ar_free_head st" "[]" free needed] heap_invD(2)[OF inv]
    by (simp add: link_of_def alloc_from_free_list_def not_le)
qed

section \<open>The bump offset\<close>

lemma alloc_from_bump_ok:
  assumes inv: "heap_inv needed st free live" and l: "layout_ok l"
    and need: "needed mod 8 = 0" "16 \<le> needed" "15 + l_align l + l_size l \<le> needed"
  shows "if ar_offset st + needed \<le> ar_allocated st
     then \<exists>st' u. alloc_from_bump needed l st = (st', Some u) \<and> served l live st st' u
     else alloc_from_bump needed l st = (st, None)"
proof -
  note D = heap_invD[OF inv]
  have A: "ar_offset st mod 8 = 0" "ar_offset st \<le> 2 ^ 63" "ar_allocated st \<le> 2 ^ 63" "ar_base st mod 8 = 0"
    using D(1) by (auto simp: arena_ok_def)
  have "align_up (ar_offset st) slot_align = ar_offset st"
    using align_up_same[of 3 "ar_offset st"] A by (simp add: slot_align_def)
  then have turn: "bump_try (ar_allocated st) needed (ar_offset st)
      = (if ar_offset st + needed \<le> ar_allocated st then Some (ar_offset st, ar_offset st + needed) else None)"
    using A(3) by (auto simp: bump_try_def checked_add_def Let_def)
  show ?thesis
  proof (cases "ar_offset st + needed \<le> ar_allocated st")
    case True
    define st1 where "st1 = st\<lparr>ar_offset := ar_offset st + needed\<rparr>"
    let ?slot = "ar_base st + ar_offset st"
    have grow: "block_ok (ar_base st) (ar_offset st + needed) b" if "block_ok (ar_base st) (ar_offset st) b" for b
      using that by (auto simp: block_ok_def)
    have slot: "block_ok (ar_base st) (ar_offset st + needed) (?slot, needed)"
      using A need unfolding block_ok_def fst_conv snd_conv by presburger
    have after: "sep (?slot, needed) b" if "block_ok (ar_base st) (ar_offset st) b" for b
      using that by (auto simp: block_ok_def sep_def)
    have "\<exists>st' u. place_header ?slot needed l st1 = (st', u) \<and> served l live st1 st' u"
    proof (rule place_carved[OF _ l need(3)])
      show "arena_ok st1"
        using D(1) True need(1) A(1) by (auto simp: arena_ok_def st1_def)
      show "disj ((?slot, needed) # free @ map live_block live)"
        using D(4,5,6) after by auto
      show "\<forall>b \<in> set ((?slot, needed) # free @ map live_block live). block_ok (ar_base st1) (ar_offset st1) b"
        using D(5,6) slot grow by (auto simp: st1_def)
    qed (use D in \<open>simp_all add: st1_def\<close>)
    with True turn show ?thesis
      using served_from[of l live st1 _ _ st]
      by (auto simp: alloc_from_bump_def st1_def live_same_def)
  next
    case False
    with turn show ?thesis by (simp add: alloc_from_bump_def)
  qed
qed

section \<open>Allocation\<close>

lemma reserve_used_eq:
  assumes "ar_allocated st \<le> 2 ^ 63"
  shows "reserve_used needed st =
     (if ar_locked_size st \<le> ar_allocated st \<and> ar_used st + needed \<le> ar_allocated st - ar_locked_size st
      then (st\<lparr>ar_used := ar_used st + needed\<rparr>, True) else (st, False))"
  using assms by (auto simp: reserve_used_def reserve_try_def checked_sub_def checked_add_def split: option.split)

lemma alloc_ok:
  assumes "heap_ok st free live" and "layout_ok l"
  shows "\<exists>needed. required_slot_size l = Some needed \<and>
     (if ar_locked_size st \<le> ar_allocated st
         \<and> ar_used st + needed \<le> ar_allocated st - ar_locked_size st
         \<and> ((\<exists>b \<in> set free. needed \<le> snd b) \<or> ar_offset st + needed \<le> ar_allocated st)
      then \<exists>st' u. alloc l st = Some (st', Ptr u) \<and> served l live st st' u
      else alloc l st = Some (st, NullPtr))"
proof -
  obtain needed where need: "required_slot_size l = Some needed" "needed mod 8 = 0" "16 \<le> needed"
      "15 + l_align l + l_size l \<le> needed" "needed < 24 + l_align l + l_size l"
    by (rule required_slot_size_ok[OF assms(2)])
  note D = heap_invD[OF assms(1)]
  have A: "ar_base st \<noteq> null" "ar_allocated st \<le> 2 ^ 63"
    using D(1) by (auto simp: arena_ok_def)
  note reserve = reserve_used_eq[OF A(2), of needed]
  define st1 where "st1 = st\<lparr>ar_used := ar_used st + needed\<rparr>"
  have inv1: "heap_inv needed st1 free live"
    using assms(1) by (simp add: heap_inv_def st1_def arena_ok_def)
  have undo: "st1\<lparr>ar_used := wrapping_sub (ar_used st1) needed\<rparr> = st"
    by (simp add: st1_def wrapping_sub_def)
  have fields: "ar_offset st1 = ar_offset st" "ar_allocated st1 = ar_allocated st" "ar_mem st1 = ar_mem st"
    by (simp_all add: st1_def)
  have lifts: "served l live st1 st' u \<Longrightarrow> served l live st st' u" for st' u
    by (simp add: served_def fields)
  note F = alloc_from_free_list_ok[OF inv1 assms(2) need(2-4)]
  note B = alloc_from_bump_ok[OF inv1 assms(2) need(2-4), unfolded fields]
  have "if ar_locked_size st \<le> ar_allocated st
         \<and> ar_used st + needed \<le> ar_allocated st - ar_locked_size st
         \<and> ((\<exists>b \<in> set free. needed \<le> snd b) \<or> ar_offset st + needed \<le> ar_allocated st)
      then \<exists>st' u. alloc l st = Some (st', Ptr u) \<and> served l live st st' u
      else alloc l st = Some (st, NullPtr)"
  proof (cases "ar_locked_size st \<le> ar_allocated st \<and> ar_used st + needed \<le> ar_allocated st - ar_locked_size st")
    case True
    then have r: "reserve_used needed st = (st1, True)"
      using reserve by (simp add: st1_def)
    show ?thesis
    proof (cases "\<exists>b \<in> set free. needed \<le> snd b")
      case fits: True
      with F obtain st' u where "alloc_from_free_list needed l st1 = Some (st', Some u)" "served l live st1 st' u"
        by auto
      with True fits lifts r A(1) need(1) show ?thesis by (simp add: alloc_def)
    next
      case none: False
      with F have f: "alloc_from_free_list needed l st1 = Some (st1, None)" by simp
      show ?thesis
      proof (cases "ar_offset st + needed \<le> ar_allocated st")
        case bump: True
        with B obtain st' u where "alloc_from_bump needed l st1 = (st', Some u)" "served l live st1 st' u"
          by auto
        with True bump lifts r A(1) need(1) f show ?thesis by (simp add: alloc_def)
      next
        case False
        with B have "alloc_from_bump needed l st1 = (st1, None)" by simp
        with True False none r A(1) need(1) f undo show ?thesis by (auto simp: alloc_def)
      qed
    qed
  next
    case False
    with reserve have "reserve_used needed st = (st, False)" by auto
    with False A(1) need(1) show ?thesis by (auto simp: alloc_def)
  qed
  with need(1) show ?thesis by blast
qed

section \<open>Deallocation\<close>

lemma heap_inv_live_perm:
  "heap_inv r st free (l1 @ k # l2) \<longleftrightarrow> heap_inv r st free (k # l1 @ l2)"
proof -
  have "disj (free @ map live_block (l1 @ k # l2)) = disj (free @ map live_block (k # l1 @ l2))"
    using sep_sym by (auto simp: ball_Un)
  then show ?thesis
    by (auto simp: heap_inv_def add.left_commute)
qed

lemma dealloc_ok:
  assumes inv: "heap_ok st free ((s, n, u) # live)"
  shows "\<exists>st'. dealloc u st = (st', Freed) \<and> heap_ok st' ((s, n) # free) live
     \<and> live_same live (ar_mem st) (ar_mem st')
     \<and> ar_defrag_wanted st' = (ar_defrag_wanted st \<or> ar_dealloc_count st mod 32 = 31)"
proof -
  note D = heap_invD[OF inv]
  define m' where "m' = (ar_mem st)(s := n, s + 8 := ar_free_head st)"
  have L: "ar_mem st (u - 16) = u - s" "ar_mem st (u - 8) = n" "s + 16 \<le> u" "u < s + n"
    using D(3) by simp_all
  have B: "block_ok (ar_base st) (ar_offset st) (s, n)"
    using D(6) by simp
  have A: "ar_base st \<noteq> null" "ar_offset st \<le> ar_allocated st"
    using D(1) by (auto simp: arena_ok_def)
  have addr: "u - header_bytes = u - 16" "u - (u - s) = s"
    using L(3) by (simp_all add: header_bytes_def)
  have "u - 16 + 8 = u - 8"
    using L(3) by simp
  then have slot_size: "ar_mem st (u - 16 + 8) = n"
    by (simp only: L(2))
  have inside: "ar_base st \<le> s" "s + n \<le> ar_base st + ar_allocated st" "16 \<le> n"
    using B A(2) by (auto simp: block_ok_def)
  define st' where "st' = st\<lparr>ar_mem := m', ar_free_head := s, ar_used := wrapping_sub (ar_used st) n,
      ar_dealloc_count := wrapping_add (ar_dealloc_count st) 1,
      ar_defrag_wanted := ar_defrag_wanted st \<or> ar_dealloc_count st mod 32 = 31\<rparr>"
  have "\<not> (u < ar_base st \<or> u \<ge> ar_base st + ar_allocated st)"
      "\<not> (s < ar_base st \<or> s + n > ar_base st + ar_allocated st)"
    using inside L(3,4) by auto
  then have run: "dealloc u st = (st', Freed)"
    using A(1) L(1) slot_size by (simp add: dealloc_def Let_def addr st'_def m'_def)
  have out: "m' x = ar_mem st x" if "\<forall>b \<in> set [(s, n)]. \<not> inb b x" for x
    using that inside by (auto simp: m'_def inb_def)
  have dj: "disj ((s, n) # free @ map live_block live)"
    using D(4) sep_sym by (auto simp: ball_Un)
  have same: "live_same live (ar_mem st) m'"
    by (rule live_same_outside[of "[(s, n)]", OF out]) (use dj in auto)
  have chain: "seg m' (ar_free_head st) free null"
    by (rule seg_outside[OF D(2), of "[(s, n)]", OF out]) (use dj D(5) in \<open>auto simp: block_ok_def\<close>)
  have live: "\<forall>k \<in> set live. live_ok m' k"
    using live_ok_cong[OF same] D(3,6) by (auto simp: block_ok_def)
  have "s \<noteq> null"
    using inside A(1) by (simp add: null_def)
  then have "heap_ok st' ((s, n) # free) live"
    using D chain live dj by (auto simp: heap_inv_def st'_def arena_ok_def wrapping_sub_def m'_def)
  with run same show ?thesis
    by (auto simp: st'_def)
qed

text \<open>A pointer from before \<open>init\<close> lies outside the arena and goes back to the system.\<close>

lemma dealloc_foreign:
  "u < ar_base st \<or> ar_base st + ar_allocated st \<le> u \<Longrightarrow> dealloc u st = (st, ToSystem)"
  by (auto simp: dealloc_def Let_def)

end
