(* ===== verification/Allocator_Defrag.thy ===== *)
theory Allocator_Defrag
  imports Allocator_Ops
begin

text \<open>
  \<open>defragment\<close> sorts the free list by address in place and joins neighbours. The two loops
  end on every well-formed heap, keep it, and leave a list with gaps between its blocks.
\<close>

section \<open>Sorting\<close>

definition insert_block :: "block \<Rightarrow> block list \<Rightarrow> block list" where
  "insert_block b bs = takeWhile (\<lambda>c. fst c < fst b) bs @ b # dropWhile (\<lambda>c. fst c < fst b) bs"

definition sort_blocks :: "block list \<Rightarrow> block list \<Rightarrow> block list" where
  "sort_blocks bs acc = fold insert_block bs acc"

lemma set_insert_block [simp]: "set (insert_block b bs) = insert b (set bs)"
proof -
  have "set (takeWhile P bs) \<union> set (dropWhile P bs) = set bs" for P
    by (metis set_append takeWhile_dropWhile_id)
  then show ?thesis
    by (auto simp: insert_block_def)
qed

lemma block_sum_insert [simp]: "block_sum (insert_block b bs) = snd b + block_sum bs"
proof -
  have "block_sum (takeWhile P bs) + block_sum (dropWhile P bs) = block_sum bs" for P
    by (metis block_sum_simps(3) takeWhile_dropWhile_id)
  then show ?thesis
    by (simp add: insert_block_def)
qed

lemma disj_middle: "disj (xs @ b # ys) \<longleftrightarrow> disj (b # xs @ ys)"
  using sep_sym by (auto simp: ball_Un)

lemma disj_insert [simp]: "disj (insert_block b bs) \<longleftrightarrow> disj (b # bs)"
  by (simp only: insert_block_def disj_middle takeWhile_dropWhile_id)

lemma sorted_insert_block:
  "sorted (map fst bs) \<Longrightarrow> sorted (map fst (insert_block b bs))"
proof (induction bs)
  case (Cons c bs)
  then show ?case
    by (cases "fst c < fst b") (auto simp: insert_block_def dest: set_takeWhileD set_dropWhileD)
qed (simp add: insert_block_def)

lemma find_place_ok:
  "seg m h (pre @ lo @ hi) null \<Longrightarrow> \<forall>b \<in> set lo. fst b < cur \<Longrightarrow> (hi = [] \<or> cur \<le> fst (hd hi)) \<Longrightarrow>
     find_place h m cur (link_of pre) = Some (link_of (pre @ lo))"
proof (induction lo arbitrary: pre)
  case Nil
  show ?case
  proof (cases hi)
    case Nil
    with Nil.prems have "read_link h m (link_of pre) = null"
      using read_link_of[of m h pre null] by simp
    then show ?thesis by (simp add: find_place.simps)
  next
    case (Cons b bs)
    obtain a s where "b = (a, s)" by (cases b)
    with Cons Nil.prems have "read_link h m (link_of pre) = a" "cur \<le> a"
      using read_link_of[of m h pre] by (auto simp: seg_append)
    then show ?thesis by (simp add: find_place.simps)
  qed
next
  case (Cons b lo)
  obtain a s where b: "b = (a, s)" by (cases b)
  from Cons.prems(1) have "read_link h m (link_of pre) = a" "a \<noteq> null"
    using read_link_of[of m h pre] by (auto simp: seg_append b)
  moreover have "link_of (pre @ [b]) = NextOf a"
    by (simp add: link_of_def b)
  ultimately show ?case
    using Cons.IH[of "pre @ [b]"] Cons.prems b by (simp add: find_place.simps)
qed

text \<open>One turn of the sorting loop.\<close>

lemma sort_turn:
  assumes chain: "seg m h acc null" and cur: "m a = s" "a \<noteq> null"
    and dj: "disj ((a, s) # acc)" "16 \<le> s" "\<forall>b \<in> set acc. 16 \<le> snd b"
  shows "\<exists>prev h' m'. find_place h m a Head = Some prev
     \<and> write_link prev a (h, m(a + 8 := read_link h m prev)) = (h', m')
     \<and> seg m' h' (insert_block (a, s) acc) null
     \<and> (\<forall>x. (\<forall>b \<in> set ((a, s) # acc). \<not> inb b x) \<longrightarrow> m' x = m x)"
proof -
  define lo hi where "lo = takeWhile (\<lambda>c. fst c < a) acc" and "hi = dropWhile (\<lambda>c. fst c < a) acc"
  have acc: "acc = lo @ hi"
    by (simp add: lo_def hi_def)
  have lo: "\<forall>b \<in> set lo. fst b < a"
    by (auto simp: lo_def dest: set_takeWhileD)
  have hi: "hi = [] \<or> a \<le> fst (hd hi)"
    using hd_dropWhile[of "\<lambda>c. fst c < a" acc] unfolding hi_def by (meson not_le)
  have place: "find_place h m a Head = Some (link_of lo)"
    using find_place_ok[of m h "[]" lo hi a] chain lo hi by (simp add: link_of_def acc)
  obtain nx where nx: "seg m h lo nx" "seg m nx hi null"
    using chain by (auto simp: acc seg_append)
  have ins: "insert_block (a, s) acc = lo @ (a, s) # hi"
    by (simp add: insert_block_def lo_def hi_def)
  have "disj (lo @ (a, s) # hi)"
    using dj(1) disj_insert[of "(a, s)" acc] by (simp add: ins)
  moreover have "\<forall>b \<in> set (lo @ (a, s) # hi). 16 \<le> snd b"
    using dj(2,3) by (simp add: acc)
  moreover have "m(a + 8 := nx) = m(a := s, a + 8 := nx)"
    using cur(1) by auto
  moreover obtain h' m' where w: "write_link (link_of lo) a (h, m(a + 8 := nx)) = (h', m')"
    by (cases "write_link (link_of lo) a (h, m(a + 8 := nx))")
  ultimately have "seg m' h' (lo @ (a, s) # hi) null"
      "\<And>x. \<forall>b \<in> set (lo @ [(a, s)]). \<not> inb b x \<Longrightarrow> m' x = m x"
    using insert_node[OF nx, of a s _ h' m'] cur(2) by auto
  with place w read_link_of[OF nx(1)] ins[unfolded acc] show ?thesis
    by (auto simp: acc)
qed

lemma sort_loop_ok:
  assumes "seg m h acc null" "seg m cur todo null" "disj (acc @ todo)" "\<forall>b \<in> set acc \<union> set todo. 16 \<le> snd b"
  shows "\<exists>h' m'. sort_loop h m cur = Some (h', m') \<and> seg m' h' (sort_blocks todo acc) null
     \<and> (\<forall>x. (\<forall>b \<in> set acc \<union> set todo. \<not> inb b x) \<longrightarrow> m' x = m x)"
  using assms
proof (induction todo arbitrary: m h acc cur)
  case Nil
  then show ?case
    by (simp add: sort_loop.simps sort_blocks_def)
next
  case (Cons b todo)
  obtain a s where b: "b = (a, s)" by (cases b)
  from Cons.prems(2) have cur: "cur = a" "a \<noteq> null" "m a = s" "seg m (m (a + 8)) todo null"
    by (simp_all add: b)
  have "disj ((a, s) # acc)" "16 \<le> s" "\<forall>b \<in> set acc. 16 \<le> snd b"
    using Cons.prems(3,4) sep_sym by (auto simp: b)
  from sort_turn[OF Cons.prems(1) cur(3,2) this] obtain prev h' m' where t: "find_place h m a Head = Some prev"
      "write_link prev a (h, m(a + 8 := read_link h m prev)) = (h', m')"
      "seg m' h' (insert_block (a, s) acc) null"
      "\<And>x. \<forall>b \<in> set ((a, s) # acc). \<not> inb b x \<Longrightarrow> m' x = m x"
    by blast
  have rest: "seg m' (m (a + 8)) todo null"
    by (rule seg_outside[OF cur(4), of "(a, s) # acc", OF t(4)]) (use Cons.prems(3,4) sep_sym in \<open>auto simp: b\<close>)
  have dj: "disj (insert_block (a, s) acc @ todo)"
    using Cons.prems(3) sep_sym by (auto simp: b)
  have big: "\<forall>c \<in> set (insert_block (a, s) acc) \<union> set todo. 16 \<le> snd c"
    using Cons.prems(4) by (simp add: b)
  from Cons.IH[OF t(3) rest dj big] obtain h2 m2 where r: "sort_loop h' m' (m (a + 8)) = Some (h2, m2)"
      "seg m2 h2 (sort_blocks todo (insert_block (a, s) acc)) null"
      "\<And>x. \<forall>b \<in> set (insert_block (a, s) acc) \<union> set todo. \<not> inb b x \<Longrightarrow> m2 x = m' x"
    by blast
  have "sort_loop h m cur = Some (h2, m2)"
    using r(1) t(1,2) cur(1,2) by (simp add: sort_loop.simps[of h m] Let_def)
  moreover have "m2 x = m x" if "\<forall>c \<in> set acc \<union> set (b # todo). \<not> inb c x" for x
    using that r(3)[of x] t(4)[of x] by (simp add: b)
  ultimately show ?case
    using r(2) by (simp add: sort_blocks_def b)
qed

lemma sort_blocks_facts:
  "set (sort_blocks bs acc) = set bs \<union> set acc" "block_sum (sort_blocks bs acc) = block_sum bs + block_sum acc"
  "disj (sort_blocks bs acc) \<longleftrightarrow> disj (bs @ acc)"
  "sorted (map fst acc) \<Longrightarrow> sorted (map fst (sort_blocks bs acc))"
  unfolding sort_blocks_def
  by (induction bs arbitrary: acc) (use sep_sym in \<open>auto simp: sorted_insert_block\<close>)

section \<open>Joining neighbours\<close>

fun coalesce :: "block list \<Rightarrow> block list" where
  "coalesce ((a, s) # (b, t) # bs) =
     (if a + s = b then coalesce ((a, s + t) # bs) else (a, s) # coalesce ((b, t) # bs))"
| "coalesce bs = bs"

text \<open>Ascending with a gap after every block.\<close>

fun gaps :: "block list \<Rightarrow> bool" where
  "gaps ((a, s) # (b, t) # bs) = (a + s < b \<and> gaps ((b, t) # bs))"
| "gaps bs = True"

lemma sep_join: "sep (a, s) c \<Longrightarrow> sep (a + s, t) c \<Longrightarrow> 0 < snd c \<Longrightarrow> sep (a, s + t) c"
  by (auto simp: sep_def)

lemma merge_loop_ok:
  assumes "seg m a ((a, s) # bs) null" "disj ((a, s) # bs)" "\<forall>b \<in> set ((a, s) # bs). 16 \<le> snd b"
  shows "\<exists>m'. merge_loop m a = Some m' \<and> seg m' a (coalesce ((a, s) # bs)) null
     \<and> (\<forall>x. (\<forall>b \<in> set ((a, s) # bs). \<not> inb b x) \<longrightarrow> m' x = m x)"
  using assms
proof (induction "length bs" arbitrary: m a s bs)
  case 0
  then show ?case by (simp add: merge_loop.simps)
next
  case (Suc k)
  from Suc.hyps(2) obtain c rest where "bs = c # rest" "k = length rest"
    by (cases bs) auto
  moreover obtain b t where "c = (b, t)" by (cases c)
  ultimately have bs: "bs = (b, t) # rest" "k = length rest" by simp_all
  from Suc.prems(1) bs have M: "a \<noteq> null" "m a = s" "m (a + 8) = b" "b \<noteq> null" "m b = t" "seg m (m (b + 8)) rest null"
      "seg m b ((b, t) # rest) null"
    by auto
  have D: "sep (a, s) (b, t)" "\<forall>c \<in> set rest. sep (a, s) c \<and> sep (b, t) c" "disj rest" "16 \<le> s" "16 \<le> t"
      "\<forall>c \<in> set rest. 16 \<le> snd c"
    using Suc.prems(2,3) bs by auto
  show ?case
  proof (cases "a + s = b")
    case True
    define m1 where "m1 = m(a := s + t)"
    define m2 where "m2 = m1(a + 8 := m1 (b + 8))"
    have b8: "m1 (b + 8) = m (b + 8)"
      using True by (simp add: m1_def)
    have out: "m2 x = m x" if "\<forall>c \<in> set [(a, s)]. \<not> inb c x" for x
      using that D(4) by (auto simp: m2_def m1_def inb_def)
    have "seg m2 (m (b + 8)) rest null"
      by (rule seg_outside[OF M(6), of "[(a, s)]", OF out]) (use D in auto)
    then have "seg m2 a ((a, s + t) # rest) null"
      using M(1) by (simp add: m2_def b8) (simp add: m1_def)
    moreover have "disj ((a, s + t) # rest)"
      using D(2,3,6) True sep_join by fastforce
    ultimately obtain m' where m': "merge_loop m2 a = Some m'" "seg m' a (coalesce ((a, s + t) # rest)) null"
        "\<And>x. \<forall>c \<in> set ((a, s + t) # rest). \<not> inb c x \<Longrightarrow> m' x = m2 x"
      using Suc.hyps(1)[OF bs(2), of m2 a "s + t"] D(4,6) by auto
    have "merge_loop m a = Some m'"
      using m'(1) M True by (simp add: merge_loop.simps[of m] Let_def m2_def m1_def)
    moreover have "m' x = m x" if "\<forall>c \<in> set ((a, s) # bs). \<not> inb c x" for x
    proof -
      have "\<not> inb (a, s + t) x"
        using that True bs by (auto simp: inb_def)
      with that m'(3)[of x] out[of x] bs show ?thesis by simp
    qed
    ultimately show ?thesis
      using m'(2) True bs by auto
  next
    case False
    have "disj ((b, t) # rest)" "\<forall>c \<in> set ((b, t) # rest). 16 \<le> snd c"
      using D by auto
    from Suc.hyps(1)[OF bs(2) M(7) this] obtain m' where m': "merge_loop m b = Some m'"
        "seg m' b (coalesce ((b, t) # rest)) null"
        "\<And>x. \<forall>c \<in> set ((b, t) # rest). \<not> inb c x \<Longrightarrow> m' x = m x"
      by auto
    have "m' x = m x" if "inb (a, s) x" for x
      using m'(3)[of x] D(1,2) that sep_inb[of "(a, s)" _ x] by auto
    then have "m' a = s" "m' (a + 8) = b"
      using node_cells[of "(a, s)"] D(4) M by simp_all
    moreover have "merge_loop m a = Some m'"
      using m'(1) M False by (simp add: merge_loop.simps[of m a] Let_def)
    ultimately show ?thesis
      using m'(2,3) M(1) False bs by auto
  qed
qed

lemma coalesce_head: "\<exists>t' rest. coalesce ((b, t) # bs) = (b, t') # rest"
  by (induction "(b, t) # bs" arbitrary: b t bs rule: coalesce.induct) auto

lemma coalesce_sum [simp]: "block_sum (coalesce bs) = block_sum bs"
  by (induction bs rule: coalesce.induct) auto

lemma coalesce_inb: "(\<exists>b \<in> set (coalesce bs). inb b x) \<longleftrightarrow> (\<exists>b \<in> set bs. inb b x)"
proof (induction bs rule: coalesce.induct)
  case (1 a s b t bs)
  have "inb (a, s + t) x \<longleftrightarrow> inb (a, s) x \<or> inb (b, t) x" if "a + s = b"
    using that by (auto simp: inb_def)
  with 1 show ?case by auto
qed simp_all

lemma coalesce_sep:
  "\<forall>b \<in> set bs. sep b c \<Longrightarrow> 0 < snd c \<Longrightarrow> \<forall>b \<in> set (coalesce bs). sep b c"
proof (induction bs rule: coalesce.induct)
  case (1 a s b t bs)
  then show ?case
    using sep_join[of a s c t] by auto
qed simp_all

lemma coalesce_ok:
  "\<forall>b \<in> set bs. block_ok base off b \<Longrightarrow> \<forall>b \<in> set (coalesce bs). block_ok base off b"
proof (induction bs rule: coalesce.induct)
  case (1 a s b t bs)
  have "block_ok base off (a, s + t)" if "a + s = b"
    using 1(3) that by (auto simp: block_ok_def mod_add_eq)
  with 1 show ?case by auto
qed simp_all

lemma join_disj:
  "disj ((a, s) # (a + s, t) # bs) \<Longrightarrow> \<forall>b \<in> set bs. 0 < snd b \<Longrightarrow> disj ((a, s + t) # bs)"
  using sep_join by fastforce

lemma coalesce_disj:
  "disj bs \<Longrightarrow> \<forall>b \<in> set bs. 0 < snd b \<Longrightarrow> disj (coalesce bs)"
proof (induction bs rule: coalesce.induct)
  case (1 a s b t bs)
  show ?case
  proof (cases "a + s = b")
    case True
    then have "disj ((a, s + t) # bs)"
      using 1(3,4) by (intro join_disj) simp_all
    with 1(1)[OF True] 1(4) True show ?thesis by simp
  next
    case False
    have "\<forall>c \<in> set ((b, t) # bs). sep c (a, s)"
      using 1(3) sep_sym[of _ "(a, s)"] by simp
    then have "\<forall>c \<in> set (coalesce ((b, t) # bs)). sep c (a, s)"
      by (rule coalesce_sep) (use 1(4) in simp)
    then have "\<forall>c \<in> set (coalesce ((b, t) # bs)). sep (a, s) c"
      using sep_sym[of "(a, s)"] by simp
    moreover have "disj (coalesce ((b, t) # bs))"
      by (rule 1(2)[OF False]) (use 1(3,4) in simp_all)
    ultimately show ?thesis
      using False by simp
  qed
qed simp_all

lemma coalesce_gaps:
  "sorted (map fst bs) \<Longrightarrow> disj bs \<Longrightarrow> \<forall>b \<in> set bs. 0 < snd b \<Longrightarrow> gaps (coalesce bs)"
proof (induction bs rule: coalesce.induct)
  case (1 a s b t bs)
  show ?case
  proof (cases "a + s = b")
    case True
    then have "disj ((a, s + t) # bs)"
      using 1(4,5) by (intro join_disj) simp_all
    with 1(1)[OF True] 1(3,5) True show ?thesis by simp
  next
    case False
    have "a + s < b"
      using 1(3,4,5) False by (auto simp: sep_def)
    moreover obtain t' rest where "coalesce ((b, t) # bs) = (b, t') # rest"
      using coalesce_head by blast
    moreover have "gaps (coalesce ((b, t) # bs))"
      by (rule 1(2)[OF False]) (use 1(3,4,5) in simp_all)
    ultimately show ?thesis
      using False by simp
  qed
qed simp_all

section \<open>Defragmentation\<close>

lemma defragment_chain:
  assumes "seg m h bs null" "disj bs" "\<forall>b \<in> set bs. 16 \<le> snd b"
  shows "\<exists>h' m1 m'. sort_loop null m h = Some (h', m1) \<and> merge_loop m1 h' = Some m'
     \<and> seg m' h' (coalesce (sort_blocks bs [])) null
     \<and> (\<forall>x. (\<forall>b \<in> set bs. \<not> inb b x) \<longrightarrow> m' x = m x)"
proof -
  obtain h' m1 where s: "sort_loop null m h = Some (h', m1)" "seg m1 h' (sort_blocks bs []) null"
      "\<And>x. \<forall>b \<in> set bs. \<not> inb b x \<Longrightarrow> m1 x = m x"
    using sort_loop_ok[of m null "[]" h bs] assms by auto
  note F = sort_blocks_facts[of bs "[]"]
  show ?thesis
  proof (cases "sort_blocks bs []")
    case Nil
    with s show ?thesis
      by (auto simp: merge_loop.simps)
  next
    case (Cons b rest)
    obtain a n where b: "b = (a, n)" by (cases b)
    with s(2) Cons have "h' = a" by simp
    moreover have "disj ((a, n) # rest)" "\<forall>c \<in> set ((a, n) # rest). 16 \<le> snd c"
      using F(1,3) assms(2,3) Cons b by auto
    ultimately obtain m' where m': "merge_loop m1 h' = Some m'" "seg m' h' (coalesce ((a, n) # rest)) null"
        "\<And>x. \<forall>c \<in> set ((a, n) # rest). \<not> inb c x \<Longrightarrow> m' x = m1 x"
      using merge_loop_ok[of m1 a n rest] s(2) Cons b by auto
    have "set ((a, n) # rest) = set bs"
      using F(1) Cons b by simp
    then have "m' x = m x" if "\<forall>c \<in> set bs. \<not> inb c x" for x
      using m'(3)[of x] s(3)[of x] that by simp
    with m'(1,2) s(1) Cons b show ?thesis
      by simp
  qed
qed

lemma defragment_ok:
  assumes "heap_ok st free live"
  shows "\<exists>st' free'. defragment st = Some st' \<and> heap_ok st' free' live \<and> gaps free'
     \<and> (\<forall>x. (\<exists>b \<in> set free'. inb b x) \<longleftrightarrow> (\<exists>b \<in> set free. inb b x))
     \<and> live_same live (ar_mem st) (ar_mem st')
     \<and> st' = st\<lparr>ar_free_head := ar_free_head st', ar_mem := ar_mem st'\<rparr>"
proof -
  note D = heap_invD[OF assms]
  define free' where "free' = coalesce (sort_blocks free [])"
  have big: "\<forall>b \<in> set free. 16 \<le> snd b" and dj: "disj free"
    using D(4,5) by (auto simp: block_ok_def)
  obtain h' m1 m' where R: "sort_loop null (ar_mem st) (ar_free_head st) = Some (h', m1)" "merge_loop m1 h' = Some m'"
      "seg m' h' free' null" and out: "\<And>x. \<forall>b \<in> set free. \<not> inb b x \<Longrightarrow> m' x = ar_mem st x"
    using defragment_chain[OF D(2) dj big] by (auto simp: free'_def)
  note F = sort_blocks_facts(1-3)[of free "[]", simplified]
    and ascending = sort_blocks_facts(4)[of "[]" free, simplified]
  have pos: "\<forall>b \<in> set free. 0 < snd b"
    using big by fastforce
  have g: "gaps free'" and dj': "disj free'"
    unfolding free'_def using coalesce_gaps[of "sort_blocks free []"] coalesce_disj[of "sort_blocks free []"] F ascending dj pos
    by simp_all
  have "sep b (live_block k)" if "b \<in> set free'" "k \<in> set live" for b k
  proof -
    have "0 < snd (live_block k)"
      using D(6) that(2) by (auto simp: block_ok_def)
    moreover have "\<forall>c \<in> set (sort_blocks free []). sep c (live_block k)"
      using D(4) F(1) that(2) by auto
    ultimately show ?thesis
      using coalesce_sep that(1) unfolding free'_def by blast
  qed
  then have all: "disj (free' @ map live_block live)"
    using dj' D(4) by auto
  have same: "live_same live (ar_mem st) m'"
    by (rule live_same_outside[of free, OF out]) (use D(4) in simp_all)
  have blocks: "\<forall>b \<in> set free'. block_ok (ar_base st) (ar_offset st) b"
    unfolding free'_def by (rule coalesce_ok) (use D(5) F(1) in simp)
  have "defragment st = Some (st\<lparr>ar_free_head := h', ar_mem := m'\<rparr>)"
    using R by (simp add: defragment_def)
  moreover have "heap_ok (st\<lparr>ar_free_head := h', ar_mem := m'\<rparr>) free' live"
    using D R(3) all blocks live_all_ok_cong[OF assms same]
    by (auto simp: heap_inv_def arena_ok_def free'_def F(2))
  moreover have "(\<exists>b \<in> set free'. inb b x) \<longleftrightarrow> (\<exists>b \<in> set free. inb b x)" for x
    by (simp add: free'_def coalesce_inb F(1))
  ultimately show ?thesis
    using g same by (intro exI[of _ "st\<lparr>ar_free_head := h', ar_mem := m'\<rparr>"] exI[of _ free']) simp
qed

end
