(* ===== verification/Allocator_Run.thy ===== *)
theory Allocator_Run
  imports Allocator_Defrag
begin

text \<open>
  The properties of the allocator: what its operations do on every well-formed heap, the heap
  after any run from start-up, the reservation loop under interference, and the start-up
  window.
\<close>

section \<open>A small heap\<close>

text \<open>One live slot and two adjacent free blocks, the later one first in the list.\<close>

definition sample_heap :: arena where
  "sample_heap = \<lparr>ar_base = 4096, ar_allocated = 2 ^ 33, ar_used = 32, ar_offset = 96, ar_locked_size = 0,
     ar_dealloc_count = 31, ar_defrag_wanted = False, ar_free_head = 4160,
     ar_mem = (\<lambda>_. 0)(4096 := 16, 4104 := 32, 4128 := 32, 4136 := 0, 4160 := 32, 4168 := 4128)\<rparr>"

lemma sample_heap_ok: "heap_ok sample_heap [(4160, 32), (4128, 32)] [(4096, 32, 4112)]"
  by (simp add: heap_inv_def sample_heap_def arena_ok_def block_ok_def sep_def null_def)

section \<open>Allocation, deallocation, defragmentation\<close>

text \<open>
  C6. Allocation is total and exact on every well-formed heap: the call returns, and it
  succeeds exactly when the request fits under the ceiling that keeps the locked size free and
  there is a free block or unused arena for it. On success the pointer is aligned, its block
  lies inside a slot disjoint from every live slot, the books stay exact and no byte of a live
  block changes; otherwise it returns null and the arena is what it was.
\<close>

theorem alloc_exact:
  assumes "heap_ok st free live" and "layout_ok l"
  shows "\<exists>needed. required_slot_size l = Some needed \<and>
     (if ar_locked_size st \<le> ar_allocated st
         \<and> ar_used st + needed \<le> ar_allocated st - ar_locked_size st
         \<and> ((\<exists>b \<in> set free. needed \<le> snd b) \<or> ar_offset st + needed \<le> ar_allocated st)
      then \<exists>st' u. alloc l st = Some (st', Ptr u) \<and> served l live st st' u
      else alloc l st = Some (st, NullPtr))"
  using assms by (rule alloc_ok)

theorem alloc_exact_witness:
  "\<exists>st' u. alloc \<lparr>l_size = 10, l_align = 4\<rparr> sample_heap = Some (st', Ptr u)
     \<and> served \<lparr>l_size = 10, l_align = 4\<rparr> [(4096, 32, 4112)] sample_heap st' u"
proof -
  have "layout_ok \<lparr>l_size = 10, l_align = 4\<rparr>"
    by (auto simp: layout_ok_def intro!: exI[of _ 2])
  from alloc_exact[OF sample_heap_ok this] show ?thesis
    by (simp add: required_slot_size_def arena_consts checked_add_def align_up_def sample_heap_def)
qed

text \<open>
  C23. Deallocation of any live pointer returns exactly its slot to the free list, whatever
  layout the caller passes: the heap stays well formed, the other live blocks keep their
  bytes, and every 32nd call asks for defragmentation.
\<close>

theorem dealloc_exact:
  assumes "heap_ok st free (l1 @ (s, n, u) # l2)"
  shows "\<exists>st'. dealloc u st = (st', Freed) \<and> heap_ok st' ((s, n) # free) (l1 @ l2)
     \<and> live_same (l1 @ l2) (ar_mem st) (ar_mem st')
     \<and> ar_defrag_wanted st' = (ar_defrag_wanted st \<or> ar_dealloc_count st mod 32 = 31)"
  using dealloc_ok assms heap_inv_live_perm by blast

theorem dealloc_exact_witness:
  "\<exists>st'. dealloc 4112 sample_heap = (st', Freed) \<and> heap_ok st' [(4096, 32), (4160, 32), (4128, 32)] []
     \<and> ar_defrag_wanted st'"
proof -
  have "heap_ok sample_heap [(4160, 32), (4128, 32)] ([] @ (4096, 32, 4112) # [])"
    using sample_heap_ok by simp
  from dealloc_exact[OF this] show ?thesis
    by (auto simp: sample_heap_def)
qed

text \<open>
  C7. Defragmentation ends on every well-formed heap and is exact: the free list becomes
  ascending with a gap after every block (nothing is left to join), it covers the same bytes,
  the heap stays well formed and the live blocks keep their bytes.
\<close>

theorem defragment_exact:
  assumes "heap_ok st free live"
  shows "\<exists>st' free'. defragment st = Some st' \<and> heap_ok st' free' live \<and> gaps free'
     \<and> (\<forall>x. (\<exists>b \<in> set free'. inb b x) \<longleftrightarrow> (\<exists>b \<in> set free. inb b x))
     \<and> live_same live (ar_mem st) (ar_mem st')"
  using defragment_ok[OF assms] by blast

theorem defragment_exact_witness:
  "\<exists>st' free'. defragment sample_heap = Some st' \<and> heap_ok st' free' [(4096, 32, 4112)] \<and> gaps free'"
  using defragment_exact[OF sample_heap_ok] by blast

section \<open>Every run\<close>

text \<open>
  A client allocates with valid layouts and frees pointers it holds, the server moves the
  locked size, the defragmentation thread may take a turn at any point. The state pairs the
  arena with the slots in use, as their headers describe them.
\<close>

datatype heap_op = HAlloc layout | HDealloc usize | HLock usize | HDefrag

fun heap_step :: "heap_op \<Rightarrow> arena \<times> live list \<Rightarrow> arena \<times> live list" where
  "heap_step (HAlloc l) (st, live) =
     (if layout_ok l then
        (case alloc l st of
           Some (st', Ptr u) \<Rightarrow> (st', (u - ar_mem st' (u - 16), ar_mem st' (u - 8), u) # live)
         | Some (st', _) \<Rightarrow> (st', live)
         | None \<Rightarrow> (st, live))
      else (st, live))"
| "heap_step (HDealloc i) (st, live) =
     (if i < length live then (fst (dealloc (snd (snd (live ! i))) st), vec_remove i live) else (st, live))"
| "heap_step (HLock bytes) (st, live) = (fst (set_locked_size bytes st), live)"
| "heap_step HDefrag (st, live) =
     (case defrag_thread_turn st of Some st' \<Rightarrow> (st', live) | None \<Rightarrow> (st, live))"

definition heap_state_ok :: "arena \<times> live list \<Rightarrow> bool" where
  "heap_state_ok s \<longleftrightarrow> (\<exists>free. heap_ok (fst s) free (snd s))"

lemma heap_inv_fields:
  assumes "ar_base st' = ar_base st" "ar_allocated st' = ar_allocated st" "ar_used st' = ar_used st"
    "ar_offset st' = ar_offset st" "ar_free_head st' = ar_free_head st" "ar_mem st' = ar_mem st"
  shows "heap_inv r st' free live \<longleftrightarrow> heap_inv r st free live"
  by (simp add: heap_inv_def arena_ok_def assms)

lemma heap_step_alloc:
  assumes "heap_ok st free live"
  shows "heap_state_ok (heap_step (HAlloc l) (st, live))"
proof (cases "layout_ok l")
  case True
  from alloc_ok[OF assms True] consider (served) st' u where "alloc l st = Some (st', Ptr u)" "served l live st st' u"
    | (refused) "alloc l st = Some (st, NullPtr)"
    by (metis (no_types))
  then show ?thesis
  proof cases
    case served
    then obtain slot n free' where ok: "heap_ok st' free' ((slot, n, u) # live)"
      by (auto simp: served_def)
    then have "ar_mem st' (u - 16) = u - slot" "ar_mem st' (u - 8) = n" "slot + 16 \<le> u"
      using heap_invD(3)[OF ok] by simp_all
    with True served(1) ok show ?thesis
      by (auto simp: heap_state_ok_def)
  next
    case refused
    with True assms show ?thesis
      by (auto simp: heap_state_ok_def)
  qed
next
  case False
  with assms show ?thesis by (auto simp: heap_state_ok_def)
qed

lemma heap_step_dealloc:
  assumes "heap_ok st free live"
  shows "heap_state_ok (heap_step (HDealloc i) (st, live))"
proof (cases "i < length live")
  case True
  obtain slot n u where k: "live ! i = (slot, n, u)" by (cases "live ! i")
  have "heap_ok st free (take i live @ live ! i # drop (Suc i) live)"
    using assms True by (simp add: id_take_nth_drop[symmetric])
  then have "heap_ok st free ((slot, n, u) # vec_remove i live)"
    using heap_inv_live_perm by (simp add: k vec_remove_def)
  from dealloc_ok[OF this] True k show ?thesis
    by (auto simp: heap_state_ok_def)
next
  case False
  with assms show ?thesis by (auto simp: heap_state_ok_def)
qed

interpretation heap: invariant_machine heap_step heap_state_ok
proof
  fix s :: "arena \<times> live list" and op assume s: "heap_state_ok s"
  obtain st live where sl: "s = (st, live)" by (cases s)
  with s obtain free where ok: "heap_ok st free live"
    by (auto simp: heap_state_ok_def)
  show "heap_state_ok (heap_step op s)"
  proof (cases op)
    case (HLock bytes)
    have "heap_ok (fst (set_locked_size bytes st)) free live"
      using ok heap_inv_fields[of "fst (set_locked_size bytes st)" st]
      by (simp add: set_locked_size_def split: option.split)
    with HLock sl show ?thesis by (auto simp: heap_state_ok_def)
  next
    case HDefrag
    have "heap_ok (st\<lparr>ar_defrag_wanted := False\<rparr>) free live"
      using ok heap_inv_fields[of "st\<lparr>ar_defrag_wanted := False\<rparr>" st] by simp
    from defragment_ok[OF this] HDefrag sl ok show ?thesis
      by (auto simp: heap_state_ok_def defrag_thread_turn_def)
  qed (use heap_step_alloc[OF ok] heap_step_dealloc[OF ok] sl in simp_all)
qed

lemma init_heap_ok:
  assumes "init_unix arena_size (Some ptr) (arena_boot m) = Ok st"
    "ptr \<noteq> null" "ptr mod 8 = 0" "ptr + arena_size \<le> 2 ^ 63"
  shows "heap_ok st [] []"
  using assms by (auto simp: init_unix_def arena_boot_def publish_base_def publish_size_def heap_inv_def
      arena_ok_def split: if_splits)

text \<open>
  C5. From start-up on, no run of allocations, frees, changes of the locked size and turns of
  the defragmentation thread ever corrupts the heap: the free list and the slots in use stay
  disjoint, tile exactly the part of the arena handed out so far, and \<open>used\<close> is exactly the
  sum of the slots in use. The mapping is assumed to be page-aligned user-space memory.
\<close>

theorem heap_never_corrupted:
  assumes "init_unix arena_size (Some ptr) (arena_boot m) = Ok st0"
    "ptr \<noteq> null" "ptr mod 8 = 0" "ptr + arena_size \<le> 2 ^ 63"
  shows "case fold heap_step ops (st0, []) of (st, live) \<Rightarrow>
     \<exists>free. heap_ok st free live \<and> ar_used st = block_sum (map live_block live)
       \<and> block_sum free + ar_used st = ar_offset st \<and> ar_offset st \<le> ar_allocated st"
proof -
  have "heap_state_ok (st0, [])"
    using init_heap_ok[OF assms] by (auto simp: heap_state_ok_def)
  from heap.inv_run[OF this, of ops] show ?thesis
    by (auto simp: heap_state_ok_def heap_inv_def arena_ok_def split: prod.split)
qed

theorem heap_never_corrupted_witness:
  "\<exists>st0. init_unix (2 ^ 33) (Some 4096) (arena_boot (\<lambda>_. 0)) = Ok st0
     \<and> (case fold heap_step [HAlloc \<lparr>l_size = 10, l_align = 4\<rparr>, HDealloc 0] (st0, []) of
          (st, live) \<Rightarrow> ar_used st = block_sum (map live_block live))"
proof -
  obtain st0 where i: "init_unix (2 ^ 33) (Some 4096) (arena_boot (\<lambda>_. 0)) = Ok st0"
    by (simp add: init_unix_def arena_boot_def)
  from heap_never_corrupted[OF i, of "[HAlloc \<lparr>l_size = 10, l_align = 4\<rparr>, HDealloc 0]"] i show ?thesis
    by (auto simp: null_def split: prod.splits)
qed

section \<open>Reservation under interference\<close>

lemma reserve_try_eq:
  "capacity \<le> usize_max \<Longrightarrow> reserve_try capacity needed current locked =
     (if locked \<le> capacity \<and> current + needed \<le> capacity - locked then Some (current + needed) else None)"
  by (auto simp: reserve_try_def checked_sub_def checked_add_def)

text \<open>
  C40. Whatever other threads do to the counter and to the locked size between its failed
  exchanges, a reservation succeeds exactly when every value it saw left room under the
  ceiling of that moment, and it then stores the last value it saw plus its need.
\<close>

theorem reserve_under_interference:
  assumes "capacity \<le> usize_max"
  shows "reserve_loop capacity needed current locked failures =
     (if \<forall>(c, k) \<in> set ((current, locked) # failures). k \<le> capacity \<and> c + needed \<le> capacity - k
      then Some (fst (last ((current, locked) # failures)) + needed) else None)"
proof (induction failures arbitrary: current locked)
  case Nil
  then show ?case
    using assms by (simp add: reserve_try_eq)
next
  case (Cons f failures)
  obtain c k where f: "f = (c, k)" by (cases f)
  show ?case
    unfolding f reserve_loop.simps reserve_try_eq[OF assms] Cons.IH by auto
qed

theorem reserve_under_interference_witness:
  "reserve_loop 1000 100 700 100 [(800, 100), (750, 0)] = Some 850
   \<and> reserve_loop 1000 100 700 100 [(850, 100), (750, 0)] = None"
  using reserve_under_interference[of 1000 100 700 100 "[(800, 100), (750, 0)]"]
    reserve_under_interference[of 1000 100 700 100 "[(850, 100), (750, 0)]"] by simp

section \<open>The locked size\<close>

text \<open>
  The locked size is changed exactly when memory in use leaves room for it; otherwise nothing is.
\<close>

theorem set_locked_size_exact:
  assumes "ar_allocated st \<le> usize_max"
  shows "set_locked_size bytes st =
     (if ar_used st + bytes \<le> ar_allocated st then (st\<lparr>ar_locked_size := bytes\<rparr>, True) else (st, False))"
  using assms by (auto simp: set_locked_size_def checked_add_def)

theorem set_locked_size_exact_witness: "set_locked_size (2 ^ 33) sample_heap = (sample_heap, False)"
  by (subst set_locked_size_exact) (simp_all add: sample_heap_def)

section \<open>Start-up\<close>

text \<open>
  Between the two stores of \<open>init\<close> the arena has a base but no size: every allocation made
  in that window is refused, although the reported free memory is unlimited.
\<close>

theorem init_window_refuses:
  assumes "layout_ok l" "ptr \<noteq> null"
  shows "alloc l (publish_base ptr (arena_boot m)) = Some (publish_base ptr (arena_boot m), NullPtr)
     \<and> get_free_mem_size (publish_base ptr (arena_boot m)) = usize_max"
proof -
  obtain needed where n: "required_slot_size l = Some needed" "needed mod 8 = 0" "16 \<le> needed"
      "15 + l_align l + l_size l \<le> needed" "needed < 24 + l_align l + l_size l"
    by (rule required_slot_size_ok[OF assms(1)])
  have "reserve_used needed (publish_base ptr (arena_boot m)) = (publish_base ptr (arena_boot m), False)"
    using n(3) by (simp add: reserve_used_eq publish_base_def arena_boot_def)
  then show ?thesis
    using n(1) assms(2) by (simp add: alloc_def publish_base_def arena_boot_def get_free_mem_size_def)
qed

theorem init_window_refuses_witness:
  "alloc \<lparr>l_size = 1, l_align = 1\<rparr> (publish_base 4096 (arena_boot (\<lambda>_. 0)))
     = Some (publish_base 4096 (arena_boot (\<lambda>_. 0)), NullPtr)"
proof -
  have "layout_ok \<lparr>l_size = 1, l_align = 1\<rparr>"
    by (auto simp: layout_ok_def intro!: exI[of _ 0])
  then show ?thesis
    using init_window_refuses[of "\<lparr>l_size = 1, l_align = 1\<rparr>" 4096] by (simp add: null_def)
qed

end
