(* ===== verification/Float_Scale.thy ===== *)
theory Float_Scale
  imports Wire_Bytes
begin

text \<open>
  The size estimates of the broker multiply a \<open>usize\<close> by 2.25 or 1.25 in \<open>f64\<close> and cast
  back. A natural number in \<open>f64\<close> is rounded to 53 significant bits, ties to even; dividing
  by four is exact in binary, so the product with \<open>k / 4\<close> is \<open>k * n\<close> rounded the same way
  and then divided by four; the cast drops the fraction and saturates.
\<close>

fun bit_len :: "nat \<Rightarrow> nat" where
  "bit_len n = (if n = 0 then 0 else Suc (bit_len (n div 2)))"

declare bit_len.simps [simp del]

definition rne53 :: "nat \<Rightarrow> nat" where
  "rne53 n =
     (if n < 2 ^ 53 then n
      else (let e = bit_len n - 53; q = n div 2 ^ e; r = n mod 2 ^ e
            in (if 2 ^ e < 2 * r \<or> (2 * r = 2 ^ e \<and> odd q) then q + 1 else q) * 2 ^ e))"

definition f64_mul_quarters :: "nat \<Rightarrow> nat \<Rightarrow> usize" where
  "f64_mul_quarters k n = min usize_max (rne53 (k * rne53 n) div 4)"

text \<open>\<open>(n as f64 * SIZE_FACTOR) as usize\<close> with \<open>SIZE_FACTOR = 2.25\<close>.\<close>

definition scaled_size :: "usize \<Rightarrow> usize" where
  "scaled_size n = f64_mul_quarters 9 n"

text \<open>\<open>(n as f64 * 1.25) as usize\<close>.\<close>

definition scaled_capacity :: "usize \<Rightarrow> usize" where
  "scaled_capacity n = f64_mul_quarters 5 n"

lemma rne53_exact: "n < 2 ^ 53 \<Longrightarrow> rne53 n = n"
  by (simp add: rne53_def)

lemma f64_mul_quarters_exact:
  "0 < k \<Longrightarrow> k * n < 2 ^ 53 \<Longrightarrow> f64_mul_quarters k n = k * n div 4"
proof -
  assume "0 < k" "k * n < 2 ^ 53"
  moreover from this have "n < 2 ^ 53"
    by (metis Suc_leI le_less_trans mult_le_mono1 nat_mult_1 One_nat_def)
  ultimately show ?thesis
    by (simp add: f64_mul_quarters_def rne53_exact min_def)
qed

lemma scaled_size_exact: "n < 2 ^ 49 \<Longrightarrow> scaled_size n = 9 * n div 4"
  by (simp add: scaled_size_def f64_mul_quarters_exact)

lemma scaled_capacity_exact: "n < 2 ^ 50 \<Longrightarrow> scaled_capacity n = 5 * n div 4"
  by (simp add: scaled_capacity_def f64_mul_quarters_exact)

end
