(* ===== verification/Protocol.thy ===== *)
theory Protocol
  imports Error_Codes Float_Scale
begin

text \<open>
  The wire protocol of \<open>src/net/server.rs\<close>: request and response codes, the request frame
  \<open>[command: 1][client id: 16][payload size: 8][queue name: 64][payload]\<close>, the response
  \<open>[status: 1][payload size: 8][payload]\<close>, and the loop of \<open>read_buffer\<close> that cuts frames
  out of the bytes received so far.
\<close>

definition command_size :: usize where "command_size = 1"
definition payload_size_size :: usize where "payload_size_size = 8"
definition client_id_size :: usize where "client_id_size = 16"
definition queue_name_size :: usize where "queue_name_size = 64"
definition max_payload_size :: nat where "max_payload_size = 4 * 1024 * 1024 * 1024"

lemmas sizes = command_size_def payload_size_size_def client_id_size_def queue_name_size_def

section \<open>Codes\<close>

datatype request =
    ReqEnqueue
  | ReqDequeue
  | ReqCreateQ
  | ReqDeleteQ
  | ReqListM
  | ReqDeleteM
  | ReqSucceeded
  | ReqFailed
  | ReqRequeue
  | ReqUpdateM
  | ReqUpdateQ
  | ReqNetStats

fun request_as_u8 :: "request \<Rightarrow> u8" where
  "request_as_u8 ReqEnqueue = 1"
| "request_as_u8 ReqDequeue = 2"
| "request_as_u8 ReqCreateQ = 3"
| "request_as_u8 ReqDeleteQ = 4"
| "request_as_u8 ReqListM = 5"
| "request_as_u8 ReqDeleteM = 6"
| "request_as_u8 ReqSucceeded = 7"
| "request_as_u8 ReqFailed = 8"
| "request_as_u8 ReqRequeue = 9"
| "request_as_u8 ReqUpdateM = 10"
| "request_as_u8 ReqUpdateQ = 11"
| "request_as_u8 ReqNetStats = 12"

definition request_from_u8 :: "u8 \<Rightarrow> (io_error, request) result" where
  "request_from_u8 v =
     (if v = 1 then Ok ReqEnqueue
      else if v = 2 then Ok ReqDequeue
      else if v = 3 then Ok ReqCreateQ
      else if v = 4 then Ok ReqDeleteQ
      else if v = 5 then Ok ReqListM
      else if v = 6 then Ok ReqDeleteM
      else if v = 7 then Ok ReqSucceeded
      else if v = 8 then Ok ReqFailed
      else if v = 9 then Ok ReqRequeue
      else if v = 10 then Ok ReqUpdateM
      else if v = 11 then Ok ReqUpdateQ
      else if v = 12 then Ok ReqNetStats
      else Err (IoError InvalidData ''Unknown request type''))"

datatype response_status = RespSucceeded | RespFailed

fun response_as_u8 :: "response_status \<Rightarrow> u8" where
  "response_as_u8 RespSucceeded = 1"
| "response_as_u8 RespFailed = 2"

definition response_from_u8 :: "u8 \<Rightarrow> (io_error, response_status) result" where
  "response_from_u8 v =
     (if v = 1 then Ok RespSucceeded
      else if v = 2 then Ok RespFailed
      else Err (IoError InvalidData ''Unknown request type''))"

lemma request_from_as_u8 [simp]: "request_from_u8 (request_as_u8 r) = Ok r"
  by (cases r) (simp_all add: request_from_u8_def)

lemma request_from_u8_no_panic [simp]: "request_from_u8 v \<noteq> Panic"
  by (simp add: request_from_u8_def)

lemma response_from_as_u8 [simp]: "response_from_u8 (response_as_u8 r) = Ok r"
  by (cases r) (simp_all add: response_from_u8_def)

section \<open>Messages\<close>

record request_message =
  rm_command :: request
  rm_payload_size :: u64
  rm_payload :: "u8 list"

text \<open>
  \<open>read_buffer\<close> passes exactly one frame, at least 89 bytes; on a shorter buffer the slice of
  the size field or the \<open>split_off\<close> beyond its end panics.
\<close>

definition request_message_new :: "request \<Rightarrow> u8 list \<Rightarrow> (io_error, request_message) result" where
  "request_message_new command bytes =
     (if length bytes < command_size + client_id_size + payload_size_size + queue_name_size then Panic
      else Ok \<lparr>rm_command = command,
             rm_payload_size = u64_from_be_bytes
               (take payload_size_size (drop (command_size + client_id_size) bytes)),
             rm_payload = drop (command_size + client_id_size + payload_size_size + queue_name_size) bytes\<rparr>)"

record response_message =
  resp_status :: response_status
  resp_payload_size :: u64
  resp_payload :: "u8 list"

definition response_message_new :: "response_status \<Rightarrow> u8 list \<Rightarrow> response_message" where
  "response_message_new status pl =
     \<lparr>resp_status = status, resp_payload_size = word_of_nat (length pl), resp_payload = pl\<rparr>"

definition response_to_u8 :: "response_message \<Rightarrow> u8 list" where
  "response_to_u8 r = [response_as_u8 (resp_status r)] @ u64_to_be_bytes (resp_payload_size r) @ resp_payload r"

text \<open>The client's reader, as in the server tests: nine header bytes, then the payload.\<close>

definition parse_response :: "u8 list \<Rightarrow> (response_message \<times> u8 list) option" where
  "parse_response bytes =
     (if length bytes < 9 then None
      else case response_from_u8 (bytes ! 0) of
        Ok status \<Rightarrow>
          (let size = u64_from_be_bytes (take 8 (drop 1 bytes)); rest = drop 9 bytes
           in if length rest < unat size then None
              else Some (\<lparr>resp_status = status, resp_payload_size = size, resp_payload = take (unat size) rest\<rparr>,
                         drop (unat size) rest))
      | _ \<Rightarrow> None)"

lemma parse_response_new:
  assumes "length pl < 2 ^ 64"
  shows "parse_response (response_to_u8 (response_message_new status pl) @ rest)
           = Some (response_message_new status pl, rest)"
proof -
  have size: "unat (word_of_nat (length pl) :: u64) = length pl"
    using assms by (simp add: unat_of_nat)
  show ?thesis
    by (simp add: parse_response_def response_to_u8_def response_message_new_def Let_def
        be64.dec_take be64.drop_enc be64.enc_length be64.dec_enc size)
qed

text \<open>
  A response survives the wire: the client's reader takes exactly the bytes of the
  response off the stream and gets its status and payload back, whatever follows.
\<close>

theorem response_roundtrip:
  assumes "length pl < 2 ^ 64"
  shows "parse_response (response_to_u8 (response_message_new status pl) @ rest)
           = Some (response_message_new status pl, rest)"
  using assms by (rule parse_response_new)

theorem response_roundtrip_witness:
  "parse_response (response_to_u8 (response_message_new RespFailed [0, 104]) @ [1, 2])
     = Some (response_message_new RespFailed [0, 104], [1, 2])"
  by (rule response_roundtrip) simp

section \<open>Cutting frames\<close>

record frame =
  fr_command :: request
  fr_client_id :: u128
  fr_payload_size :: u64
  fr_queue_name :: string
  fr_message :: "(io_error, request_message) result"

datatype frame_result = Incomplete | Rejected error_code | Complete frame "u8 list"

definition header_size :: usize where
  "header_size = command_size + client_id_size + payload_size_size"

definition decode_queue_name :: "u8 list \<Rightarrow> string" where
  "decode_queue_name bs = (if utf8_valid bs then of_bytes (trim_end_nul bs) else '''')"

text \<open>
  One turn of the inner loop, on the bytes received so far and the free memory reported by
  the allocator: reject the command or the size, wait for more bytes, or cut a frame.
\<close>

definition next_frame :: "usize \<Rightarrow> u8 list \<Rightarrow> frame_result" where
  "next_frame free_mem buffer =
     (if length buffer < header_size then Incomplete
      else case request_from_u8 (buffer ! 0) of
        Ok command \<Rightarrow>
          (let client_id = u128_from_be_bytes (take client_id_size (drop command_size buffer));
               payload_size = u64_from_be_bytes
                 (take payload_size_size (drop (command_size + client_id_size) buffer))
           in if unat payload_size > max_payload_size \<or> scaled_size (unat payload_size) \<ge> free_mem
              then Rejected PayloadTooLarge
              else if length buffer < unat payload_size + (header_size + queue_name_size) then Incomplete
              else
                (let queue_name = decode_queue_name (take queue_name_size (drop header_size buffer));
                     size = header_size + queue_name_size + unat payload_size;
                     message = request_message_new command (take size buffer)
                 in Complete \<lparr>fr_command = command, fr_client_id = client_id,
                      fr_payload_size = payload_size, fr_queue_name = queue_name,
                      fr_message = message\<rparr> (drop size buffer)))
      | _ \<Rightarrow> Rejected UnknownRequestType)"

lemma next_frame_shorter: "next_frame free_mem buffer = Complete f rest \<Longrightarrow> length rest < length buffer"
  by (auto simp: next_frame_def Let_def header_size_def sizes split: if_splits result.splits)

text \<open>
  The inner loop: frames until the buffer holds no whole one, or the first rejection. The free
  memory is read anew in every turn; \<open>obs n\<close> is what the \<open>n\<close>-th turn of the connection observes.
\<close>

function drain_frames ::
    "(nat \<Rightarrow> usize) \<Rightarrow> nat \<Rightarrow> u8 list \<Rightarrow> frame list \<times> error_code option \<times> u8 list \<times> nat" where
  "drain_frames obs n buffer =
     (case next_frame (obs n) buffer of
        Incomplete \<Rightarrow> ([], None, buffer, Suc n)
      | Rejected e \<Rightarrow> ([], Some e, buffer, Suc n)
      | Complete f rest \<Rightarrow>
          (let (fs, err, left, n') = drain_frames obs (Suc n) rest in (f # fs, err, left, n')))"
  by pat_completeness auto
termination
  by (relation "measure (\<lambda>(obs, n, buffer). length buffer)") (auto dest: next_frame_shorter)

declare drain_frames.simps [simp del]

text \<open>
  The outer loop over the successive reads of the socket: an empty read is the end of the
  stream, a rejection closes the connection.
\<close>

fun read_buffer ::
    "(nat \<Rightarrow> usize) \<Rightarrow> nat \<Rightarrow> u8 list \<Rightarrow> u8 list list \<Rightarrow> frame list \<times> error_code option" where
  "read_buffer obs n buffer [] = ([], None)"
| "read_buffer obs n buffer (chunk # chunks) =
     (if chunk = [] then ([], None)
      else case drain_frames obs n (buffer @ chunk) of
        (fs, Some e, left, n') \<Rightarrow> (fs, Some e)
      | (fs, None, left, n') \<Rightarrow>
          (let (gs, err) = read_buffer obs n' left chunks in (fs @ gs, err)))"

text \<open>
  C34. On any bytes at all, a frame that is cut carries exactly the payload its header
  announces, within the limits, and building its message does not panic; the bytes of the
  frame and the rest are the buffer.
\<close>

theorem frame_is_well_formed:
  assumes "next_frame free_mem buffer = Complete f rest"
  shows "\<exists>m. fr_message f = Ok m \<and> rm_command m = fr_command f
       \<and> rm_payload_size m = fr_payload_size f \<and> length (rm_payload m) = unat (fr_payload_size f)
       \<and> unat (fr_payload_size f) \<le> max_payload_size \<and> scaled_size (unat (fr_payload_size f)) < free_mem
       \<and> buffer = take 89 buffer @ rm_payload m @ rest"
proof -
  obtain c where c: "request_from_u8 (buffer ! 0) = Ok c"
    using assms by (auto simp: next_frame_def split: if_splits result.splits)
  define size where "size = u64_from_be_bytes (take 8 (drop 17 buffer))"
  from assms c have f: "fr_message f = request_message_new c (take (89 + unat size) buffer)"
      "fr_command f = c" "fr_payload_size f = size" "rest = drop (89 + unat size) buffer"
      and len: "89 + unat size \<le> length buffer" "unat size \<le> max_payload_size"
        "scaled_size (unat size) < free_mem"
    by (auto simp: next_frame_def Let_def header_size_def sizes size_def split: if_splits)
  have "take 8 (drop 17 (take (89 + unat size) buffer)) = take 8 (drop 17 buffer)"
    by (simp add: drop_take)
  then have "fr_message f = Ok \<lparr>rm_command = c, rm_payload_size = size,
               rm_payload = take (unat size) (drop 89 buffer)\<rparr>"
    using len by (simp add: f request_message_new_def sizes size_def drop_take)
  moreover have "buffer = take 89 buffer @ take (unat size) (drop 89 buffer) @ rest"
    by (metis f(4) append_take_drop_id drop_drop add.commute)
  ultimately show ?thesis
    using len f by simp
qed

section \<open>The client's encoder\<close>

text \<open>
  \<open>encode_request\<close> of the server tests. A queue name of more than 64 bytes is cut.
\<close>

definition encode_name :: "string \<Rightarrow> u8 list" where
  "encode_name name = take 64 (as_bytes name) @ replicate (64 - length name) 0"

definition encode_request :: "u8 \<Rightarrow> u128 \<Rightarrow> string \<Rightarrow> u8 list \<Rightarrow> u8 list" where
  "encode_request command client_id name pl =
     [command] @ u128_to_be_bytes client_id @ u64_to_be_bytes (word_of_nat (length pl))
       @ encode_name name @ pl"

record client_request =
  cr_command :: request
  cr_client_id :: u128
  cr_queue_name :: string
  cr_payload :: "u8 list"

definition encode :: "client_request \<Rightarrow> u8 list" where
  "encode r = encode_request (request_as_u8 (cr_command r)) (cr_client_id r) (cr_queue_name r) (cr_payload r)"

text \<open>The name survives the fixed field, and the payload is within the limits.\<close>

definition name_ok :: "string \<Rightarrow> bool" where
  "name_ok name \<longleftrightarrow> length name \<le> 64 \<and> utf8_valid (as_bytes name)
     \<and> (name = [] \<or> last (as_bytes name) \<noteq> 0)"

definition request_ok :: "usize \<Rightarrow> client_request \<Rightarrow> bool" where
  "request_ok free_mem r \<longleftrightarrow> name_ok (cr_queue_name r) \<and> length (cr_payload r) \<le> max_payload_size
     \<and> scaled_size (length (cr_payload r)) < free_mem"

definition frame_of :: "client_request \<Rightarrow> frame" where
  "frame_of r = \<lparr>fr_command = cr_command r, fr_client_id = cr_client_id r,
     fr_payload_size = word_of_nat (length (cr_payload r)), fr_queue_name = cr_queue_name r,
     fr_message = Ok \<lparr>rm_command = cr_command r, rm_payload_size = word_of_nat (length (cr_payload r)),
       rm_payload = cr_payload r\<rparr>\<rparr>"

lemma length_encode_name [simp]: "length (encode_name name) = 64"
  by (simp add: encode_name_def min_def)

lemma decode_encode_name: "name_ok name \<Longrightarrow> decode_queue_name (encode_name name) = name"
proof -
  assume ok: "name_ok name"
  have e: "encode_name name = as_bytes name @ replicate (64 - length name) 0"
    using ok by (simp add: encode_name_def name_ok_def)
  have "utf8_valid (encode_name name)"
    unfolding e using ok by (intro utf8_valid_append) (simp_all add: name_ok_def utf8_valid_ascii)
  moreover have "trim_end_nul (encode_name name) = as_bytes name"
    unfolding e by (rule trim_end_nul_padded) (use ok in \<open>auto simp: name_ok_def as_bytes_def\<close>)
  ultimately show ?thesis
    by (simp add: decode_queue_name_def)
qed

lemma length_encode: "length (encode r) = 89 + length (cr_payload r)"
  by (simp add: encode_def encode_request_def be64.enc_length be128.enc_length)

text \<open>The header fields, read back from the front of a stream that starts with a request.\<close>

lemma encode_fields:
  "encode r ! 0 = request_as_u8 (cr_command r)"
  "take 16 (drop 1 (encode r)) = u128_to_be_bytes (cr_client_id r)"
  "take 8 (drop 17 (encode r)) = u64_to_be_bytes (word_of_nat (length (cr_payload r)))"
  "take 64 (drop 25 (encode r)) = encode_name (cr_queue_name r)"
  "drop 89 (encode r) = cr_payload r"
  by (simp_all add: encode_def encode_request_def be64.enc_length be128.enc_length)

lemma payload_size_unat:
  "length pl \<le> max_payload_size \<Longrightarrow> unat (word_of_nat (length pl) :: u64) = length pl"
  by (simp add: unat_of_nat max_payload_size_def)

lemma next_frame_encode:
  assumes "request_ok free_mem r"
  shows "next_frame free_mem (encode r @ rest) = Complete (frame_of r) rest"
proof -
  note F = encode_fields[of r]
  have size: "unat (word_of_nat (length (cr_payload r)) :: u64) = length (cr_payload r)"
    using assms by (simp add: payload_size_unat request_ok_def)
  have *: "request_from_u8 ((encode r @ rest) ! 0) = Ok (cr_command r)"
      "take 16 (drop 1 (encode r @ rest)) = u128_to_be_bytes (cr_client_id r)"
      "take 8 (drop 17 (encode r @ rest)) = u64_to_be_bytes (word_of_nat (length (cr_payload r)))"
      "take 64 (drop 25 (encode r @ rest)) = encode_name (cr_queue_name r)"
    using F length_encode[of r] by (simp_all add: nth_append)
  have m: "request_message_new (cr_command r) (encode r) = fr_message (frame_of r)"
    using F by (simp add: request_message_new_def sizes length_encode frame_of_def be64.dec_enc)
  have t: "take (89 + length (cr_payload r)) (encode r @ rest) = encode r"
      "drop (89 + length (cr_payload r)) (encode r @ rest) = rest"
    by (simp_all add: length_encode)
  show ?thesis
    using assms * m t
    by (simp add: next_frame_def Let_def header_size_def sizes length_encode be64.dec_enc be128.dec_enc
        size request_ok_def decode_encode_name frame_of_def not_le)
qed

lemma next_frame_prefix:
  assumes "request_ok free_mem r" "encode r = p @ q" "q \<noteq> []"
  shows "next_frame free_mem p = Incomplete"
proof (cases "length p < 25")
  case True
  then show ?thesis by (simp add: next_frame_def header_size_def sizes)
next
  case False
  note F = encode_fields[of r]
  have size: "unat (word_of_nat (length (cr_payload r)) :: u64) = length (cr_payload r)"
    using assms by (simp add: payload_size_unat request_ok_def)
  have "request_from_u8 (p ! 0) = Ok (cr_command r)"
    using F(1) False assms(2) by (simp add: nth_append split: if_splits)
  moreover have "take 8 (drop 17 p) = u64_to_be_bytes (word_of_nat (length (cr_payload r)))"
    using F(3) False assms(2) by simp
  moreover have "length p < 89 + length (cr_payload r)"
    using length_encode[of r] assms(2,3) by (metis length_append length_greater_0_conv less_add_same_cancel1)
  ultimately show ?thesis
    using assms(1) False
    by (simp add: next_frame_def Let_def header_size_def sizes be64.dec_enc size request_ok_def not_le)
qed

text \<open>
  The server cuts out of the stream exactly the request the client encoded: command,
  client id, queue name and payload, leaving the bytes that follow.
\<close>

theorem request_roundtrip:
  assumes "request_ok free_mem r"
  shows "next_frame free_mem (encode r @ rest) = Complete (frame_of r) rest"
  using assms by (rule next_frame_encode)

theorem request_roundtrip_witness:
  "next_frame 1000 (encode \<lparr>cr_command = ReqEnqueue, cr_client_id = 7, cr_queue_name = ''jobs'',
       cr_payload = [1, 2, 3]\<rparr> @ [9])
     = Complete (frame_of \<lparr>cr_command = ReqEnqueue, cr_client_id = 7, cr_queue_name = ''jobs'',
         cr_payload = [1, 2, 3]\<rparr>) [9]"
  by (rule request_roundtrip)
     (simp add: request_ok_def name_ok_def max_payload_size_def scaled_size_exact as_bytes_def utf8_valid.simps)

text \<open>
  Whatever prefix of a stream of requests has arrived, the inner loop cuts the requests that
  are complete in it and keeps an incomplete rest.
\<close>

lemma drain_frames_prefix:
  assumes "\<forall>r \<in> set rs. \<forall>i. request_ok (obs i) r" "p @ q = concat (map encode rs)"
  shows "\<exists>dn todo left n'. rs = dn @ todo
      \<and> drain_frames obs n p = (map frame_of dn, None, left, n')
      \<and> left @ q = concat (map encode todo) \<and> (q = [] \<longrightarrow> todo = [])"
  using assms
proof (induction rs arbitrary: p n)
  case Nil
  then show ?case
    by (simp add: drain_frames.simps[of obs n] next_frame_def header_size_def sizes)
next
  case (Cons r rs)
  have ok: "request_ok (obs n) r"
    using Cons.prems(1) by simp
  from Cons.prems(2) have "p @ q = encode r @ concat (map encode rs)"
    by simp
  then have cut: "(\<exists>us. p = encode r @ us) \<or> (\<exists>us. encode r = p @ us)"
    unfolding append_eq_append_conv2 by metis
  show ?case
  proof (cases "length p < length (encode r)")
    case True
    with cut obtain t where t: "encode r = p @ t" "t \<noteq> []"
      by (auto simp: length_append)
    have "drain_frames obs n p = ([], None, p, Suc n)"
      by (simp add: drain_frames.simps[of obs n] next_frame_prefix[OF ok t])
    moreover have "q \<noteq> []"
    proof
      assume "q = []"
      then have "length p \<ge> length (encode r)"
        using Cons.prems(2) by simp
      with True show False by simp
    qed
    ultimately show ?thesis
      using Cons.prems(2)
      by (intro exI[of _ "[]"] exI[of _ "r # rs"] exI[of _ p] exI[of _ "Suc n"]) simp
  next
    case False
    with cut obtain p' where p': "p = encode r @ p'"
      by (auto simp: length_append)
    with Cons.prems(2) have "p' @ q = concat (map encode rs)" by simp
    from Cons.IH[OF _ this, of "Suc n"] Cons.prems(1) obtain dn todo left n' where *: "rs = dn @ todo"
        "drain_frames obs (Suc n) p' = (map frame_of dn, None, left, n')"
        "left @ q = concat (map encode todo)" "q = [] \<longrightarrow> todo = []"
      by fastforce
    have "drain_frames obs n p = (map frame_of (r # dn), None, left, n')"
      by (simp add: drain_frames.simps[of obs n] p' next_frame_encode[OF ok] *(2))
    with *(1,3,4) show ?thesis
      by (intro exI[of _ "r # dn"] exI[of _ todo] exI[of _ left] exI[of _ n']) simp
  qed
qed

lemma read_buffer_stream:
  assumes "\<forall>r \<in> set rs. \<forall>i. request_ok (obs i) r" "buffer @ concat chunks = concat (map encode rs)"
    "\<forall>c \<in> set chunks. c \<noteq> []" "chunks = [] \<Longrightarrow> rs = []"
  shows "read_buffer obs n buffer chunks = (map frame_of rs, None)"
  using assms
proof (induction chunks arbitrary: buffer rs n)
  case Nil
  then show ?case by simp
next
  case (Cons chunk chunks)
  from drain_frames_prefix[of rs obs "buffer @ chunk" "concat chunks" n] Cons.prems(1,2)
  obtain dn todo left n' where *: "rs = dn @ todo"
      "drain_frames obs n (buffer @ chunk) = (map frame_of dn, None, left, n')"
      "left @ concat chunks = concat (map encode todo)" "concat chunks = [] \<longrightarrow> todo = []"
    unfolding concat.simps append_assoc by metis
  have "read_buffer obs n' left chunks = (map frame_of todo, None)"
    by (rule Cons.IH) (use * Cons.prems in auto)
  with * Cons.prems(3) show ?case by simp
qed

text \<open>
  Requests are reassembled whatever the network does: if the socket delivers the encodings
  of a sequence of requests in any cuts, the server processes exactly these requests in order
  and reports no error, pipelined and split frames included.
\<close>

theorem stream_reassembly:
  assumes "concat chunks = concat (map encode rs)" "\<forall>c \<in> set chunks. c \<noteq> []"
    "\<forall>r \<in> set rs. \<forall>i. request_ok (obs i) r"
  shows "read_buffer obs n [] chunks = (map frame_of rs, None)"
proof (rule read_buffer_stream)
  assume "chunks = []"
  with assms(1) have "length (concat (map encode rs)) = 0" by simp
  then show "rs = []"
    using length_encode by (cases rs) auto
qed (use assms in simp_all)

text \<open>Two requests of a client, the second of them empty, for the concrete instances.\<close>

definition sample_requests :: "client_request list" where
  "sample_requests =
     [\<lparr>cr_command = ReqEnqueue, cr_client_id = 7, cr_queue_name = ''jobs'', cr_payload = [1, 2, 3]\<rparr>,
      \<lparr>cr_command = ReqDequeue, cr_client_id = 7, cr_queue_name = ''jobs'', cr_payload = []\<rparr>]"

lemma sample_requests_ok: "\<forall>r \<in> set sample_requests. request_ok 1000 r"
  by (simp add: sample_requests_def request_ok_def name_ok_def max_payload_size_def scaled_size_exact
      as_bytes_def utf8_valid.simps)

theorem stream_reassembly_witness:
  "read_buffer (\<lambda>_. 1000) 0 [] [take 30 (concat (map encode sample_requests)),
       drop 30 (concat (map encode sample_requests))]
     = (map frame_of sample_requests, None)"
proof (rule stream_reassembly)
  have "length (concat (map encode sample_requests)) = 181"
    by (simp add: sample_requests_def length_encode)
  moreover have "length s = 181 \<Longrightarrow> \<forall>c \<in> set [take 30 s, drop 30 s]. c \<noteq> []" for s :: "u8 list"
    by auto
  ultimately show "\<forall>c \<in> set [take 30 (concat (map encode sample_requests)),
      drop 30 (concat (map encode sample_requests))]. c \<noteq> []"
    by blast
qed (use sample_requests_ok in simp_all)

theorem frame_is_well_formed_witness:
  "\<exists>m. fr_message (frame_of (hd sample_requests)) = Ok m
     \<and> length (rm_payload m) = unat (fr_payload_size (frame_of (hd sample_requests)))"
proof -
  have "request_ok 1000 (hd sample_requests)"
    using sample_requests_ok by (simp add: sample_requests_def)
  from frame_is_well_formed[OF next_frame_encode[OF this, of "[]"]] show ?thesis
    by blast
qed

end
