(* ===== verification/Queue_Sizes.thy ===== *)
theory Queue_Sizes
  imports Queue_Behaviour Float_Scale
begin

text \<open>
  The size accounting of \<open>src/net/queue.rs\<close>. Capacities of vectors, hash maps and byte
  buffers are chosen by the allocator-facing code of the libraries, not by the contents, so
  they are an argument: one record of the capacities a queue has at the moment it is
  measured. The sizes of the Rust types are those of a 64-bit target.
\<close>

record capacities =
  cap_order :: usize
  cap_queue :: usize
  cap_locked :: usize
  cap_payload :: "u128 \<Rightarrow> usize"
  cap_lock_vec :: "u128 \<Rightarrow> usize"

definition size_of_u128 :: usize where "size_of_u128 = 16"
definition size_of_u64 :: usize where "size_of_u64 = 8"
definition size_of_option_u128 :: usize where "size_of_option_u128 = 32"
definition size_of_arc :: usize where "size_of_arc = 8"

definition message_deep_size_of :: "usize \<Rightarrow> usize" where
  "message_deep_size_of payload_capacity =
     payload_capacity + size_of_u128 + size_of_u64 + size_of_option_u128"

definition locked_capacity :: "capacities \<Rightarrow> queue \<Rightarrow> usize" where
  "locked_capacity cap q =
     scaled_capacity (cap_locked cap * size_of_u128) + cap_locked cap * size_of_arc
     + sum_list (map (\<lambda>(c, _). cap_lock_vec cap c * size_of_u128) (q_locked q))"

definition deep_size_of :: "capacities \<Rightarrow> queue \<Rightarrow> usize" where
  "deep_size_of cap q =
     cap_order cap * size_of_u128
     + (scaled_capacity (cap_queue cap * size_of_u128)
        + sum_list (map (\<lambda>(i, _). message_deep_size_of (cap_payload cap i)) (q_queue q)))
     + locked_capacity cap q"

definition deep_size_of_locked :: "capacities \<Rightarrow> queue \<Rightarrow> usize" where
  "deep_size_of_locked cap q =
     (let held_entries = filter (\<lambda>(_, m). is_message_locked m) (q_queue q);
          ids = length held_entries
      in sum_list (map (\<lambda>(i, _). message_deep_size_of (cap_payload cap i)) held_entries)
         + scaled_capacity (ids * size_of_u128) + locked_capacity cap q)"

definition get_total_messages :: "queue \<Rightarrow> (io_error, usize) result" where
  "get_total_messages q = Ok (hm_len (q_queue q))"

definition get_total_bytes :: "capacities \<Rightarrow> queue \<Rightarrow> (io_error, usize) result" where
  "get_total_bytes cap q = Ok (deep_size_of cap q)"

definition get_total_messages_locked :: "queue \<Rightarrow> (io_error, usize) result" where
  "get_total_messages_locked q = Ok (sum_list (map (\<lambda>(_, ids). length ids) (q_locked q)))"

definition get_total_bytes_locked :: "capacities \<Rightarrow> queue \<Rightarrow> (io_error, usize) result" where
  "get_total_bytes_locked cap q = Ok (deep_size_of_locked cap q)"

section \<open>Bounds\<close>

text \<open>Held messages are counted by the lock vectors.\<close>

lemma card_concat_le: "card (set (concat xss)) \<le> sum_list (map length xss)"
  by (metis card_length length_concat)

lemma hm_get_in_set: "hm_get m k = Some v \<Longrightarrow> (k, v) \<in> set m"
  by (simp add: hm_get_def map_of_SomeD)

lemma held_in_lock_vectors:
  assumes "queue_inv q"
  shows "Collect (held q) \<subseteq> set (concat (map snd (q_locked q)))"
proof
  fix i assume "i \<in> Collect (held q)"
  then obtain msg c where "messages q i = Some msg" "locked_by msg = Some c"
    by (auto simp: held_def)
  with assms have "i \<in> set (locks q c)"
    by (simp add: queue_inv_def)
  then obtain ids where "hm_get (q_locked q) c = Some ids" "i \<in> set ids"
    by (cases "hm_get (q_locked q) c") (simp_all add: locked_ids_def)
  with hm_get_in_set[of "q_locked q" c ids] show "i \<in> set (concat (map snd (q_locked q)))"
    by force
qed

lemma filter_sum_list_le:
  "sum_list (map f (filter P xs)) \<le> sum_list (map f xs)" for f :: "'a \<Rightarrow> nat"
  by (induction xs) auto

text \<open>
  The statistics of a well-formed queue are consistent: the number of locks reported is
  at least the number of messages that are held, messages reported are the messages stored,
  and the bytes reported cover the payload buffers of all of them.
\<close>

theorem totals_consistent:
  assumes "queue_inv q"
  shows "(case (get_total_messages q, get_total_messages_locked q, get_total_bytes cap q) of
       (Ok n_total, Ok n_locked, Ok bytes) \<Rightarrow>
         n_total = card {i. messages q i \<noteq> None} \<and> card (Collect (held q)) \<le> n_locked
         \<and> card (Collect (held q)) \<le> n_total
         \<and> sum_list (map (\<lambda>(i, _). cap_payload cap i) (q_queue q)) + 56 * n_total \<le> bytes
     | _ \<Rightarrow> False)"
proof -
  have keys: "{i. messages q i \<noteq> None} = hm_keys (q_queue q)"
    by (auto simp: hm_keys_get)
  have finite: "finite (hm_keys (q_queue q))"
    by (simp add: hm_keys_def)
  have "card (Collect (held q)) \<le> card (set (concat (map snd (q_locked q))))"
    by (rule card_mono[OF _ held_in_lock_vectors[OF assms]]) simp
  also have "\<dots> \<le> sum_list (map (\<lambda>(_, ids). length ids) (q_locked q))"
    using card_concat_le[of "map snd (q_locked q)"] by (simp add: comp_def split_def)
  finally have locked: "card (Collect (held q)) \<le> sum_list (map (\<lambda>(_, ids). length ids) (q_locked q))" .
  have "Collect (held q) \<subseteq> hm_keys (q_queue q)"
    by (auto simp: held_def hm_keys_get)
  then have total: "card (Collect (held q)) \<le> hm_len (q_queue q)" "hm_len (q_queue q) = card (hm_keys (q_queue q))"
    using assms finite by (simp_all add: card_mono hm_ok_card queue_inv_def)
  have "sum_list (map (\<lambda>(i, _). message_deep_size_of (cap_payload cap i)) es)
      = sum_list (map (\<lambda>(i, _). cap_payload cap i) es) + 56 * length es"
    for es :: "(u128 \<times> queue_message) list"
    by (induction es) (auto simp: message_deep_size_of_def size_of_u128_def size_of_u64_def size_of_option_u128_def)
  then have "sum_list (map (\<lambda>(i, _). cap_payload cap i) (q_queue q)) + 56 * hm_len (q_queue q) \<le> deep_size_of cap q"
    by (simp add: deep_size_of_def hm_len_def)
  with locked total keys show ?thesis
    by (simp add: get_total_messages_def get_total_messages_locked_def get_total_bytes_def)
qed

theorem totals_consistent_witness:
  "card (Collect (held (fold queue_after [QEnqueue 1 [1] 5, QLock 7] queue_new))) \<le> 1"
proof -
  define q where "q = fold queue_after [QEnqueue 1 [1] 5, QLock 7] queue_new"
  have inv: "queue_inv q"
    unfolding q_def by (rule qm.inv_run[OF queue_inv_new])
  have len: "hm_len (q_queue q) = 1"
    by (simp add: q_def queue_after_def enqueue_def lock_to_read_def Let_def queue_new_def
        next_message_id_def hm_insert_def hm_get_def is_message_locked_def queue_message_new_def hm_len_def)
  then have "card (Collect (held q)) \<le> 1"
    using totals_consistent[OF inv, of "\<lparr>cap_order = 4, cap_queue = 3, cap_locked = 3,
        cap_payload = (\<lambda>_. 8), cap_lock_vec = (\<lambda>_. 4)\<rparr>"]
    by (simp add: get_total_messages_def get_total_messages_locked_def get_total_bytes_def)
  then show ?thesis
    by (simp only: q_def)
qed

end
