(* ===== verification/Net_Stats.thy ===== *)
theory Net_Stats
  imports Queue_Sizes
begin

text \<open>
  \<open>src/net/net_stats.rs\<close>: the statistics of the queues and the payload of a \<open>NetStats\<close>
  response, \<open>[count: u32] ([entry_len: u32] [name_len: u16] [name] [4 x usize])*\<close> on a
  64-bit target.
\<close>

record stat_message =
  stat_queue_name :: string
  total_messages :: usize
  total_bytes :: usize
  total_messages_locked :: usize
  total_bytes_locked :: usize

type_synonym stat_watcher = "stat_message list"

definition stat_message_new :: "string \<Rightarrow> usize \<Rightarrow> usize \<Rightarrow> usize \<Rightarrow> usize \<Rightarrow> stat_message" where
  "stat_message_new name n_messages n_bytes n_messages_locked n_bytes_locked =
     \<lparr>stat_queue_name = name, total_messages = n_messages, total_bytes = n_bytes,
      total_messages_locked = n_messages_locked, total_bytes_locked = n_bytes_locked\<rparr>"

definition usize_to_be_bytes :: "usize \<Rightarrow> u8 list" where
  "usize_to_be_bytes n = u64_to_be_bytes (word_of_nat n)"

definition stat_message_to_bytes :: "stat_message \<Rightarrow> u8 list" where
  "stat_message_to_bytes s =
     (let name = as_bytes (stat_queue_name s)
      in u16_to_be_bytes (word_of_nat (length name)) @ name
         @ usize_to_be_bytes (total_messages s) @ usize_to_be_bytes (total_bytes s)
         @ usize_to_be_bytes (total_messages_locked s) @ usize_to_be_bytes (total_bytes_locked s))"

definition stat_watcher_new :: stat_watcher where
  "stat_watcher_new = []"

text \<open>One queue is measured under its lock; each failing query would give \<open>QueueStatsFailed\<close>.\<close>

definition stat_of :: "('e, 'a) result \<Rightarrow> (error_code, 'a) result" where
  "stat_of r = (case r of Ok a \<Rightarrow> Ok a | Err _ \<Rightarrow> Err QueueStatsFailed | Panic \<Rightarrow> Panic)"

definition new_stat ::
  "string \<Rightarrow> capacities \<Rightarrow> queue \<Rightarrow> stat_watcher \<Rightarrow> (error_code, stat_watcher) result" where
  "new_stat name cap q w =
     result_bind (stat_of (get_total_messages q)) (\<lambda>n_messages.
     result_bind (stat_of (get_total_bytes cap q)) (\<lambda>n_bytes.
     result_bind (stat_of (get_total_messages_locked q)) (\<lambda>n_messages_locked.
     result_bind (stat_of (get_total_bytes_locked cap q)) (\<lambda>n_bytes_locked.
       Ok (w @ [stat_message_new name n_messages n_bytes n_messages_locked n_bytes_locked])))))"

definition stat_watcher_to_bytes :: "stat_watcher \<Rightarrow> u8 list" where
  "stat_watcher_to_bytes w =
     u32_to_be_bytes (word_of_nat (length w))
     @ concat (map (\<lambda>s. let bytes = stat_message_to_bytes s
                        in u32_to_be_bytes (word_of_nat (length bytes)) @ bytes) w)"

section \<open>The client's decoder\<close>

text \<open>
  The decoder of the server tests, which documents the format: it reads the count, cuts each
  entry by its length and reads the name and the four numbers.
\<close>

definition parse_stat_entry :: "u8 list \<Rightarrow> stat_message" where
  "parse_stat_entry entry =
     (let name_len = unat (u16_from_be_bytes (take 2 entry));
          name = of_bytes (take name_len (drop 2 entry));
          field = (\<lambda>k. unat (u64_from_be_bytes (take 8 (drop (2 + name_len + 8 * k) entry))))
      in stat_message_new name (field 0) (field 1) (field 2) (field 3))"

fun parse_stat_entries :: "nat \<Rightarrow> u8 list \<Rightarrow> stat_message list" where
  "parse_stat_entries 0 bytes = []"
| "parse_stat_entries (Suc n) bytes =
     (let entry_len = unat (u32_from_be_bytes (take 4 bytes));
          entry = take entry_len (drop 4 bytes)
      in parse_stat_entry entry # parse_stat_entries n (drop entry_len (drop 4 bytes)))"

definition parse_stats :: "u8 list \<Rightarrow> stat_message list" where
  "parse_stats bytes = parse_stat_entries (unat (u32_from_be_bytes (take 4 bytes))) (drop 4 bytes)"

definition stat_fits :: "stat_message \<Rightarrow> bool" where
  "stat_fits s \<longleftrightarrow> length (stat_queue_name s) < 2 ^ 16 \<and> total_messages s \<le> usize_max
     \<and> total_bytes s \<le> usize_max \<and> total_messages_locked s \<le> usize_max
     \<and> total_bytes_locked s \<le> usize_max"

lemma usize_codec [simp]:
  "length (usize_to_be_bytes n) = 8"
  "n \<le> usize_max \<Longrightarrow> unat (u64_from_be_bytes (usize_to_be_bytes n)) = n"
  by (simp_all add: usize_to_be_bytes_def be64.enc_length be64.dec_enc unat_of_nat)

lemma length_stat_message_to_bytes: "length (stat_message_to_bytes s) = 34 + length (stat_queue_name s)"
  by (simp add: stat_message_to_bytes_def Let_def be16.enc_length)

lemma parse_stat_entry_to_bytes:
  assumes "stat_fits s"
  shows "parse_stat_entry (stat_message_to_bytes s) = s"
proof -
  define name where "name = as_bytes (stat_queue_name s)"
  define l2 where "l2 = u16_to_be_bytes (word_of_nat (length name))"
  define a where "a = usize_to_be_bytes (total_messages s)"
  define b where "b = usize_to_be_bytes (total_bytes s)"
  define c where "c = usize_to_be_bytes (total_messages_locked s)"
  define d where "d = usize_to_be_bytes (total_bytes_locked s)"
  have bytes: "stat_message_to_bytes s = l2 @ name @ a @ b @ c @ d"
    by (simp add: stat_message_to_bytes_def Let_def name_def l2_def a_def b_def c_def d_def)
  have len: "length l2 = 2" "length a = 8" "length b = 8" "length c = 8"
    by (simp_all add: l2_def a_def b_def c_def be16.enc_length)
  have "length name < 2 ^ 16"
    using assms by (simp add: name_def stat_fits_def)
  then have name_len: "unat (u16_from_be_bytes l2) = length name"
    by (simp add: l2_def be16.dec_enc unat_of_nat)
  have fields: "drop (2 + length name + 8 * 0) (l2 @ name @ a @ b @ c @ d) = a @ b @ c @ d"
      "drop (2 + length name + 8 * 1) (l2 @ name @ a @ b @ c @ d) = b @ c @ d"
      "drop (2 + length name + 8 * 2) (l2 @ name @ a @ b @ c @ d) = c @ d"
      "drop (2 + length name + 8 * 3) (l2 @ name @ a @ b @ c @ d) = d"
    using len by simp_all
  have vals: "unat (u64_from_be_bytes a) = total_messages s" "unat (u64_from_be_bytes b) = total_bytes s"
      "unat (u64_from_be_bytes c) = total_messages_locked s" "unat (u64_from_be_bytes d) = total_bytes_locked s"
      "length d = 8"
    using assms by (simp_all add: a_def b_def c_def d_def stat_fits_def)
  have "take 2 (l2 @ name @ a @ b @ c @ d) = l2" "take (length name) (drop 2 (l2 @ name @ a @ b @ c @ d)) = name"
    using len by simp_all
  then show ?thesis
    unfolding parse_stat_entry_def Let_def bytes
    by (simp only: name_len fields) (simp add: len vals stat_message_new_def name_def)
qed

lemma parse_stat_entries_to_bytes:
  "\<forall>s \<in> set w. stat_fits s \<Longrightarrow>
     parse_stat_entries (length w)
       (concat (map (\<lambda>s. let bytes = stat_message_to_bytes s
                        in u32_to_be_bytes (word_of_nat (length bytes)) @ bytes) w)) = w"
proof (induction w)
  case Nil
  then show ?case by simp
next
  case (Cons s w)
  then have "length (stat_message_to_bytes s) < 2 ^ 32"
    by (simp add: stat_fits_def length_stat_message_to_bytes)
  then have len: "unat (u32_from_be_bytes (u32_to_be_bytes (word_of_nat (length (stat_message_to_bytes s)))))
      = length (stat_message_to_bytes s)"
    by (simp add: be32.dec_enc unat_of_nat)
  show ?case
    using Cons by (simp add: Let_def be32.dec_take be32.drop_enc len parse_stat_entry_to_bytes be32.enc_length)
qed

text \<open>
  C38. The statistics response is decodable: for queue names below 64 KiB and fewer than
  \<open>2 ^ 32\<close> queues, the client's decoder returns exactly the statistics the server gathered,
  in order.
\<close>

theorem stats_roundtrip:
  assumes "length w < 2 ^ 32" and "\<forall>s \<in> set w. stat_fits s"
  shows "parse_stats (stat_watcher_to_bytes w) = w"
proof -
  have "unat (u32_from_be_bytes (u32_to_be_bytes (word_of_nat (length w)))) = length w"
    using assms(1) by (simp add: be32.dec_enc unat_of_nat)
  then show ?thesis
    using parse_stat_entries_to_bytes[OF assms(2)]
    by (simp add: parse_stats_def stat_watcher_to_bytes_def be32.dec_take be32.drop_enc be32.enc_length)
qed

theorem stats_roundtrip_witness:
  "parse_stats (stat_watcher_to_bytes [stat_message_new ''statq'' 1 120 0 24]) = [stat_message_new ''statq'' 1 120 0 24]"
proof -
  have h: "length [stat_message_new ''statq'' 1 120 0 24] < 2 ^ 32"
      "\<forall>s \<in> set [stat_message_new ''statq'' 1 120 0 24]. stat_fits s"
    by (simp_all add: stat_fits_def stat_message_new_def)
  show ?thesis
    by (rule stats_roundtrip[OF h])
qed

text \<open>Measuring a queue never fails, and adds one entry with its name.\<close>

lemma new_stat_ok:
  "new_stat name cap q w = Ok (w @ [stat_message_new name (hm_len (q_queue q)) (deep_size_of cap q)
     (sum_list (map (\<lambda>(_, ids). length ids) (q_locked q))) (deep_size_of_locked cap q)])"
  by (simp add: new_stat_def stat_of_def get_total_messages_def get_total_bytes_def
      get_total_messages_locked_def get_total_bytes_locked_def)

end
