(* ===== verification/Server_Model.thy ===== *)
theory Server_Model
  imports Protocol Net_Stats Allocator_Model
begin

text \<open>
  The request handlers of \<open>src/net/server.rs\<close> over the state they share: the queues by uuid,
  the names, the allocator's counters and the auto-fail timers that are asleep. A handler runs
  under the locks it takes, so it is one step from the state to a new state and the responses it
  hands to the socket. What a handler gets from outside is its environment: clock, fresh uuid,
  visiting orders of the hash maps, capacities, and whether the socket takes the first write.
\<close>

section \<open>State\<close>

text \<open>A task asleep in \<open>lock_and_dequeue_message\<close>: the queue it holds, the client, the message.\<close>

record timer =
  tm_queue :: u128
  tm_client :: u128
  tm_message :: u128
  tm_millis :: u64

record server =
  sv_queue :: "(u128, queue) hash_map"
  sv_queue_names :: "(string, u128) hash_map"
  sv_arena :: arena
  sv_timers :: "timer list"

record env =
  env_now :: u128
  env_uuid :: u128
  env_visit :: queue_order
  env_visit_names :: "(string \<times> u128) list \<Rightarrow> (string \<times> u128) list"
  env_caps :: "u128 \<Rightarrow> capacities"
  env_write_ok :: bool

definition server_new :: "arena \<Rightarrow> server" where
  "server_new a = \<lparr>sv_queue = hm_empty, sv_queue_names = hm_empty, sv_arena = a, sv_timers = []\<rparr>"

text \<open>\<open>run\<close> creates the configured queues before it accepts connections.\<close>

definition create_queue :: "string \<Rightarrow> u128 \<Rightarrow> server \<Rightarrow> server" where
  "create_queue name hash sv =
     sv\<lparr>sv_queue_names := hm_insert name hash (sv_queue_names sv),
        sv_queue := hm_insert hash queue_new (sv_queue sv)\<rparr>"

fun start_queues :: "(string \<times> u128) list \<Rightarrow> server \<Rightarrow> server" where
  "start_queues [] sv = sv"
| "start_queues ((name, hash) # rest) sv = start_queues rest (create_queue name hash sv)"

definition put_queue :: "u128 \<Rightarrow> queue \<Rightarrow> server \<Rightarrow> server" where
  "put_queue hash q sv = sv\<lparr>sv_queue := hm_insert hash q (sv_queue sv)\<rparr>"

definition get_queue :: "string \<Rightarrow> server \<Rightarrow> (error_code, u128 \<times> queue) result" where
  "get_queue name sv =
     (case hm_get (sv_queue_names sv) name of
        Some hash \<Rightarrow>
          (case hm_get (sv_queue sv) hash of
             Some q \<Rightarrow> Ok (hash, q)
           | None \<Rightarrow> Err QueueNotFound)
      | None \<Rightarrow> Err QueueHashNotFound)"

section \<open>Outcomes\<close>

text \<open>
  A handler ends and has handed over its responses, or its task panics and the client gets
  none, or it cannot take the locks it needs while a timer is asleep.
\<close>

datatype handled = Handled server "response_message list" | Crashed server | Blocked

definition succeeded :: "u8 list \<Rightarrow> response_message" where
  "succeeded pl = response_message_new RespSucceeded pl"

definition failed :: "error_code \<Rightarrow> response_message" where
  "failed e = response_message_new RespFailed (to_payload e)"

definition get_message :: "(io_error, request_message) result \<Rightarrow> request_message option" where
  "get_message wrapped_message = (case wrapped_message of Ok message \<Rightarrow> Some message | _ \<Rightarrow> None)"

text \<open>The 16-byte id at the front of a payload.\<close>

definition message_id_of :: "u8 list \<Rightarrow> u128" where
  "message_id_of pl = u128_from_be_bytes (take 16 pl)"

section \<open>Delivery and acknowledgement\<close>

definition lock_error_code :: "io_error \<Rightarrow> error_code" where
  "lock_error_code err =
     (if err_text err = ''No such message id'' then NoSuchMessageId
      else if err_text err = ''Queue message already locked'' then MessageAlreadyLocked
      else QueueIsEmpty)"

text \<open>
  \<open>lock_and_dequeue_message\<close> up to the sleep; a refused write leaves the message locked. The
  wake-up is a step of its own.
\<close>

definition lock_and_dequeue_message ::
  "env \<Rightarrow> string \<Rightarrow> u128 \<Rightarrow> server \<Rightarrow> server \<times> response_message list \<times> (error_code, unit) result" where
  "lock_and_dequeue_message env name client sv =
     (case get_queue name sv of
        Err e \<Rightarrow> (sv, [], Err e)
      | Panic \<Rightarrow> (sv, [], Panic)
      | Ok (hash, q) \<Rightarrow>
          (case lock_to_read client q of
             (q, Err e) \<Rightarrow> (put_queue hash q sv, [], Err (lock_error_code e))
           | (q, Panic) \<Rightarrow> (put_queue hash q sv, [], Panic)
           | (q, Ok (message, message_id)) \<Rightarrow>
               (let sv = put_queue hash q sv; response = succeeded message
                in if \<not> env_write_ok env then (sv, [response], Err ResponseFailedError)
                   else if get_config_auto_fail q then
                     (let duration = get_config_fail_timeout q
                      in if duration = 0 then (sv, [response], Ok ())
                         else case message_id of
                           None \<Rightarrow> (sv, [response], Panic)
                         | Some m \<Rightarrow>
                             (sv\<lparr>sv_timers := sv_timers sv @
                                [\<lparr>tm_queue = hash, tm_client = client, tm_message = m, tm_millis = duration\<rparr>]\<rparr>,
                              [response], Ok ()))
                   else (sv, [response], Ok ()))))"

text \<open>The end of the sleep: the message is given back if the client still holds it.\<close>

definition auto_fail :: "timer \<Rightarrow> queue \<Rightarrow> queue" where
  "auto_fail t q =
     (if is_locked (tm_client t) (tm_message t) q
      then fst (unlock (tm_client t) (Some (tm_message t)) q) else q)"

definition wake_timer :: "usize \<Rightarrow> server \<Rightarrow> server" where
  "wake_timer i sv =
     (if i < length (sv_timers sv) then
        (let t = sv_timers sv ! i; sv = sv\<lparr>sv_timers := vec_remove i (sv_timers sv)\<rparr>
         in case hm_get (sv_queue sv) (tm_queue t) of
              Some q \<Rightarrow> put_queue (tm_queue t) (auto_fail t q) sv
            | None \<Rightarrow> sv)
      else sv)"

definition dequeue_message_sent ::
  "env \<Rightarrow> string \<Rightarrow> u128 \<Rightarrow> u128 option \<Rightarrow> server \<Rightarrow> server \<times> (io_error, unit) result" where
  "dequeue_message_sent env name client message_id sv =
     (case get_queue name sv of
        Ok (hash, q) \<Rightarrow>
          (case dequeue client message_id q of
             (q, Ok bytes) \<Rightarrow>
               (if scaled_size bytes \<ge> ar_locked_size (sv_arena sv) then
                  (case get_next_biggest_payload (env_visit env) q of
                     (q, Ok biggest) \<Rightarrow>
                       ((put_queue hash q sv)\<lparr>sv_arena := fst (set_locked_size biggest (sv_arena sv))\<rparr>, Ok ())
                   | (q, Err _) \<Rightarrow> (put_queue hash q sv, Ok ())
                   | (q, Panic) \<Rightarrow> (put_queue hash q sv, Panic))
                else (put_queue hash q sv, Ok ()))
           | (q, Err e) \<Rightarrow> (put_queue hash q sv, Err (IoError BrokenPipe (err_text e)))
           | (q, Panic) \<Rightarrow> (put_queue hash q sv, Panic))
      | Err _ \<Rightarrow> (sv, Err (IoError BrokenPipe ''Failed to clear message sent''))
      | Panic \<Rightarrow> (sv, Panic))"

section \<open>The handlers\<close>

text \<open>
  The shape most handlers share: find the queue, run one queue operation on it, answer with an
  empty success or with the code of the handler.
\<close>

definition finish ::
  "u128 \<Rightarrow> error_code \<Rightarrow> server \<Rightarrow> queue \<times> (io_error, 'a) result \<Rightarrow> handled" where
  "finish hash code sv outcome =
     (case outcome of
        (q, Ok _) \<Rightarrow> Handled (put_queue hash q sv) [succeeded []]
      | (q, Err _) \<Rightarrow> Handled (put_queue hash q sv) [failed code]
      | (q, Panic) \<Rightarrow> Crashed (put_queue hash q sv))"

definition with_queue :: "string \<Rightarrow> server \<Rightarrow> (u128 \<Rightarrow> queue \<Rightarrow> handled) \<Rightarrow> handled" where
  "with_queue name sv body =
     (case get_queue name sv of
        Ok (hash, q) \<Rightarrow> body hash q
      | Err e \<Rightarrow> Handled sv [failed e]
      | Panic \<Rightarrow> Crashed sv)"

definition handle_enqueue :: "env \<Rightarrow> frame \<Rightarrow> server \<Rightarrow> handled" where
  "handle_enqueue env f sv =
     (case get_message (fr_message f) of
        None \<Rightarrow> Handled sv [failed RequestParseError]
      | Some message \<Rightarrow>
          with_queue (fr_queue_name f) sv (\<lambda>hash q.
            case enqueue (env_now env) (rm_payload message) (fr_client_id f) q of
              (q, Ok _) \<Rightarrow>
                (let sv = put_queue hash q sv;
                     bytes = scaled_size (unat (fr_payload_size f));
                     sv = (if bytes > ar_locked_size (sv_arena sv)
                           then sv\<lparr>sv_arena := fst (set_locked_size bytes (sv_arena sv))\<rparr> else sv)
                 in Handled sv [succeeded []])
            | (q, Err _) \<Rightarrow> Handled (put_queue hash q sv) [failed QueueIsEmpty]
            | (q, Panic) \<Rightarrow> Crashed (put_queue hash q sv)))"

definition handle_dequeue :: "env \<Rightarrow> frame \<Rightarrow> server \<Rightarrow> handled" where
  "handle_dequeue env f sv =
     (case lock_and_dequeue_message env (fr_queue_name f) (fr_client_id f) sv of
        (sv, rs, Ok _) \<Rightarrow> Handled sv rs
      | (sv, rs, Err e) \<Rightarrow> Handled sv (rs @ [failed e])
      | (sv, rs, Panic) \<Rightarrow> Crashed sv)"

text \<open>
  Creating and deleting take both maps for writing; a sleeping timer holds the queue map for
  reading. \<open>Blocked\<close> is the request waiting with the guard of the names; what it holds back
  meanwhile is in \<open>Connection\<close> (\<open>cn_waiting\<close>) and in \<open>Server_Locks\<close>.
\<close>

definition handle_create :: "env \<Rightarrow> frame \<Rightarrow> server \<Rightarrow> handled" where
  "handle_create env f sv =
     (if sv_timers sv \<noteq> [] then Blocked
      else if hm_contains_key (sv_queue_names sv) (fr_queue_name f)
      then Handled sv [failed QueueAlreadyExists]
      else Handled (create_queue (fr_queue_name f) (env_uuid env) sv) [succeeded []])"

definition handle_delete :: "frame \<Rightarrow> server \<Rightarrow> handled" where
  "handle_delete f sv =
     (if sv_timers sv \<noteq> [] then Blocked
      else case hm_get (sv_queue_names sv) (fr_queue_name f) of
        Some hash \<Rightarrow>
          Handled (sv\<lparr>sv_queue_names := hm_remove (fr_queue_name f) (sv_queue_names sv),
                      sv_queue := hm_remove hash (sv_queue sv)\<rparr>) [succeeded []]
      | None \<Rightarrow> Handled sv [failed QueueDoesNotExist])"

definition handle_list :: "env \<Rightarrow> frame \<Rightarrow> server \<Rightarrow> handled" where
  "handle_list env f sv =
     (case hm_get (sv_queue_names sv) (fr_queue_name f) of
        Some hash \<Rightarrow>
          (case hm_get (sv_queue sv) hash of
             Some q \<Rightarrow>
               (let metas = (case list_messages (env_visit env) q of Ok ms \<Rightarrow> ms | _ \<Rightarrow> [])
                in Handled sv [succeeded (concat (map meta_to_be_bytes metas))])
           | None \<Rightarrow> Handled sv [failed QueueHashNotFound])
      | None \<Rightarrow> Handled sv [failed QueueHashNotFound])"

text \<open>A payload of 16 bytes at least is read without a check of its real length.\<close>

definition handle_delete_message :: "frame \<Rightarrow> server \<Rightarrow> handled" where
  "handle_delete_message f sv =
     (case get_message (fr_message f) of
        None \<Rightarrow> Handled sv [failed RequestParseError]
      | Some message \<Rightarrow>
          with_queue (fr_queue_name f) sv (\<lambda>hash q.
            if unat (fr_payload_size f) < 16 then Handled sv [failed PayloadMissingMessageId]
            else if length (rm_payload message) < 16 then Crashed sv
            else finish hash NoSuchMessageId sv
                   (dequeue (fr_client_id f) (Some (message_id_of (rm_payload message))) q)))"

definition handle_succeeded :: "env \<Rightarrow> frame \<Rightarrow> server \<Rightarrow> handled" where
  "handle_succeeded env f sv =
     (case dequeue_message_sent env (fr_queue_name f) (fr_client_id f) None sv of
        (sv, Ok _) \<Rightarrow> Handled sv [succeeded []]
      | (sv, Err _) \<Rightarrow> Handled sv [failed NoSuchMessageIdLocked]
      | (sv, Panic) \<Rightarrow> Crashed sv)"

definition handle_failed :: "frame \<Rightarrow> server \<Rightarrow> handled" where
  "handle_failed f sv =
     with_queue (fr_queue_name f) sv (\<lambda>hash q.
       finish hash MessageNotLockedByClient sv (unlock (fr_client_id f) None q))"

definition handle_requeue :: "env \<Rightarrow> frame \<Rightarrow> server \<Rightarrow> handled" where
  "handle_requeue env f sv =
     (case get_message (fr_message f) of
        None \<Rightarrow> Handled sv [failed RequestParseError]
      | Some message \<Rightarrow>
          with_queue (fr_queue_name f) sv (\<lambda>hash q.
            if unat (fr_payload_size f) < 16 then Handled sv [failed PayloadMissingMessageId]
            else if length (rm_payload message) < 16 then Crashed sv
            else finish hash MessageNotInQueue sv
                   (requeue (env_now env) (fr_client_id f) (message_id_of (rm_payload message)) q)))"

text \<open>\<open>UpdateM\<close> reads the id before it looks for the queue.\<close>

definition handle_update_message :: "frame \<Rightarrow> server \<Rightarrow> handled" where
  "handle_update_message f sv =
     (case get_message (fr_message f) of
        None \<Rightarrow> Handled sv [failed RequestParseError]
      | Some message \<Rightarrow>
          if unat (fr_payload_size f) < 16 then Handled sv [failed PayloadMissingMessageId]
          else if length (rm_payload message) < 16 then Crashed sv
          else with_queue (fr_queue_name f) sv (\<lambda>hash q.
            finish hash MessageNotInQueue sv
              (update_message (message_id_of (rm_payload message)) (drop 16 (rm_payload message)) q)))"

definition apply_config :: "net_queue_config \<Rightarrow> queue \<Rightarrow> queue" where
  "apply_config c q =
     (let q = (case net_auto_fail c of Some v \<Rightarrow> update_config_auto_fail v q | None \<Rightarrow> q)
      in case net_fail_timeout c of Some t \<Rightarrow> update_config_fail_timeout t q | None \<Rightarrow> q)"

definition handle_update_queue :: "frame \<Rightarrow> server \<Rightarrow> handled" where
  "handle_update_queue f sv =
     (case get_message (fr_message f) of
        None \<Rightarrow> Handled sv [failed RequestParseError]
      | Some message \<Rightarrow>
          with_queue (fr_queue_name f) sv (\<lambda>hash q.
            if unat (fr_payload_size f) < 1 then Handled sv [failed InvalidConfigPayloadSize]
            else case net_config_from_be_bytes (rm_payload message) of
              Ok (c, _) \<Rightarrow> Handled (put_queue hash (apply_config c q) sv) [succeeded []]
            | Err _ \<Rightarrow> Handled sv [failed ConfigBytesEmpty]
            | Panic \<Rightarrow> Crashed sv))"

text \<open>The names are visited in turn; a name without a queue is passed over.\<close>

fun collect_stats ::
    "(u128 \<Rightarrow> capacities) \<Rightarrow> (u128, queue) hash_map \<Rightarrow> (string \<times> u128) list \<Rightarrow> stat_watcher
     \<Rightarrow> (error_code, stat_watcher) result" where
  "collect_stats caps queues [] w = Ok w"
| "collect_stats caps queues ((name, hash) # rest) w =
     (case hm_get queues hash of
        Some q \<Rightarrow> result_bind (new_stat name (caps hash) q w) (collect_stats caps queues rest)
      | None \<Rightarrow> collect_stats caps queues rest w)"

definition handle_net_stats :: "env \<Rightarrow> server \<Rightarrow> handled" where
  "handle_net_stats env sv =
     (case collect_stats (env_caps env) (sv_queue sv) (env_visit_names env (sv_queue_names sv)) stat_watcher_new of
        Ok w \<Rightarrow> Handled sv [succeeded (stat_watcher_to_bytes w)]
      | Err e \<Rightarrow> Handled sv [failed e]
      | Panic \<Rightarrow> Crashed sv)"

definition handle_request :: "env \<Rightarrow> frame \<Rightarrow> server \<Rightarrow> handled" where
  "handle_request env f sv =
     (case fr_command f of
        ReqEnqueue \<Rightarrow> handle_enqueue env f sv
      | ReqDequeue \<Rightarrow> handle_dequeue env f sv
      | ReqCreateQ \<Rightarrow> handle_create env f sv
      | ReqDeleteQ \<Rightarrow> handle_delete f sv
      | ReqListM \<Rightarrow> handle_list env f sv
      | ReqDeleteM \<Rightarrow> handle_delete_message f sv
      | ReqSucceeded \<Rightarrow> handle_succeeded env f sv
      | ReqFailed \<Rightarrow> handle_failed f sv
      | ReqRequeue \<Rightarrow> handle_requeue env f sv
      | ReqUpdateM \<Rightarrow> handle_update_message f sv
      | ReqUpdateQ \<Rightarrow> handle_update_queue f sv
      | ReqNetStats \<Rightarrow> handle_net_stats env sv)"

end
