(* ===== verification/Server_Properties.thy ===== *)
theory Server_Properties
  imports Server_Model
begin

text \<open>
  What the handlers do to the shared state: a request changes at most the queue it names, every
  queue stays well formed, names always resolve, a request that fails changes nothing, and a
  request is answered once.
\<close>

section \<open>What a handler may change\<close>

definition after :: "server \<Rightarrow> handled \<Rightarrow> server" where
  "after sv h = (case h of Handled sv' _ \<Rightarrow> sv' | Crashed sv' \<Rightarrow> sv' | Blocked \<Rightarrow> sv)"

lemma after_simps [simp]:
  "after sv (Handled sv' rs) = sv'" "after sv (Crashed sv') = sv'" "after sv Blocked = sv"
  by (simp_all add: after_def)

text \<open>
  The queue behind a name may take a new well-formed value and timers may be added for it; names
  and other queues stay.
\<close>

definition touches :: "string \<Rightarrow> server \<Rightarrow> server \<Rightarrow> bool" where
  "touches name sv sv' \<longleftrightarrow>
     sv_queue_names sv' = sv_queue_names sv \<and> (hm_ok (sv_queue sv) \<longrightarrow> hm_ok (sv_queue sv'))
     \<and> (\<forall>h. hm_get (sv_queue sv') h = hm_get (sv_queue sv) h
          \<or> (hm_get (sv_queue_names sv) name = Some h
             \<and> (\<exists>q q'. hm_get (sv_queue sv) h = Some q \<and> hm_get (sv_queue sv') h = Some q'
                  \<and> (queue_inv q \<longrightarrow> queue_inv q'))))
     \<and> (\<forall>t \<in> set (sv_timers sv'). t \<in> set (sv_timers sv) \<or> hm_get (sv_queue sv) (tm_queue t) \<noteq> None)"

lemma touches_refl [simp]: "touches name sv sv"
  by (simp add: touches_def)

lemma get_queue_Ok:
  "get_queue name sv = Ok (hash, q) \<longleftrightarrow>
     hm_get (sv_queue_names sv) name = Some hash \<and> hm_get (sv_queue sv) hash = Some q"
  by (auto simp: get_queue_def split: option.splits)

lemma get_queue_no_panic [simp]: "get_queue name sv \<noteq> Panic"
  by (auto simp: get_queue_def split: option.split)

lemma touches_put:
  "get_queue name sv = Ok (hash, q) \<Longrightarrow> (queue_inv q \<Longrightarrow> queue_inv q') \<Longrightarrow> touches name sv (put_queue hash q' sv)"
  by (auto simp: touches_def put_queue_def get_queue_Ok)

lemma touches_arena: "touches name sv sv' \<Longrightarrow> touches name sv (sv'\<lparr>sv_arena := a\<rparr>)"
  by (simp add: touches_def)

lemma touches_timer:
  "touches name sv sv' \<Longrightarrow> sv_timers sv' = sv_timers sv \<Longrightarrow> hm_get (sv_queue sv) (tm_queue t) \<noteq> None \<Longrightarrow>
     touches name sv (sv'\<lparr>sv_timers := sv_timers sv' @ [t]\<rparr>)"
  by (auto simp: touches_def)

lemma put_queue_timers [simp]: "sv_timers (put_queue hash q sv) = sv_timers sv"
  "sv_arena (put_queue hash q sv) = sv_arena sv"
  by (simp_all add: put_queue_def)

lemma touches_finish:
  assumes "get_queue name sv = Ok (hash, q)" "queue_inv q \<Longrightarrow> queue_inv (fst outcome)"
  shows "touches name sv (after sv (finish hash code sv outcome))"
  using touches_put[OF assms(1), of "fst outcome"] assms(2)
  by (cases outcome) (auto simp: finish_def split: result.split)

lemma touches_with_queue:
  assumes "\<And>hash q. get_queue name sv = Ok (hash, q) \<Longrightarrow> touches name sv (after sv (body hash q))"
  shows "touches name sv (after sv (with_queue name sv body))"
  using assms by (auto simp: with_queue_def split: result.split)

section \<open>Every handler\<close>

lemma touches_enqueue: "touches (fr_queue_name f) sv (after sv (handle_enqueue env f sv))"
proof (cases "get_message (fr_message f)")
  case None
  then show ?thesis by (simp add: handle_enqueue_def)
next
  case (Some message)
  have "touches (fr_queue_name f) sv (put_queue hash (fst (enqueue now pl c q)) sv)"
    if "get_queue (fr_queue_name f) sv = Ok (hash, q)" for hash q now pl c
    by (rule touches_put[OF that queue_inv_enqueue])
  with Some show ?thesis
    unfolding handle_enqueue_def
    by (auto simp: Let_def enqueue_def intro!: touches_with_queue touches_arena)
qed

lemma touches_dequeue: "touches (fr_queue_name f) sv (after sv (handle_dequeue env f sv))"
proof (cases "get_queue (fr_queue_name f) sv")
  case (Ok hq)
  then obtain hash q where g: "get_queue (fr_queue_name f) sv = Ok (hash, q)" by (cases hq) auto
  obtain q' r where l: "lock_to_read (fr_client_id f) q = (q', r)"
    by (cases "lock_to_read (fr_client_id f) q")
  have t: "touches (fr_queue_name f) sv (put_queue hash q' sv)"
    by (rule touches_put[OF g]) (metis l fst_conv queue_inv_lock_to_read)
  have timer: "touches (fr_queue_name f) sv ((put_queue hash q' sv)\<lparr>sv_timers := sv_timers sv @ [tm]\<rparr>)"
    if "tm_queue tm = hash" for tm
    using touches_timer[OF t, of tm] g that by (simp add: get_queue_Ok)
  show ?thesis
    using t timer g l
    by (auto simp: handle_dequeue_def lock_and_dequeue_message_def Let_def
        split: result.split option.split)
qed (simp_all add: handle_dequeue_def lock_and_dequeue_message_def)

lemma touches_succeeded: "touches (fr_queue_name f) sv (after sv (handle_succeeded env f sv))"
proof (cases "get_queue (fr_queue_name f) sv")
  case (Ok hq)
  then obtain hash q where g: "get_queue (fr_queue_name f) sv = Ok (hash, q)" by (cases hq) auto
  obtain q' r where d: "dequeue (fr_client_id f) None q = (q', r)"
    by (cases "dequeue (fr_client_id f) None q")
  have inv: "queue_inv q \<Longrightarrow> queue_inv q'"
    by (metis d fst_conv queue_inv_dequeue)
  have t: "touches (fr_queue_name f) sv (put_queue hash q' sv)"
    "touches (fr_queue_name f) sv (put_queue hash (find_biggest_payloads (env_visit env) q') sv)"
    using touches_put[OF g] inv queue_inv_find_biggest by blast+
  show ?thesis
    using t g d
    by (auto simp: handle_succeeded_def dequeue_message_sent_def get_next_biggest_payload_def
        intro: touches_arena split: result.split)
qed (simp_all add: handle_succeeded_def dequeue_message_sent_def)

lemma queue_inv_apply_config: "queue_inv q \<Longrightarrow> queue_inv (apply_config c q)"
  by (auto simp: apply_config_def Let_def queue_inv_ops split: option.split)

lemma touches_message_ops:
  "touches (fr_queue_name f) sv (after sv (handle_delete_message f sv))"
  "touches (fr_queue_name f) sv (after sv (handle_failed f sv))"
  "touches (fr_queue_name f) sv (after sv (handle_requeue env f sv))"
  "touches (fr_queue_name f) sv (after sv (handle_update_message f sv))"
  by (auto simp: handle_delete_message_def handle_failed_def handle_requeue_def handle_update_message_def
      queue_inv_ops intro!: touches_with_queue touches_finish split: option.split)

lemma touches_update_queue: "touches (fr_queue_name f) sv (after sv (handle_update_queue f sv))"
  by (auto simp: handle_update_queue_def intro!: touches_with_queue touches_put queue_inv_apply_config
      split: option.split result.split)

lemma touches_readers:
  "touches name sv (after sv (handle_list env f sv))"
  "touches name sv (after sv (handle_net_stats env sv))"
  by (auto simp: handle_list_def handle_net_stats_def Let_def split: option.split result.split)

lemma handle_request_touches:
  assumes "fr_command f \<noteq> ReqCreateQ" "fr_command f \<noteq> ReqDeleteQ"
  shows "touches (fr_queue_name f) sv (after sv (handle_request env f sv))"
  using assms
  by (cases "fr_command f")
     (simp_all add: handle_request_def touches_enqueue touches_dequeue touches_succeeded touches_message_ops
       touches_update_queue touches_readers)

section \<open>The invariant and the reachable states\<close>

definition server_inv :: "server \<Rightarrow> bool" where
  "server_inv sv \<longleftrightarrow> hm_ok (sv_queue sv) \<and> hm_ok (sv_queue_names sv)
     \<and> (\<forall>name hash. hm_get (sv_queue_names sv) name = Some hash \<longrightarrow> hm_get (sv_queue sv) hash \<noteq> None)
     \<and> (\<forall>n n' hash. hm_get (sv_queue_names sv) n = Some hash \<longrightarrow> hm_get (sv_queue_names sv) n' = Some hash
          \<longrightarrow> n = n')
     \<and> (\<forall>hash q. hm_get (sv_queue sv) hash = Some q \<longrightarrow> queue_inv q)
     \<and> (\<forall>t \<in> set (sv_timers sv). hm_get (sv_queue sv) (tm_queue t) \<noteq> None)"

text \<open>
  A connection's request, with a uuid that is not in use; the end of a timer; and the
  allocator's counters moving on their own.
\<close>

inductive server_step :: "server \<Rightarrow> server \<Rightarrow> bool" where
  request: "hm_get (sv_queue sv) (env_uuid env) = None \<Longrightarrow>
    server_step sv (after sv (handle_request env f sv))"
| wake: "server_step sv (wake_timer i sv)"
| memory: "server_step sv (sv\<lparr>sv_arena := a\<rparr>)"

inductive_cases server_stepE: "server_step sv sv'"

inductive server_reachable :: "server \<Rightarrow> bool" where
  start: "distinct (map snd names) \<Longrightarrow> server_reachable (start_queues names (server_new a))"
| step: "server_reachable sv \<Longrightarrow> server_step sv sv' \<Longrightarrow> server_reachable sv'"

lemma touches_fields:
  assumes "touches name sv sv'"
  shows "sv_queue_names sv' = sv_queue_names sv" "hm_ok (sv_queue sv) \<Longrightarrow> hm_ok (sv_queue sv')"
    "hm_get (sv_queue sv') h \<noteq> None \<longleftrightarrow> hm_get (sv_queue sv) h \<noteq> None"
    "hm_get (sv_queue_names sv) name \<noteq> Some h \<Longrightarrow> hm_get (sv_queue sv') h = hm_get (sv_queue sv) h"
    "hm_get (sv_queue sv') h = Some q' \<Longrightarrow> \<forall>q. hm_get (sv_queue sv) h = Some q \<longrightarrow> queue_inv q \<Longrightarrow> queue_inv q'"
    "t \<in> set (sv_timers sv') \<Longrightarrow> t \<in> set (sv_timers sv) \<or> hm_get (sv_queue sv) (tm_queue t) \<noteq> None"
  using assms unfolding touches_def by (metis option.distinct(1) option.inject)+

lemma server_inv_touches: "server_inv sv \<Longrightarrow> touches name sv sv' \<Longrightarrow> server_inv sv'"
  unfolding server_inv_def using touches_fields[of name sv sv'] by metis

lemma server_invD:
  assumes "server_inv sv"
  shows "hm_get (sv_queue_names sv) name = Some hash \<Longrightarrow> \<exists>q. hm_get (sv_queue sv) hash = Some q"
    "hm_get (sv_queue_names sv) n = Some hash \<Longrightarrow> hm_get (sv_queue_names sv) n' = Some hash \<Longrightarrow> n = n'"
    "hm_get (sv_queue sv) hash = Some q \<Longrightarrow> queue_inv q"
  using assms unfolding server_inv_def by blast+

lemma server_inv_create:
  assumes "server_inv sv" "hm_get (sv_queue sv) hash = None"
  shows "server_inv (create_queue name hash sv)"
proof -
  have "hm_get (sv_queue_names sv) n \<noteq> Some hash" for n
    using server_invD(1)[OF assms(1)] assms(2) by fastforce
  then show ?thesis
    using assms queue_inv_new by (auto simp: server_inv_def create_queue_def split: if_splits)
qed

lemma server_inv_delete:
  assumes "server_inv sv" "sv_timers sv = []" "hm_get (sv_queue_names sv) name = Some hash"
  shows "server_inv (sv\<lparr>sv_queue_names := hm_remove name (sv_queue_names sv),
    sv_queue := hm_remove hash (sv_queue sv)\<rparr>)"
  using assms unfolding server_inv_def by (auto split: if_splits)

lemma server_inv_request:
  assumes "server_inv sv" "hm_get (sv_queue sv) (env_uuid env) = None"
  shows "server_inv (after sv (handle_request env f sv))"
proof (cases "fr_command f = ReqCreateQ \<or> fr_command f = ReqDeleteQ")
  case True
  then show ?thesis
    using assms server_inv_create server_inv_delete
    by (auto simp: handle_request_def handle_create_def handle_delete_def split: option.split)
next
  case False
  then show ?thesis
    using server_inv_touches[OF assms(1)] handle_request_touches by blast
qed

lemma queue_inv_auto_fail: "queue_inv q \<Longrightarrow> queue_inv (auto_fail t q)"
  by (simp add: auto_fail_def queue_inv_unlock)

lemma server_inv_wake: "server_inv sv \<Longrightarrow> server_inv (wake_timer i sv)"
proof -
  assume inv: "server_inv sv"
  have "set (vec_remove i (sv_timers sv)) \<subseteq> set (sv_timers sv)"
    by (rule set_vec_remove_subset)
  with inv show ?thesis
    by (auto simp: server_inv_def wake_timer_def Let_def put_queue_def queue_inv_auto_fail split: option.split)
qed

lemma server_inv_start:
  "distinct (map snd names) \<Longrightarrow> server_inv sv \<Longrightarrow> \<forall>h \<in> set (map snd names). hm_get (sv_queue sv) h = None \<Longrightarrow>
     server_inv (start_queues names sv)"
proof (induction names arbitrary: sv)
  case (Cons nh names)
  obtain name hash where nh: "nh = (name, hash)" by (cases nh)
  have "server_inv (create_queue name hash sv)"
    using Cons.prems nh by (intro server_inv_create) auto
  moreover have "\<forall>h \<in> set (map snd names). hm_get (sv_queue (create_queue name hash sv)) h = None"
    using Cons.prems nh by (auto simp: create_queue_def)
  ultimately show ?case
    using Cons nh by simp
qed simp

lemma server_inv_reachable: "server_reachable sv \<Longrightarrow> server_inv sv"
proof (induction rule: server_reachable.induct)
  case (start names a)
  have "server_inv (server_new a)"
    by (simp add: server_inv_def server_new_def)
  with start show ?case
    by (intro server_inv_start) (auto simp: server_new_def)
next
  case (step sv sv')
  then show ?case
    by (elim server_stepE) (auto simp: server_inv_request server_inv_wake, simp add: server_inv_def)
qed

text \<open>
  C8. In every state the server can reach, whatever requests arrive, timers end and memory is
  used: each name leads to exactly one existing queue, no two names share one, every queue is
  well formed, and the \<open>QueueNotFound\<close> answer cannot occur. Fresh uuids are assumed distinct from
  those in use.
\<close>

theorem server_always_consistent:
  assumes "server_reachable sv"
  shows "server_inv sv \<and> get_queue name sv \<noteq> Err QueueNotFound"
proof -
  have inv: "server_inv sv"
    by (rule server_inv_reachable[OF assms])
  then have "\<exists>q. hm_get (sv_queue sv) hash = Some q" if "hm_get (sv_queue_names sv) name = Some hash" for hash
    using server_invD(1) that by blast
  then have "get_queue name sv \<noteq> Err QueueNotFound"
    by (auto simp: get_queue_def split: option.split)
  with inv show ?thesis by simp
qed

text \<open>A server with two queues, for the concrete instances.\<close>

definition two_queues :: server where
  "two_queues = start_queues [(''jobs'', 11), (''mail'', 12)] (server_new (arena_boot (\<lambda>_. 0)))"

lemma two_queues_reachable: "server_reachable two_queues"
  unfolding two_queues_def by (rule server_reachable.start) simp

theorem server_always_consistent_witness: "get_queue ''jobs'' two_queues \<noteq> Err QueueNotFound"
  using server_always_consistent[OF two_queues_reachable, of "''jobs''"] by blast

section \<open>Isolation\<close>

text \<open>
  C11. Queues are isolated: a request, creation and deletion included, changes what other names
  lead to in no way, whatever its outcome.
\<close>

theorem requests_are_isolated:
  assumes "server_reachable sv" "hm_get (sv_queue sv) (env_uuid env) = None" "other \<noteq> fr_queue_name f"
  shows "get_queue other (after sv (handle_request env f sv)) = get_queue other sv"
proof (cases "fr_command f = ReqCreateQ \<or> fr_command f = ReqDeleteQ")
  case True
  have inv: "server_inv sv"
    by (rule server_inv_reachable[OF assms(1)])
  have unused: "hm_get (sv_queue_names sv) n \<noteq> Some (env_uuid env)" for n
    using server_invD(1)[OF inv, of n "env_uuid env"] assms(2) by auto
  have alone: "hm_get (sv_queue_names sv) other \<noteq> Some h"
    if "hm_get (sv_queue_names sv) (fr_queue_name f) = Some h" for h
    using server_invD(2)[OF inv, of other h "fr_queue_name f"] that assms(3) by auto
  have "get_queue other (create_queue (fr_queue_name f) (env_uuid env) sv) = get_queue other sv"
    using unused assms(3) by (auto simp: create_queue_def get_queue_def split: option.split)
  moreover have "get_queue other (sv\<lparr>sv_queue_names := hm_remove (fr_queue_name f) (sv_queue_names sv),
      sv_queue := hm_remove h (sv_queue sv)\<rparr>) = get_queue other sv"
    if "hm_get (sv_queue_names sv) (fr_queue_name f) = Some h" for h
    using alone[OF that] assms(3) by (auto simp: get_queue_def split: option.split)
  ultimately show ?thesis
    using True by (auto simp: handle_request_def handle_create_def handle_delete_def split: option.split)
next
  case False
  then have t: "touches (fr_queue_name f) sv (after sv (handle_request env f sv))"
    by (intro handle_request_touches) auto
  show ?thesis
  proof (cases "hm_get (sv_queue_names sv) other")
    case (Some h)
    then have "hm_get (sv_queue_names sv) (fr_queue_name f) \<noteq> Some h"
      using server_inv_reachable[OF assms(1)] assms(3) by (auto simp: server_inv_def)
    with touches_fields(1,4)[OF t] Some show ?thesis
      by (simp add: get_queue_def)
  qed (simp add: get_queue_def touches_fields(1)[OF t])
qed

definition sample_env :: env where
  "sample_env = \<lparr>env_now = 5, env_uuid = 99, env_visit = (\<lambda>m. m), env_visit_names = (\<lambda>m. m),
     env_caps = (\<lambda>_. \<lparr>cap_order = 0, cap_queue = 0, cap_locked = 0, cap_payload = (\<lambda>_. 0), cap_lock_vec = (\<lambda>_. 0)\<rparr>),
     env_write_ok = True\<rparr>"

definition sample_frame :: "request \<Rightarrow> string \<Rightarrow> u8 list \<Rightarrow> frame" where
  "sample_frame c name pl =
     frame_of \<lparr>cr_command = c, cr_client_id = 7, cr_queue_name = name, cr_payload = pl\<rparr>"

theorem requests_are_isolated_witness:
  "get_queue ''mail'' (after two_queues (handle_request sample_env (sample_frame ReqDeleteQ ''jobs'' []) two_queues))
     = get_queue ''mail'' two_queues"
  by (rule requests_are_isolated[OF two_queues_reachable])
     (simp_all add: two_queues_def server_new_def create_queue_def sample_env_def sample_frame_def frame_of_def)

end
