(* ===== verification/Server_Behaviour.thy ===== *)
theory Server_Behaviour
  imports Server_Properties
begin

text \<open>
  What a client observes: failures leave the state alone, each request is answered once, the life
  of a queue and of a message through the handlers, and the behaviour of delivery when the socket
  or a timer interferes.
\<close>

section \<open>A failing operation leaves its queue alone\<close>

lemma lock_to_read_Err: "lock_to_read c q = (q', Err e) \<Longrightarrow> q' = q"
  by (auto simp: lock_to_read_def Let_def split: option.splits if_splits)

lemma lock_to_read_no_panic: "lock_to_read c q \<noteq> (q', Panic)"
  by (auto simp: lock_to_read_def Let_def split: option.splits)

lemma lock_to_read_id: "lock_to_read c q = (q', Ok (bytes, mid)) \<Longrightarrow> \<exists>m. mid = Some m"
  by (auto simp: lock_to_read_def Let_def split: option.splits if_splits) metis+

lemma dequeue_by_id_Ok: "\<exists>n. snd (dequeue_by_id c m message q) = Ok n"
  by (auto simp: dequeue_by_id_def Let_def position_None split: option.split)

lemma dequeue_stored: "q_order q \<noteq> [] \<Longrightarrow> hm_get (q_queue q) m \<noteq> None \<Longrightarrow> \<exists>n. snd (dequeue c (Some m) q) = Ok n"
  using dequeue_by_id_Ok by (auto simp: dequeue_def)

lemma dequeue_Err: "dequeue c mid q = (q', Err e) \<Longrightarrow> q' = q"
  using dequeue_by_id_Ok[of c "the mid" _ q]
  by (auto simp: dequeue_def dequeue_first_locked_def Let_def split: option.splits list.splits if_splits)
    (metis result.distinct(1) snd_conv)

lemma dequeue_Panic:
  "dequeue c mid q = (q', Panic) \<Longrightarrow>
     \<exists>i ids. hm_get (q_locked q) c = Some (i # ids) \<and> hm_get (q_queue q) i = None"
  using dequeue_by_id_Ok[of c "the mid" _ q]
  by (auto simp: dequeue_def dequeue_first_locked_def Let_def split: option.splits list.splits if_splits)
    (metis result.distinct snd_conv)+

lemma unlock_Err: "unlock c mid q = (q', Err e) \<Longrightarrow> q' = q"
  by (auto simp: unlock_def Let_def split: option.splits list.splits if_splits)

lemma unlock_no_panic: "unlock c mid q \<noteq> (q', Panic)"
  by (auto simp: unlock_def Let_def position_None split: option.splits list.splits if_splits)

lemma update_message_Err: "update_message m pl q = (q', Err e) \<Longrightarrow> q' = q"
  by (auto simp: update_message_def split: option.splits if_splits)

lemma update_message_no_panic: "update_message m pl q \<noteq> (q', Panic)"
  by (auto simp: update_message_def split: option.splits if_splits)

lemma requeue_stored:
  assumes "q_order q \<noteq> []" "hm_get (q_queue q) m \<noteq> None"
  shows "snd (requeue now c m q) = Ok ()"
proof -
  obtain msg where msg: "hm_get (q_queue q) m = Some msg"
    using assms(2) by auto
  obtain q1 where q1: "enqueue now (payload msg) (publisher_id msg) q = (q1, Ok ())"
      "q_order q1 \<noteq> []" "hm_get (q_queue q1) m \<noteq> None"
    using msg by (auto simp: enqueue_def Let_def)
  then obtain q2 n where "dequeue c (Some m) q1 = (q2, Ok n)"
    using dequeue_stored[of q1 m c] by (metis prod.collapse)
  with q1 msg assms(1) show ?thesis
    by (simp add: requeue_def)
qed

lemma requeue_Err: "requeue now c m q = (q', Err e) \<Longrightarrow> q' = q"
proof (cases "q_order q = [] \<or> hm_get (q_queue q) m = None")
  case False
  then have "snd (requeue now c m q) = Ok ()"
    by (intro requeue_stored) auto
  then show "requeue now c m q = (q', Err e) \<Longrightarrow> q' = q" by simp
qed (auto simp: requeue_def split: if_splits)

lemma requeue_no_panic: "requeue now c m q \<noteq> (q', Panic)"
proof (cases "q_order q = [] \<or> hm_get (q_queue q) m = None")
  case False
  then have "snd (requeue now c m q) = Ok ()"
    by (intro requeue_stored) auto
  then show ?thesis by auto
qed (auto simp: requeue_def split: if_splits)

lemmas queue_errors = lock_to_read_Err dequeue_Err unlock_Err update_message_Err requeue_Err
lemmas queue_no_panics = lock_to_read_no_panic unlock_no_panic update_message_no_panic requeue_no_panic

section \<open>Failing requests\<close>

lemma put_queue_same: "get_queue name sv = Ok (hash, q) \<Longrightarrow> put_queue hash q sv = sv"
  by (simp add: put_queue_def get_queue_Ok hm_get_def hm_insert_def update_triv)

lemma succeeded_not_failed [simp]: "succeeded pl \<noteq> failed e" "failed e \<noteq> succeeded pl"
  by (simp_all add: succeeded_def failed_def response_message_new_def)

text \<open>An outcome that leaves the state alone whenever it contains a failure.\<close>

definition keeps_on_failure :: "server \<Rightarrow> handled \<Rightarrow> bool" where
  "keeps_on_failure sv h \<longleftrightarrow> (\<forall>sv' rs e. h = Handled sv' rs \<longrightarrow> failed e \<in> set rs \<longrightarrow> sv' = sv)"

lemma keeps_finish:
  assumes "get_queue name sv = Ok (hash, q)" "\<And>q' e. outcome = (q', Err e) \<Longrightarrow> q' = q"
  shows "keeps_on_failure sv (finish hash code sv outcome)"
  using assms put_queue_same[OF assms(1)]
  by (cases outcome) (auto simp: keeps_on_failure_def finish_def split: result.splits)

lemma keeps_with_queue:
  assumes "\<And>hash q. get_queue name sv = Ok (hash, q) \<Longrightarrow> keeps_on_failure sv (body hash q)"
  shows "keeps_on_failure sv (with_queue name sv body)"
  using assms by (auto simp: keeps_on_failure_def with_queue_def split: result.splits)

lemma keeps_unchanged [simp]: "keeps_on_failure sv (Handled sv rs)" "keeps_on_failure sv (Crashed sv')"
  "keeps_on_failure sv Blocked" "keeps_on_failure sv (Handled sv' [succeeded pl])"
  by (auto simp: keeps_on_failure_def)

lemma keeps_dequeue:
  assumes "env_write_ok env"
  shows "keeps_on_failure sv (handle_dequeue env f sv)"
proof (cases "get_queue (fr_queue_name f) sv")
  case (Ok hq)
  then obtain hash q where g: "get_queue (fr_queue_name f) sv = Ok (hash, q)" by (cases hq) auto
  obtain q' r where l: "lock_to_read (fr_client_id f) q = (q', r)"
    by (cases "lock_to_read (fr_client_id f) q")
  show ?thesis
  proof (cases r)
    case (Err e)
    with l lock_to_read_Err have "q' = q" by blast
    with Err g l put_queue_same[OF g] show ?thesis
      by (simp add: handle_dequeue_def lock_and_dequeue_message_def)
  qed (use g l assms in \<open>auto simp: handle_dequeue_def lock_and_dequeue_message_def Let_def
      split: option.split\<close>)
qed (simp_all add: handle_dequeue_def lock_and_dequeue_message_def)

lemma keeps_succeeded: "keeps_on_failure sv (handle_succeeded env f sv)"
proof (cases "get_queue (fr_queue_name f) sv")
  case (Ok hq)
  then obtain hash q where g: "get_queue (fr_queue_name f) sv = Ok (hash, q)" by (cases hq) auto
  obtain q' r where d: "dequeue (fr_client_id f) None q = (q', r)"
    by (cases "dequeue (fr_client_id f) None q")
  show ?thesis
  proof (cases r)
    case (Err e)
    with d dequeue_Err have "q' = q" by blast
    with Err g d put_queue_same[OF g] show ?thesis
      by (simp add: handle_succeeded_def dequeue_message_sent_def)
  qed (use g d in \<open>auto simp: handle_succeeded_def dequeue_message_sent_def get_next_biggest_payload_def\<close>)
qed (simp_all add: handle_succeeded_def dequeue_message_sent_def)

lemma keeps_message_ops:
  "keeps_on_failure sv (handle_delete_message f sv)"
  "keeps_on_failure sv (handle_failed f sv)"
  "keeps_on_failure sv (handle_requeue env f sv)"
  "keeps_on_failure sv (handle_update_message f sv)"
  by (auto simp: handle_delete_message_def handle_failed_def handle_requeue_def handle_update_message_def
      intro!: keeps_with_queue keeps_finish dest: queue_errors split: option.split)

lemma keeps_others:
  "keeps_on_failure sv (handle_enqueue env f sv)"
  "keeps_on_failure sv (handle_create env f sv)"
  "keeps_on_failure sv (handle_delete f sv)"
  "keeps_on_failure sv (handle_list env f sv)"
  "keeps_on_failure sv (handle_update_queue f sv)"
  "keeps_on_failure sv (handle_net_stats env sv)"
  by (auto simp: handle_enqueue_def handle_create_def handle_delete_def handle_list_def
      handle_update_queue_def handle_net_stats_def enqueue_def Let_def
      intro!: keeps_with_queue split: option.split result.split)

text \<open>
  C10. A request that is answered with a failure has changed nothing: not its queue, not the
  names, not the timers, not the memory reservation (as long as the socket takes the
  responses).
\<close>

theorem failed_request_changes_nothing:
  assumes "env_write_ok env" "handle_request env f sv = Handled sv' rs" "failed e \<in> set rs"
  shows "sv' = sv"
proof -
  have "keeps_on_failure sv (handle_request env f sv)"
    using assms(1)
    by (cases "fr_command f")
       (simp_all add: handle_request_def keeps_dequeue keeps_succeeded keeps_message_ops keeps_others)
  with assms(2,3) show ?thesis
    unfolding keeps_on_failure_def by blast
qed

theorem failed_request_changes_nothing_witness:
  "handle_request sample_env (sample_frame ReqSucceeded ''jobs'' []) two_queues
     = Handled two_queues [failed NoSuchMessageIdLocked]"
proof -
  obtain sv' where r: "handle_request sample_env (sample_frame ReqSucceeded ''jobs'' []) two_queues
      = Handled sv' [failed NoSuchMessageIdLocked]"
    by (simp add: handle_request_def handle_succeeded_def dequeue_message_sent_def sample_frame_def frame_of_def
        get_queue_def two_queues_def server_new_def create_queue_def dequeue_def queue_new_def)
  have "sv' = two_queues"
    by (rule failed_request_changes_nothing[OF _ r, of NoSuchMessageIdLocked]) (simp_all add: sample_env_def)
  with r show ?thesis by simp
qed

section \<open>One answer per request\<close>

text \<open>A frame as \<open>read_buffer\<close> cuts it: the message parsed and as long as announced.\<close>

definition frame_ok :: "frame \<Rightarrow> bool" where
  "frame_ok f \<longleftrightarrow> (case fr_message f of Ok m \<Rightarrow> length (rm_payload m) = unat (fr_payload_size f) | _ \<Rightarrow> False)"

text \<open>The client's first lock is on a message that is gone.\<close>

definition stale_lock :: "string \<Rightarrow> u128 \<Rightarrow> server \<Rightarrow> bool" where
  "stale_lock name client sv \<longleftrightarrow> (case get_queue name sv of
     Ok (_, q) \<Rightarrow> (case hm_get (q_locked q) client of Some (i # _) \<Rightarrow> hm_get (q_queue q) i = None | _ \<Rightarrow> False)
   | _ \<Rightarrow> False)"

definition answered :: "bool \<Rightarrow> handled \<Rightarrow> bool" where
  "answered may_crash h \<longleftrightarrow> (case h of
     Handled _ rs \<Rightarrow> length rs = 1 | Crashed _ \<Rightarrow> may_crash | Blocked \<Rightarrow> False)"

lemma answered_simps [simp]:
  "answered b (Handled sv rs) \<longleftrightarrow> length rs = 1" "answered b (Crashed sv) \<longleftrightarrow> b"
  by (simp_all add: answered_def)

lemma answered_finish:
  "(\<And>q'. outcome = (q', Panic) \<Longrightarrow> may_crash) \<Longrightarrow> answered may_crash (finish hash code sv outcome)"
  by (cases outcome) (auto simp: finish_def split: result.split)

lemma answered_with_queue:
  assumes "\<And>hash q. get_queue name sv = Ok (hash, q) \<Longrightarrow> answered may_crash (body hash q)"
  shows "answered may_crash (with_queue name sv body)"
  using assms by (auto simp: with_queue_def split: result.split)

lemma net_config_no_panic: "net_config_from_be_bytes bs \<noteq> Panic"
  by (auto simp: net_config_from_be_bytes_def read_auto_success_def read_success_timeout_def split: list.split)

lemma collect_stats_total: "\<exists>w'. collect_stats caps queues names w = Ok w'"
  by (induction caps queues names w rule: collect_stats.induct)
     (auto simp: new_stat_ok split: option.split)

lemma dequeue_stale:
  "get_queue name sv = Ok (hash, q) \<Longrightarrow> dequeue c mid q = (q', Panic) \<Longrightarrow> stale_lock name c sv"
  using dequeue_Panic[of c mid q q'] by (auto simp: stale_lock_def)

lemma answered_dequeue: "env_write_ok env \<Longrightarrow> answered False (handle_dequeue env f sv)"
proof (cases "get_queue (fr_queue_name f) sv")
  case (Ok hq)
  then obtain hash q where g: "get_queue (fr_queue_name f) sv = Ok (hash, q)" by (cases hq) auto
  obtain q' r where l: "lock_to_read (fr_client_id f) q = (q', r)"
    by (cases "lock_to_read (fr_client_id f) q")
  assume w: "env_write_ok env"
  show ?thesis
  proof (cases r)
    case (Ok bm)
    then obtain bytes m where "lock_to_read (fr_client_id f) q = (q', Ok (bytes, Some m))"
      using l lock_to_read_id by (cases bm) blast
    with g w show ?thesis
      by (simp add: handle_dequeue_def lock_and_dequeue_message_def Let_def)
  qed (use g l w lock_to_read_no_panic in \<open>auto simp: handle_dequeue_def lock_and_dequeue_message_def\<close>)
qed (simp_all add: handle_dequeue_def lock_and_dequeue_message_def)

lemma answered_succeeded:
  "answered (stale_lock (fr_queue_name f) (fr_client_id f) sv) (handle_succeeded env f sv)"
proof (cases "get_queue (fr_queue_name f) sv")
  case (Ok hq)
  then obtain hash q where g: "get_queue (fr_queue_name f) sv = Ok (hash, q)" by (cases hq) auto
  obtain q' r where d: "dequeue (fr_client_id f) None q = (q', r)"
    by (cases "dequeue (fr_client_id f) None q")
  show ?thesis
    using g d dequeue_stale[OF g]
    by (cases r) (auto simp: handle_succeeded_def dequeue_message_sent_def get_next_biggest_payload_def)
qed (simp_all add: handle_succeeded_def dequeue_message_sent_def)

lemma answered_message_ops:
  assumes "frame_ok f"
  shows "answered (stale_lock (fr_queue_name f) (fr_client_id f) sv) (handle_delete_message f sv)"
    "answered False (handle_failed f sv)"
    "answered False (handle_requeue env f sv)"
    "answered False (handle_update_message f sv)"
    "answered False (handle_update_queue f sv)"
    "answered False (handle_enqueue env f sv)"
proof -
  obtain m where m: "fr_message f = Ok m" "length (rm_payload m) = unat (fr_payload_size f)"
    using assms by (auto simp: frame_ok_def split: result.splits)
  show "answered (stale_lock (fr_queue_name f) (fr_client_id f) sv) (handle_delete_message f sv)"
    using m by (auto simp: handle_delete_message_def get_message_def
        intro!: answered_with_queue answered_finish dest: dequeue_stale)
  show "answered False (handle_failed f sv)" "answered False (handle_requeue env f sv)"
    "answered False (handle_update_message f sv)"
    using m by (auto simp: handle_failed_def handle_requeue_def handle_update_message_def get_message_def
        queue_no_panics intro!: answered_with_queue answered_finish)
  show "answered False (handle_update_queue f sv)"
    using m net_config_no_panic[of "rm_payload m"]
    by (auto simp: handle_update_queue_def get_message_def intro!: answered_with_queue split: result.split)
  show "answered False (handle_enqueue env f sv)"
    using m by (auto simp: handle_enqueue_def get_message_def enqueue_def Let_def intro!: answered_with_queue)
qed

lemma answered_others:
  "sv_timers sv = [] \<Longrightarrow> answered False (handle_create env f sv)"
  "sv_timers sv = [] \<Longrightarrow> answered False (handle_delete f sv)"
  "answered False (handle_list env f sv)"
  "answered False (handle_net_stats env sv)"
  using collect_stats_total[of "env_caps env" "sv_queue sv" "env_visit_names env (sv_queue_names sv)" stat_watcher_new]
  by (auto simp: handle_create_def handle_delete_def handle_list_def handle_net_stats_def Let_def split: option.split)

lemma handle_request_answered:
  assumes "frame_ok f" "env_write_ok env"
  shows "case handle_request env f sv of
     Handled _ rs \<Rightarrow> length rs = 1
   | Crashed _ \<Rightarrow> (fr_command f = ReqSucceeded \<or> fr_command f = ReqDeleteM)
       \<and> stale_lock (fr_queue_name f) (fr_client_id f) sv
   | Blocked \<Rightarrow> (fr_command f = ReqCreateQ \<or> fr_command f = ReqDeleteQ) \<and> sv_timers sv \<noteq> []"
proof (cases "(fr_command f = ReqCreateQ \<or> fr_command f = ReqDeleteQ) \<and> sv_timers sv \<noteq> []")
  case True
  then show ?thesis
    by (auto simp: handle_request_def handle_create_def handle_delete_def)
next
  case False
  then have "answered ((fr_command f = ReqSucceeded \<or> fr_command f = ReqDeleteM)
      \<and> stale_lock (fr_queue_name f) (fr_client_id f) sv) (handle_request env f sv)"
    using assms
    by (cases "fr_command f")
       (simp_all add: handle_request_def answered_dequeue answered_succeeded answered_message_ops answered_others)
  then show ?thesis
    by (auto simp: answered_def split: handled.splits)
qed

text \<open>
  C9. Every request is answered exactly once, errors included. The two exceptions are exact: an
  acknowledgement (\<open>Succeeded\<close>, or \<open>DeleteM\<close> of an unknown id) from a client whose first lock is
  on a message that another client removed panics without an answer, and creating or deleting
  a queue waits while an auto-fail timer is asleep.
\<close>

theorem each_request_answered_once:
  assumes "frame_ok f" "env_write_ok env"
  shows "case handle_request env f sv of
     Handled _ rs \<Rightarrow> length rs = 1
   | Crashed _ \<Rightarrow> (fr_command f = ReqSucceeded \<or> fr_command f = ReqDeleteM)
       \<and> stale_lock (fr_queue_name f) (fr_client_id f) sv
   | Blocked \<Rightarrow> (fr_command f = ReqCreateQ \<or> fr_command f = ReqDeleteQ) \<and> sv_timers sv \<noteq> []"
  using assms by (rule handle_request_answered)

theorem each_request_answered_once_witness:
  "\<exists>sv' r. handle_request sample_env (sample_frame ReqListM ''jobs'' []) two_queues = Handled sv' [r]"
proof -
  have "frame_ok (sample_frame ReqListM ''jobs'' [])" "env_write_ok sample_env"
    by (simp_all add: frame_ok_def sample_frame_def frame_of_def sample_env_def)
  from each_request_answered_once[OF this, of two_queues] show ?thesis
    by (auto simp: sample_frame_def frame_of_def length_Suc_conv split: handled.splits)
qed

section \<open>The life of a queue\<close>

text \<open>
  C33. Creating a queue makes its name lead to a new empty queue and refuses the name from then on;
  deleting it frees the name, and with it goes everything stored under it.
\<close>

theorem queue_lifecycle:
  assumes "sv_timers sv = []" "hm_get (sv_queue_names sv) name = None"
    "fr_queue_name fc = name" "fr_command fc = ReqCreateQ" "fr_queue_name fd = name" "fr_command fd = ReqDeleteQ"
  shows "\<exists>sv1 sv2. handle_request env fc sv = Handled sv1 [succeeded []]
     \<and> get_queue name sv1 = Ok (env_uuid env, queue_new)
     \<and> handle_request env' fc sv1 = Handled sv1 [failed QueueAlreadyExists]
     \<and> handle_request env' fd sv1 = Handled sv2 [succeeded []]
     \<and> get_queue name sv2 = Err QueueHashNotFound
     \<and> handle_request env' fd sv2 = Handled sv2 [failed QueueDoesNotExist]
     \<and> hm_get (sv_queue sv2) (env_uuid env) = None"
  using assms
  by (simp add: handle_request_def handle_create_def handle_delete_def create_queue_def get_queue_def
      hm_contains_key_def)

theorem queue_lifecycle_witness:
  "\<exists>sv1. handle_request sample_env (sample_frame ReqCreateQ ''logs'' []) two_queues = Handled sv1 [succeeded []]
     \<and> get_queue ''logs'' sv1 = Ok (99, queue_new)"
proof -
  have "sv_timers two_queues = []" "hm_get (sv_queue_names two_queues) ''logs'' = None"
    by (simp_all add: two_queues_def server_new_def create_queue_def)
  then show ?thesis
    using queue_lifecycle[of two_queues "''logs''" "sample_frame ReqCreateQ ''logs'' []"
        "sample_frame ReqDeleteQ ''logs'' []" sample_env sample_env]
    by (auto simp: sample_frame_def frame_of_def sample_env_def)
qed

section \<open>The life of a message\<close>

lemma get_queue_put [simp]:
  "get_queue name sv = Ok (hash, q) \<Longrightarrow> get_queue name (put_queue hash q' sv) = Ok (hash, q')"
  by (simp add: get_queue_Ok put_queue_def)

lemma get_queue_update [simp]:
  "get_queue name (sv\<lparr>sv_arena := a\<rparr>) = get_queue name sv"
  "get_queue name (sv\<lparr>sv_timers := ts\<rparr>) = get_queue name sv"
  by (simp_all add: get_queue_def split: option.split)

lemma queue_cycle:
  obtains q1 q2 q3 where "enqueue now pl publisher queue_new = (q1, Ok ())"
    "lock_to_read c q1 = (q2, Ok (get_meta_as_vec 1 (message_lock c (queue_message_new now pl publisher)) @ pl, Some 1))"
    "\<not> get_config_auto_fail q2" "dequeue c None q2 = (q3, Ok (length pl))"
    "q_next_id q3 = None" "q_order q3 \<noteq> []"
    "messages q2 = [1 \<mapsto> message_lock c (queue_message_new now pl publisher)]" "locks q2 = (\<lambda>_. [])(c := [1])"
    "messages q3 = Map.empty" "locks q3 = (\<lambda>_. [])"
proof -
  define q1 where "q1 = fst (enqueue now pl publisher queue_new)"
  define q2 where "q2 = fst (lock_to_read c q1)"
  define q3 where "q3 = fst (dequeue c None q2)"
  note run = enqueue_def lock_to_read_def dequeue_def dequeue_first_locked_def Let_def queue_new_def
    next_message_id_def is_message_locked_def message_lock_def queue_message_new_def next_id_after_def
    remove_zeroes_def drain_zeroes_def magic_drain_vec_def vec_remove_def get_config_auto_fail_def
    queue_config_new_def locked_ids_def
  have "enqueue now pl publisher queue_new = (q1, Ok ())"
    by (simp add: q1_def enqueue_def Let_def)
  moreover have "lock_to_read c q1 =
      (q2, Ok (get_meta_as_vec 1 (message_lock c (queue_message_new now pl publisher)) @ pl, Some 1))"
    by (simp add: q1_def q2_def run)
  moreover have "\<not> get_config_auto_fail q2" "dequeue c None q2 = (q3, Ok (length pl))"
      "q_next_id q3 = None" "q_order q3 \<noteq> []"
    by (simp_all add: q1_def q2_def q3_def run)
  moreover have "messages q2 = [1 \<mapsto> message_lock c (queue_message_new now pl publisher)]"
      "locks q2 = (\<lambda>_. [])(c := [1])" "messages q3 = Map.empty" "locks q3 = (\<lambda>_. [])"
    by (auto simp: q1_def q2_def q3_def run fun_eq_iff)
  ultimately show ?thesis by (rule that)
qed

lemma enqueue_request:
  assumes "get_queue name sv = Ok (hash, q)" "fr_queue_name f = name" "fr_command f = ReqEnqueue"
    "fr_message f = Ok m" "enqueue (env_now env) (rm_payload m) (fr_client_id f) q = (q', Ok ())"
  shows "\<exists>sv'. handle_request env f sv = Handled sv' [succeeded []] \<and> get_queue name sv' = Ok (hash, q')"
  using assms by (simp add: handle_request_def handle_enqueue_def get_message_def with_queue_def Let_def)

lemma dequeue_request:
  assumes "get_queue name sv = Ok (hash, q)" "fr_queue_name f = name" "fr_command f = ReqDequeue"
    "env_write_ok env" "lock_to_read (fr_client_id f) q = (q', Ok (bytes, mid))" "\<not> get_config_auto_fail q'"
  shows "\<exists>sv'. handle_request env f sv = Handled sv' [succeeded bytes] \<and> get_queue name sv' = Ok (hash, q')"
  using assms by (simp add: handle_request_def handle_dequeue_def lock_and_dequeue_message_def Let_def)

lemma succeeded_request:
  assumes "get_queue name sv = Ok (hash, q)" "fr_queue_name f = name" "fr_command f = ReqSucceeded"
    "dequeue (fr_client_id f) None q = (q', Ok n)"
  shows "\<exists>sv' q''. handle_request env f sv = Handled sv' [succeeded []] \<and> get_queue name sv' = Ok (hash, q'')
     \<and> (q'' = q' \<or> q'' = find_biggest_payloads (env_visit env) q')"
  using assms
  by (simp add: handle_request_def handle_succeeded_def dequeue_message_sent_def get_next_biggest_payload_def)

text \<open>
  C12. Publish, consume, acknowledge, through the handlers: on a new queue a published payload
  is delivered behind its metadata (id 1, publisher, time stamp, consumer as holder) to the
  next client that asks. Until the acknowledgement the queue still stores it, held by that client
  alone; after the acknowledgement it stores nothing and nobody holds anything, and the next
  client is told that it is empty.
\<close>

theorem publish_consume_acknowledge:
  assumes "get_queue name sv = Ok (hash, queue_new)" "env_write_ok env"
    "fr_queue_name fe = name" "fr_command fe = ReqEnqueue" "fr_message fe = Ok m" 
    "fr_queue_name fd = name" "fr_command fd = ReqDequeue"
    "fr_queue_name fa = name" "fr_command fa = ReqSucceeded" "fr_client_id fa = fr_client_id fd"
  shows "\<exists>sv1 sv2 sv3. handle_request env fe sv = Handled sv1 [succeeded []]
     \<and> handle_request env fd sv1 = Handled sv2 [succeeded (get_meta_as_vec 1
           (message_lock (fr_client_id fd) (queue_message_new (env_now env) (rm_payload m) (fr_client_id fe)))
         @ rm_payload m)]
     \<and> (\<exists>held. get_queue name sv2 = Ok (hash, held)
         \<and> messages held = [1 \<mapsto> message_lock (fr_client_id fd)
               (queue_message_new (env_now env) (rm_payload m) (fr_client_id fe))]
         \<and> locks held = (\<lambda>_. [])(fr_client_id fd := [1]))
     \<and> handle_request env fa sv2 = Handled sv3 [succeeded []]
     \<and> (\<exists>emptied. get_queue name sv3 = Ok (hash, emptied)
         \<and> messages emptied = Map.empty \<and> locks emptied = (\<lambda>_. []))
     \<and> handle_request env fd sv3 = Handled sv3 [failed QueueIsEmpty]"
proof -
  obtain q1 q2 q3 where q: "enqueue (env_now env) (rm_payload m) (fr_client_id fe) queue_new = (q1, Ok ())"
      "lock_to_read (fr_client_id fd) q1 = (q2, Ok (get_meta_as_vec 1
         (message_lock (fr_client_id fd) (queue_message_new (env_now env) (rm_payload m) (fr_client_id fe)))
         @ rm_payload m, Some 1))"
      "\<not> get_config_auto_fail q2" "dequeue (fr_client_id fd) None q2 = (q3, Ok (length (rm_payload m)))"
      "q_next_id q3 = None" "q_order q3 \<noteq> []"
      "messages q2 = [1 \<mapsto> message_lock (fr_client_id fd)
         (queue_message_new (env_now env) (rm_payload m) (fr_client_id fe))]"
      "locks q2 = (\<lambda>_. [])(fr_client_id fd := [1])" "messages q3 = Map.empty" "locks q3 = (\<lambda>_. [])"
    by (rule queue_cycle)
  obtain sv1 where 1: "handle_request env fe sv = Handled sv1 [succeeded []]" "get_queue name sv1 = Ok (hash, q1)"
    using enqueue_request[OF assms(1,3,4,5) q(1)] by blast
  obtain sv2 where 2: "handle_request env fd sv1 = Handled sv2 [succeeded (get_meta_as_vec 1
         (message_lock (fr_client_id fd) (queue_message_new (env_now env) (rm_payload m) (fr_client_id fe)))
         @ rm_payload m)]" "get_queue name sv2 = Ok (hash, q2)"
    using dequeue_request[OF 1(2) assms(6,7,2) q(2,3)] by blast
  obtain sv3 q4 where 3: "handle_request env fa sv2 = Handled sv3 [succeeded []]" "get_queue name sv3 = Ok (hash, q4)"
      "q4 = q3 \<or> q4 = find_biggest_payloads (env_visit env) q3"
    using succeeded_request[OF 2(2) assms(8,9) q(4)[folded assms(10)]] by blast
  have "lock_to_read (fr_client_id fd) q4 = (q4, Err (invalid_data queue_is_empty_text))"
    using 3(3) q(5,6) by (auto simp: lock_to_read_def find_biggest_payloads_def)
  then have "handle_request env fd sv3 = Handled sv3 [failed QueueIsEmpty]"
    using 3(2) assms(6,7) put_queue_same[OF 3(2)]
    by (simp add: handle_request_def handle_dequeue_def lock_and_dequeue_message_def lock_error_code_def)
  moreover have "messages q4 = Map.empty" "locks q4 = (\<lambda>_. [])"
    using 3(3) q(9,10) by (auto simp: find_biggest_payloads_def)
  ultimately show ?thesis
    using 1(1) 2 3(1,2) q(7,8) by blast
qed

theorem publish_consume_acknowledge_witness:
  "\<exists>sv1. handle_request sample_env (sample_frame ReqEnqueue ''jobs'' [1, 2]) two_queues = Handled sv1 [succeeded []]
     \<and> (\<exists>sv2. handle_request sample_env (sample_frame ReqDequeue ''jobs'' []) sv1
          = Handled sv2 [succeeded (get_meta_as_vec 1 (message_lock 7 (queue_message_new 5 [1, 2] 7)) @ [1, 2])])"
proof -
  have "get_queue ''jobs'' two_queues = Ok (11, queue_new)"
    by (simp add: two_queues_def server_new_def create_queue_def get_queue_def)
  from publish_consume_acknowledge[OF this, of sample_env "sample_frame ReqEnqueue ''jobs'' [1, 2]"
      "\<lparr>rm_command = ReqEnqueue, rm_payload_size = 2, rm_payload = [1, 2]\<rparr>" "sample_frame ReqDequeue ''jobs'' []"
      "sample_frame ReqSucceeded ''jobs'' []"]
  show ?thesis
    by (auto simp: sample_frame_def frame_of_def sample_env_def)
qed

end
