(* ===== verification/Server_Delivery.thy ===== *)
theory Server_Delivery
  imports Server_Behaviour
begin

text \<open>
  Delivery when the socket or a timer interferes: a response the socket refuses, a timer that
  outlives the delivery it was set for, and the error codes a client can see.
\<close>

section \<open>A refused response\<close>

text \<open>
  When the socket refuses the response, the message stays locked for the client that never
  received it, and no timer is set, whatever the queue's auto-fail configuration: only that
  client's own \<open>Failed\<close> request gives it back.
\<close>

theorem refused_response_keeps_lock:
  assumes "get_queue name sv = Ok (hash, q)" "lock_to_read (fr_client_id f) q = (q', Ok (bytes, mid))"
    "\<not> env_write_ok env" "fr_queue_name f = name" "fr_command f = ReqDequeue"
  shows "\<exists>sv' m. handle_request env f sv = Handled sv' [succeeded bytes, failed ResponseFailedError]
     \<and> get_queue name sv' = Ok (hash, q') \<and> mid = Some m \<and> \<not> held q m \<and> held q' m
     \<and> sv_timers sv' = sv_timers sv"
proof -
  obtain m where m: "mid = Some m"
    using lock_to_read_id[OF assms(2)] by blast
  have "\<not> held q m" "held q' m"
    using lock_delivers_free[of "fr_client_id f" q q' bytes m] assms(2) m by simp_all
  moreover have "handle_request env f sv = Handled (put_queue hash q' sv) [succeeded bytes, failed ResponseFailedError]"
    using assms by (simp add: handle_request_def handle_dequeue_def lock_and_dequeue_message_def Let_def)
  moreover have "get_queue name (put_queue hash q' sv) = Ok (hash, q')"
    using assms(1) by simp
  ultimately show ?thesis
    using m by (intro exI[of _ "put_queue hash q' sv"] exI[of _ m]) simp
qed

text \<open>One message waiting in a server.\<close>

definition loaded_queue :: queue where
  "loaded_queue = fst (enqueue 5 [1, 2] 9 queue_new)"

definition loaded :: server where
  "loaded = put_queue 11 loaded_queue two_queues"

lemma loaded_queue_at: "get_queue ''jobs'' loaded = Ok (11, loaded_queue)"
  by (simp add: loaded_def two_queues_def server_new_def create_queue_def put_queue_def get_queue_Ok)

lemmas queue_run = enqueue_def lock_to_read_def dequeue_def dequeue_first_locked_def unlock_def
  release_message_def Let_def queue_new_def next_message_id_def is_message_locked_def message_lock_def
  message_unlock_def queue_message_new_def next_id_after_def remove_zeroes_def drain_zeroes_def
  magic_drain_vec_def vec_remove_def get_config_auto_fail_def get_config_fail_timeout_def
  queue_config_new_def locked_ids_def is_locked_def update_config_auto_fail_def
  update_config_fail_timeout_def hm_insert_def hm_get_def

theorem refused_response_keeps_lock_witness:
  "\<exists>sv' bytes q' m. handle_request (sample_env\<lparr>env_write_ok := False\<rparr>) (sample_frame ReqDequeue ''jobs'' []) loaded
     = Handled sv' [succeeded bytes, failed ResponseFailedError] \<and> get_queue ''jobs'' sv' = Ok (11, q') \<and> held q' m"
proof -
  obtain q' bytes where l: "lock_to_read 7 loaded_queue = (q', Ok (bytes, Some 1))"
    by (simp add: loaded_queue_def queue_run)
  then have "lock_to_read (fr_client_id (sample_frame ReqDequeue ''jobs'' [])) loaded_queue = (q', Ok (bytes, Some 1))"
    by (simp add: sample_frame_def frame_of_def)
  from refused_response_keeps_lock[OF loaded_queue_at this, of "sample_env\<lparr>env_write_ok := False\<rparr>"] show ?thesis
    by (auto simp: sample_frame_def frame_of_def)
qed

section \<open>A timer that outlives its delivery\<close>

text \<open>Requests by a client, one after the other.\<close>

definition client_frame :: "u128 \<Rightarrow> request \<Rightarrow> u8 list \<Rightarrow> frame" where
  "client_frame c r pl = (sample_frame r ''jobs'' pl)\<lparr>fr_client_id := c\<rparr>"

fun serve :: "frame list \<Rightarrow> server \<Rightarrow> server" where
  "serve [] sv = sv"
| "serve (f # fs) sv = serve fs (after sv (handle_request sample_env f sv))"

text \<open>
  Auto-fail after 1000 ms is switched on; client 7 takes the message, gives it back, takes it again.
\<close>

definition retaken :: server where
  "retaken = serve [client_frame 9 ReqUpdateQ [3, 1, 0, 0, 0, 0, 0, 0, 3, 232], client_frame 7 ReqDequeue [],
     client_frame 7 ReqFailed [], client_frame 7 ReqDequeue []] loaded"

lemmas serve_run = handle_request_def handle_update_queue_def handle_dequeue_def handle_failed_def
  with_queue_def get_message_def finish_def apply_config_def lock_and_dequeue_message_def
  client_frame_def sample_frame_def frame_of_def sample_env_def

lemma config_bytes: "net_config_from_be_bytes [3, 1, 0, 0, 0, 0, 0, 0, 3, 232]
  = Ok (net_queue_config_new (Some True) (Some 1000), 10)"
  by (simp add: net_config_from_be_bytes_def read_auto_success_def read_success_timeout_def
      net_queue_config_new_def u64_from_be_bytes_def be_value.simps)

definition retaken_queue :: queue where
  "retaken_queue = fst (lock_to_read 7 (fst (unlock 7 None (fst (lock_to_read 7
     (update_config_fail_timeout 1000 (update_config_auto_fail True loaded_queue)))))))"

definition retaken_timer :: timer where
  "retaken_timer = \<lparr>tm_queue = 11, tm_client = 7, tm_message = 1, tm_millis = 1000\<rparr>"

lemma retaken_eq: "retaken = (put_queue 11 retaken_queue two_queues)\<lparr>sv_timers := [retaken_timer, retaken_timer]\<rparr>"
  by (simp add: retaken_def serve_run config_bytes net_queue_config_new_def get_queue_def loaded_def loaded_queue_def
      two_queues_def server_new_def create_queue_def put_queue_def retaken_queue_def retaken_timer_def queue_run)

text \<open>
  C26. A timer is not tied to the delivery it was set for. After a client took a message, gave it
  back and took it again, the first timer ends the second delivery early: before it, another
  client is told that the queue is empty; after it, with the first client still working and its
  own timer still asleep, the other client is given the same message.
\<close>

theorem stale_timer_hands_message_out_twice:
  "sv_timers retaken = [retaken_timer, retaken_timer]
   \<and> get_queue ''jobs'' retaken = Ok (11, retaken_queue) \<and> is_locked 7 1 retaken_queue
   \<and> handle_request sample_env (client_frame 8 ReqDequeue []) retaken = Handled retaken [failed QueueIsEmpty]
   \<and> (\<exists>sv' head. handle_request sample_env (client_frame 8 ReqDequeue []) (wake_timer 0 retaken)
        = Handled sv' [succeeded (head @ [1, 2])] \<and> length head = 56
        \<and> sv_timers (wake_timer 0 retaken) = [retaken_timer])"
proof -
  have timers: "sv_timers retaken = [retaken_timer, retaken_timer]"
    by (simp add: retaken_eq)
  have q: "get_queue ''jobs'' retaken = Ok (11, retaken_queue)"
    by (simp add: retaken_eq get_queue_Ok two_queues_def server_new_def create_queue_def put_queue_def)
  have l: "is_locked 7 1 retaken_queue"
    by (simp add: retaken_queue_def loaded_queue_def queue_run)
  have e: "lock_to_read 8 retaken_queue = (retaken_queue, Err (invalid_data queue_is_empty_text))"
    by (simp add: retaken_queue_def loaded_queue_def queue_run)
  have refused: "handle_request sample_env (client_frame 8 ReqDequeue []) retaken = Handled retaken [failed QueueIsEmpty]"
    using q e put_queue_same[OF q] by (simp add: serve_run lock_error_code_def)
  define q' where "q' = auto_fail retaken_timer retaken_queue"
  have w: "get_queue ''jobs'' (wake_timer 0 retaken) = Ok (11, q')" "sv_timers (wake_timer 0 retaken) = [retaken_timer]"
    by (simp_all add: wake_timer_def retaken_eq retaken_timer_def q'_def get_queue_Ok two_queues_def server_new_def
        create_queue_def put_queue_def Let_def)
  obtain q'' head where "lock_to_read 8 q' = (q'', Ok (head @ [1, 2], Some 1))" "length head = 56"
    by (simp add: q'_def auto_fail_def retaken_timer_def retaken_queue_def loaded_queue_def queue_run)
  then have "\<exists>sv' head. handle_request sample_env (client_frame 8 ReqDequeue []) (wake_timer 0 retaken)
        = Handled sv' [succeeded (head @ [1, 2])] \<and> length head = 56"
    using w by (auto simp: serve_run Let_def)
  with timers q l refused w(2) show ?thesis by blast
qed

section \<open>Error codes\<close>

lemma failed_eq_iff [simp]: "failed e = failed e' \<longleftrightarrow> e = e'"
proof
  assume "failed e = failed e'"
  then have "to_payload e = to_payload e'"
    by (simp add: failed_def response_message_new_def)
  then show "e = e'"
    by (metis as_u16_inj be16.enc_eq_iff to_payload_def)
qed simp

text \<open>The failure codes a client has to expect, by request.\<close>

fun codes_of :: "request \<Rightarrow> error_code set" where
  "codes_of ReqEnqueue = {QueueHashNotFound}"
| "codes_of ReqDequeue = {QueueHashNotFound, QueueIsEmpty, MessageAlreadyLocked, NoSuchMessageId, ResponseFailedError}"
| "codes_of ReqCreateQ = {QueueAlreadyExists}"
| "codes_of ReqDeleteQ = {QueueDoesNotExist}"
| "codes_of ReqListM = {QueueHashNotFound}"
| "codes_of ReqDeleteM = {QueueHashNotFound, PayloadMissingMessageId, NoSuchMessageId}"
| "codes_of ReqSucceeded = {NoSuchMessageIdLocked}"
| "codes_of ReqFailed = {QueueHashNotFound, MessageNotLockedByClient}"
| "codes_of ReqRequeue = {QueueHashNotFound, PayloadMissingMessageId, MessageNotInQueue}"
| "codes_of ReqUpdateM = {QueueHashNotFound, PayloadMissingMessageId, MessageNotInQueue}"
| "codes_of ReqUpdateQ = {QueueHashNotFound, InvalidConfigPayloadSize, ConfigBytesEmpty}"
| "codes_of ReqNetStats = {}"

definition codes_in :: "error_code set \<Rightarrow> handled \<Rightarrow> bool" where
  "codes_in S h \<longleftrightarrow> (\<forall>sv rs e. h = Handled sv rs \<longrightarrow> failed e \<in> set rs \<longrightarrow> e \<in> S)"

lemma codes_simps [simp]:
  "codes_in S (Handled sv [succeeded pl])" "codes_in S (Handled sv [failed e]) \<longleftrightarrow> e \<in> S"
  "codes_in S (Crashed sv)" "codes_in S Blocked"
  by (auto simp: codes_in_def)

lemma codes_finish: "code \<in> S \<Longrightarrow> codes_in S (finish hash code sv outcome)"
  by (cases outcome) (auto simp: finish_def split: result.split)

lemma get_queue_Err: "server_inv sv \<Longrightarrow> get_queue name sv = Err e \<Longrightarrow> e = QueueHashNotFound"
  using server_invD(1)[of sv name] by (fastforce simp: get_queue_def split: option.splits)

lemma codes_with_queue:
  assumes "server_inv sv" "QueueHashNotFound \<in> S" "\<And>hash q. codes_in S (body hash q)"
  shows "codes_in S (with_queue name sv body)"
  using assms get_queue_Err[OF assms(1), of name] by (auto simp: with_queue_def split: result.split)

lemma codes_message_requests:
  assumes "server_inv sv" "frame_ok f"
  shows "codes_in (codes_of ReqEnqueue) (handle_enqueue env f sv)"
    "codes_in (codes_of ReqDeleteM) (handle_delete_message f sv)"
    "codes_in (codes_of ReqFailed) (handle_failed f sv)"
    "codes_in (codes_of ReqRequeue) (handle_requeue env f sv)"
    "codes_in (codes_of ReqUpdateM) (handle_update_message f sv)"
    "codes_in (codes_of ReqUpdateQ) (handle_update_queue f sv)"
proof -
  obtain m where m: "fr_message f = Ok m"
    using assms(2) by (auto simp: frame_ok_def split: result.splits)
  show "codes_in (codes_of ReqEnqueue) (handle_enqueue env f sv)"
    "codes_in (codes_of ReqDeleteM) (handle_delete_message f sv)"
    "codes_in (codes_of ReqFailed) (handle_failed f sv)"
    "codes_in (codes_of ReqRequeue) (handle_requeue env f sv)"
    "codes_in (codes_of ReqUpdateM) (handle_update_message f sv)"
    "codes_in (codes_of ReqUpdateQ) (handle_update_queue f sv)"
    using m assms(1)
    by (auto simp: handle_enqueue_def handle_delete_message_def handle_failed_def handle_requeue_def
        handle_update_message_def handle_update_queue_def get_message_def enqueue_def Let_def
        intro!: codes_with_queue codes_finish split: result.split)
qed

lemma codes_dequeue:
  assumes "server_inv sv"
  shows "codes_in (codes_of ReqDequeue) (handle_dequeue env f sv)"
  using get_queue_Err[OF assms, of "fr_queue_name f"]
  by (auto simp: handle_dequeue_def lock_and_dequeue_message_def lock_error_code_def Let_def codes_in_def
      split: result.splits option.splits prod.splits if_splits)

lemma codes_other_requests:
  assumes "server_inv sv"
  shows "codes_in (codes_of ReqCreateQ) (handle_create env f sv)"
    "codes_in (codes_of ReqDeleteQ) (handle_delete f sv)"
    "codes_in (codes_of ReqListM) (handle_list env f sv)"
    "codes_in (codes_of ReqSucceeded) (handle_succeeded env f sv)"
    "codes_in (codes_of ReqNetStats) (handle_net_stats env sv)"
  using collect_stats_total[of "env_caps env" "sv_queue sv" "env_visit_names env (sv_queue_names sv)" stat_watcher_new]
  by (auto simp: handle_create_def handle_delete_def handle_list_def handle_succeeded_def handle_net_stats_def
      Let_def split: option.split result.split prod.split)

text \<open>
  C37. The failure codes of each request are exactly those of its table, for every client and every
  reachable state. In particular the codes for a missing auto-fail byte and for a short
  timeout (302, 303) are never sent, a failed statistics query (105) does not occur, and a
  missing queue is answered with 100 everywhere except by \<open>Succeeded\<close>, which answers 203.
\<close>

theorem error_codes_by_request:
  assumes "server_reachable sv" "frame_ok f" "handle_request env f sv = Handled sv' rs" "failed e \<in> set rs"
  shows "e \<in> codes_of (fr_command f)"
proof -
  have inv: "server_inv sv"
    by (rule server_inv_reachable[OF assms(1)])
  have "codes_in (codes_of (fr_command f)) (handle_request env f sv)"
    by (cases "fr_command f")
       (simp_all only: handle_request_def request.case codes_message_requests[OF inv assms(2)]
         codes_dequeue[OF inv] codes_other_requests[OF inv])
  with assms(3,4) show ?thesis
    unfolding codes_in_def by blast
qed

theorem error_codes_by_request_witness:
  "QueueHashNotFound \<in> codes_of (fr_command (sample_frame ReqDequeue ''none'' []))
   \<and> handle_request sample_env (sample_frame ReqDequeue ''none'' []) two_queues
       = Handled two_queues [failed QueueHashNotFound]"
proof -
  have run: "handle_request sample_env (sample_frame ReqDequeue ''none'' []) two_queues
       = Handled two_queues [failed QueueHashNotFound]"
    by (simp add: serve_run two_queues_def server_new_def create_queue_def get_queue_def)
  have "frame_ok (sample_frame ReqDequeue ''none'' [])"
    by (simp add: frame_ok_def sample_frame_def frame_of_def)
  from error_codes_by_request[OF two_queues_reachable this run, of QueueHashNotFound] run show ?thesis
    by simp
qed

end
