(* ===== verification/Server_Locks.thy ===== *)
theory Server_Locks
  imports Broker_Prelude
begin

text \<open>
  The locks of \<open>Server\<close>: the queue map and the name map are each behind a \<open>tokio::sync::RwLock\<close>,
  which is fair (waiting tasks are served first in, first out, and a waiting writer holds back the
  readers behind it). A request handler is modelled by the order in which it takes and drops the
  two guards; the mutex of a single queue is always taken last and is left out.
\<close>

section \<open>Tasks and locks\<close>

datatype lock = Names | Queues
datatype mode = Rd | Wr
datatype act = Acq lock mode | Rel lock

record lock_sys =
  progs :: "nat \<Rightarrow> act list"
  holders :: "lock \<Rightarrow> (nat \<times> mode) list"
  waiters :: "lock \<Rightarrow> (nat \<times> mode) list"

text \<open>
  \<open>get_queue\<close> reads the names inside the guard of the queue map; every handler that uses it has
  this shape, \<open>lock_and_dequeue_message\<close> and \<open>dequeue_message_sent\<close> included. The name guard is a
  temporary, the queue guard lives to the end of the task.
\<close>

definition queue_request_locks :: "act list" where
  "queue_request_locks = [Acq Queues Rd, Acq Names Rd, Rel Names, Rel Queues]"

text \<open>\<open>CreateQ\<close> and \<open>DeleteQ\<close>.\<close>

definition create_delete_locks :: "act list" where
  "create_delete_locks = [Acq Names Wr, Acq Queues Wr, Rel Queues, Rel Names]"

definition list_locks :: "act list" where
  "list_locks = [Acq Names Rd, Rel Names, Acq Queues Rd, Rel Queues]"

definition net_stats_locks :: "act list" where
  "net_stats_locks = [Acq Names Rd, Acq Queues Rd, Rel Queues, Rel Names]"

lemmas lock_programs = queue_request_locks_def create_delete_locks_def list_locks_def net_stats_locks_def

definition compatible :: "mode \<Rightarrow> (nat \<times> mode) list \<Rightarrow> bool" where
  "compatible m hs \<longleftrightarrow> hs = [] \<or> (m = Rd \<and> (\<forall>h \<in> set hs. snd h = Rd))"

inductive lock_step :: "lock_sys \<Rightarrow> lock_sys \<Rightarrow> bool" where
  ask: "progs s i = Acq l m # rest \<Longrightarrow> (i, m) \<notin> set (waiters s l) \<Longrightarrow>
    lock_step s (s\<lparr>waiters := (waiters s)(l := waiters s l @ [(i, m)])\<rparr>)"
| grant: "waiters s l = (i, m) # ws \<Longrightarrow> compatible m (holders s l) \<Longrightarrow>
    lock_step s (s\<lparr>waiters := (waiters s)(l := ws), holders := (holders s)(l := (i, m) # holders s l),
      progs := (progs s)(i := tl (progs s i))\<rparr>)"
| release: "progs s i = Rel l # rest \<Longrightarrow>
    lock_step s (s\<lparr>holders := (holders s)(l := filter (\<lambda>h. fst h \<noteq> i) (holders s l)),
      progs := (progs s)(i := rest)\<rparr>)"

inductive_cases lock_stepE: "lock_step s s'"

definition lock_start :: "(nat \<Rightarrow> act list) \<Rightarrow> lock_sys" where
  "lock_start ps = \<lparr>progs = ps, holders = (\<lambda>_. []), waiters = (\<lambda>_. [])\<rparr>"

definition finished :: "lock_sys \<Rightarrow> bool" where
  "finished s \<longleftrightarrow> (\<forall>i. progs s i = [])"

definition stuck :: "lock_sys \<Rightarrow> bool" where
  "stuck s \<longleftrightarrow> (\<forall>s'. \<not> lock_step s s') \<and> \<not> finished s"

section \<open>The invariant\<close>

text \<open>The locks a task has to drop before it takes them again.\<close>

fun owes :: "lock \<Rightarrow> act list \<Rightarrow> bool" where
  "owes l [] = False"
| "owes l (Rel k # as) = (k = l \<or> owes l as)"
| "owes l (Acq k m # as) = (k \<noteq> l \<and> owes l as)"

text \<open>
  A set of programs a task can be at: what remains after a step is in the set, and a lock that
  was just taken is owed. The suffixes of the programs above are such a set.
\<close>

definition closed_programs :: "act list set \<Rightarrow> bool" where
  "closed_programs P \<longleftrightarrow> (\<forall>p \<in> P. tl p \<in> P) \<and> (\<forall>l m rest. Acq l m # rest \<in> P \<longrightarrow> owes l rest)"

definition lock_inv :: "act list set \<Rightarrow> lock_sys \<Rightarrow> bool" where
  "lock_inv P s \<longleftrightarrow> (\<forall>i. progs s i \<in> P)
     \<and> (\<forall>l h. h \<in> set (holders s l) \<longrightarrow> owes l (progs s (fst h)))
     \<and> (\<forall>l i m. (i, m) \<in> set (waiters s l) \<longrightarrow> (\<exists>rest. progs s i = Acq l m # rest))
     \<and> (\<forall>l. distinct (waiters s l))"

lemma lock_invD:
  assumes "lock_inv P s"
  shows "progs s i \<in> P" "h \<in> set (holders s l) \<Longrightarrow> owes l (progs s (fst h))"
    "(i, m) \<in> set (waiters s l) \<Longrightarrow> \<exists>rest. progs s i = Acq l m # rest" "distinct (waiters s l)"
  using assms unfolding lock_inv_def by blast+

lemma lock_inv_start: "closed_programs P \<Longrightarrow> \<forall>i. ps i \<in> P \<Longrightarrow> lock_inv P (lock_start ps)"
  by (simp add: lock_inv_def lock_start_def)

lemma lock_inv_ask:
  assumes "lock_inv P s" "progs s i = Acq l m # rest" "(i, m) \<notin> set (waiters s l)"
  shows "lock_inv P (s\<lparr>waiters := (waiters s)(l := waiters s l @ [(i, m)])\<rparr>)"
  using assms by (auto simp: lock_inv_def)

lemma lock_inv_grant:
  assumes P: "closed_programs P" and inv: "lock_inv P s" and w: "waiters s l = (i, m) # ws"
  shows "lock_inv P (s\<lparr>waiters := (waiters s)(l := ws), holders := (holders s)(l := (i, m) # holders s l),
      progs := (progs s)(i := tl (progs s i))\<rparr>)"
proof -
  obtain rest where p: "progs s i = Acq l m # rest"
    using lock_invD(3)[OF inv, of i m l] w by auto
  have rest: "rest \<in> P" "owes l rest"
    using P lock_invD(1)[OF inv, of i] p by (force simp: closed_programs_def)+
  have keeps: "owes k rest" if "owes k (progs s i)" for k
    using that p by simp
  have alone: "k = l \<and> m' = m" if "(i, m') \<in> set (waiters s k)" for k m'
    using lock_invD(3)[OF inv that] p by simp
  have fresh: "(i, m) \<notin> set ws"
    using lock_invD(4)[OF inv, of l] w by simp
  have "\<exists>r. ((progs s)(i := rest)) j = Acq k m' # r" if "(j, m') \<in> set (((waiters s)(l := ws)) k)" for j m' k
  proof -
    have mem: "(j, m') \<in> set (waiters s k)"
      using that w by (cases "k = l") auto
    have "j \<noteq> i"
      using alone[of m' k] mem that fresh by (cases "k = l") auto
    with lock_invD(3)[OF inv mem] show ?thesis by simp
  qed
  moreover have "owes k (((progs s)(i := rest)) (fst h))" if "h \<in> set (((holders s)(l := (i, m) # holders s l)) k)" for h k
    using that rest(2) keeps lock_invD(2)[OF inv, of h k] by (cases "k = l"; cases "fst h = i") auto
  moreover have "distinct ws"
    using lock_invD(4)[OF inv, of l] w by simp
  ultimately show ?thesis
    using inv rest w p by (auto simp: lock_inv_def)
qed

lemma lock_inv_release:
  assumes P: "closed_programs P" and inv: "lock_inv P s" and p: "progs s i = Rel l # rest"
  shows "lock_inv P (s\<lparr>holders := (holders s)(l := filter (\<lambda>h. fst h \<noteq> i) (holders s l)),
      progs := (progs s)(i := rest)\<rparr>)"
proof -
  have "rest \<in> P"
    using P lock_invD(1)[OF inv, of i] p by (force simp: closed_programs_def)
  moreover have "j \<noteq> i" if "(j, m) \<in> set (waiters s k)" for j m k
    using lock_invD(3)[OF inv that] p by auto
  moreover have "owes k rest" if "h \<in> set (holders s k)" "fst h = i" "k \<noteq> l" for h k
    using lock_invD(2)[OF inv that(1)] that(2,3) p by auto
  ultimately show ?thesis
    using inv unfolding lock_inv_def by auto
qed

lemma lock_inv_step: "closed_programs P \<Longrightarrow> lock_inv P s \<Longrightarrow> lock_step s s' \<Longrightarrow> lock_inv P s'"
  by (erule lock_stepE) (auto intro: lock_inv_ask lock_inv_grant lock_inv_release)

lemma lock_inv_steps: "lock_step\<^sup>*\<^sup>* s s' \<Longrightarrow> closed_programs P \<Longrightarrow> lock_inv P s \<Longrightarrow> lock_inv P s'"
  by (induction rule: rtranclp_induct) (auto intro: lock_inv_step)

section \<open>When nothing is stuck\<close>

fun tails :: "'a list \<Rightarrow> 'a list list" where
  "tails [] = [[]]"
| "tails (x # xs) = (x # xs) # tails xs"

definition programs_of :: "act list list \<Rightarrow> act list set" where
  "programs_of ps = set (concat (map tails ps))"

text \<open>A task that is not finished can move unless it waits for a lock.\<close>

lemma moves_or_waits:
  assumes "lock_inv P s" "progs s i \<noteq> []"
  shows "(\<exists>s'. lock_step s s') \<or> (\<exists>l m rest. progs s i = Acq l m # rest \<and> (i, m) \<in> set (waiters s l))"
proof (cases "progs s i")
  case (Cons a rest)
  show ?thesis
  proof (cases a)
    case (Acq l m)
    with Cons show ?thesis
      using lock_step.ask[of s i l m rest] by blast
  next
    case (Rel l)
    with Cons show ?thesis
      using lock_step.release[of s i l rest] by blast
  qed
qed (use assms in simp)

lemma grants_free: "waiters s l \<noteq> [] \<Longrightarrow> holders s l = [] \<Longrightarrow> \<exists>s'. lock_step s s'"
  using lock_step.grant[of s l] by (cases "waiters s l") (auto simp: compatible_def)

text \<open>
  Programs that drop the queue guard before they do anything else: the name lock is taken first
  wherever both are held.
\<close>

definition names_first :: "act list set \<Rightarrow> bool" where
  "names_first P \<longleftrightarrow> (\<forall>p \<in> P. owes Queues p \<longrightarrow> hd p = Rel Queues)"

lemma names_first_progress:
  assumes inv: "lock_inv P s" and P: "names_first P" and busy: "progs s i \<noteq> []"
  shows "\<exists>s'. lock_step s s'"
proof (rule ccontr)
  assume none: "\<nexists>s'. lock_step s s'"
  have waits: "\<exists>l m rest. progs s j = Acq l m # rest \<and> (j, m) \<in> set (waiters s l)" if "progs s j \<noteq> []" for j
    using moves_or_waits[OF inv that] none by blast
  have "holders s Queues = []"
  proof (rule ccontr)
    assume "holders s Queues \<noteq> []"
    then obtain h where h: "h \<in> set (holders s Queues)" by (meson hd_in_set)
    then have o: "owes Queues (progs s (fst h))"
      by (rule lock_invD(2)[OF inv])
    then have "hd (progs s (fst h)) = Rel Queues"
      using P lock_invD(1)[OF inv] by (auto simp: names_first_def)
    with waits[of "fst h"] o show False by (cases "progs s (fst h)") auto
  qed
  then have queues: "waiters s Queues = []"
    using grants_free none by blast
  have names_wait: "waiters s Names \<noteq> [] \<and> \<not> owes Names (progs s j)" if "progs s j \<noteq> []" for j
    using waits[OF that] queues by (metis (full_types) empty_iff list.set(1) lock.exhaust owes.simps(3))
  have "holders s Names = []"
  proof (rule ccontr)
    assume "holders s Names \<noteq> []"
    then obtain h where h: "h \<in> set (holders s Names)" by (meson hd_in_set)
    then have "owes Names (progs s (fst h))"
      by (rule lock_invD(2)[OF inv])
    with names_wait[of "fst h"] show False by (cases "progs s (fst h)") auto
  qed
  with names_wait[OF busy] none grants_free show False by blast
qed

text \<open>
  C14. Creating and deleting queues, listing messages and collecting statistics never deadlock one
  another: with any number of such requests in any interleaving, as long as one is not
  finished some task can move.
\<close>

theorem names_first_requests_never_deadlock:
  assumes "\<forall>i. ps i \<in> {[], create_delete_locks, list_locks, net_stats_locks}"
    "lock_step\<^sup>*\<^sup>* (lock_start ps) s"
  shows "\<not> stuck s"
proof -
  define P where "P = programs_of [create_delete_locks, list_locks, net_stats_locks]"
  have "closed_programs P" "names_first P"
    by (auto simp: P_def programs_of_def lock_programs closed_programs_def names_first_def)
  moreover have "\<forall>i. ps i \<in> P"
    using assms(1) by (auto simp: P_def programs_of_def lock_programs)
  ultimately have "lock_inv P s" "names_first P"
    using lock_inv_steps[OF assms(2)] lock_inv_start by blast+
  then show ?thesis
    using names_first_progress by (auto simp: stuck_def finished_def)
qed

theorem names_first_requests_never_deadlock_witness:
  "\<not> stuck (lock_start (\<lambda>i. if i = 0 then create_delete_locks else net_stats_locks))"
  by (rule names_first_requests_never_deadlock[of "\<lambda>i. if i = 0 then create_delete_locks else net_stats_locks"])
     simp_all

section \<open>When everything is stuck\<close>

text \<open>
  A request that holds the queue guard and a creation that holds the name guard, each waiting for
  the other's; the other tasks still have to pass the name lock.
\<close>

definition frozen :: "(nat \<Rightarrow> act list) \<Rightarrow> lock_sys \<Rightarrow> bool" where
  "frozen ps s \<longleftrightarrow> (0, Rd) \<in> set (holders s Queues) \<and> (1, Wr) \<in> set (holders s Names)
     \<and> progs s 0 = [Acq Names Rd, Rel Names, Rel Queues]
     \<and> progs s 1 = [Acq Queues Wr, Rel Queues, Rel Names]
     \<and> (\<forall>i. 1 < i \<longrightarrow> ps i = [] \<or> (\<exists>m. Acq Names m \<in> set (progs s i)))"

lemma frozen_other:
  assumes "frozen ps s" "progs s i = a # rest" "a \<noteq> Acq Names Rd" "a \<noteq> Acq Queues Wr"
  shows "i \<noteq> 0" "i \<noteq> 1" "1 < i" "(\<forall>m. a \<noteq> Acq Names m) \<Longrightarrow> ps i = [] \<or> (\<exists>m. Acq Names m \<in> set rest)"
proof -
  have "progs s i \<noteq> progs s 0" "progs s i \<noteq> progs s 1"
    using assms by (auto simp: frozen_def)
  then show "i \<noteq> 0" "i \<noteq> 1" by metis+
  then show "1 < i" by linarith
  with assms(1) have "ps i = [] \<or> (\<exists>m. Acq Names m \<in> set (progs s i))"
    by (simp add: frozen_def)
  then show "(\<forall>m. a \<noteq> Acq Names m) \<Longrightarrow> ps i = [] \<or> (\<exists>m. Acq Names m \<in> set rest)"
    using assms(2) by auto
qed

lemma frozen_step:
  assumes inv: "lock_inv P s" and fr: "frozen ps s" and st: "lock_step s s'"
  shows "frozen ps s'"
  using st
proof (cases rule: lock_step.cases)
  case (ask i l m rest)
  with fr show ?thesis by (simp add: frozen_def)
next
  case (grant l i m ws)
  obtain rest where p: "progs s i = Acq l m # rest"
    using lock_invD(3)[OF inv, of i m l] grant(2) by auto
  have "l = Queues"
    using grant(3) fr by (cases l) (auto simp: frozen_def compatible_def)
  moreover from this have "m = Rd"
    using grant(3) fr by (auto simp: frozen_def compatible_def)
  ultimately have p: "progs s i = Acq Queues Rd # rest"
    using p by simp
  with fr grant(1) \<open>l = Queues\<close> frozen_other[OF fr p] show ?thesis
    by (auto simp: frozen_def)
next
  case (release i l rest)
  with fr frozen_other[OF fr release(2)] show ?thesis
    by (auto simp: frozen_def)
qed

lemma frozen_steps:
  "lock_step\<^sup>*\<^sup>* s s' \<Longrightarrow> closed_programs P \<Longrightarrow> lock_inv P s \<Longrightarrow> frozen ps s \<Longrightarrow> lock_inv P s' \<and> frozen ps s'"
  by (induction rule: rtranclp_induct) (auto intro: lock_inv_step frozen_step)

text \<open>The interleaving that gets there.\<close>

lemma reach_frozen:
  assumes "ps 0 = queue_request_locks" "ps 1 = create_delete_locks"
    "\<forall>i. ps i \<in> {[], queue_request_locks, create_delete_locks, list_locks, net_stats_locks}"
  shows "\<exists>s. lock_step\<^sup>*\<^sup>* (lock_start ps) s \<and> frozen ps s"
proof -
  define s1 where "s1 = (lock_start ps)\<lparr>waiters := (\<lambda>_. [])(Queues := [(0, Rd)])\<rparr>"
  define s2 where "s2 = (lock_start ps)\<lparr>holders := (\<lambda>_. [])(Queues := [(0, Rd)]),
      progs := ps(0 := tl queue_request_locks)\<rparr>"
  define s3 where "s3 = s2\<lparr>waiters := (\<lambda>_. [])(Names := [(1, Wr)])\<rparr>"
  define s4 where "s4 = s2\<lparr>holders := (holders s2)(Names := [(1, Wr)]),
      progs := (progs s2)(1 := tl create_delete_locks)\<rparr>"
  have "lock_step (lock_start ps) s1"
    using lock_step.ask[of "lock_start ps" 0 Queues Rd "tl queue_request_locks"] assms(1)
    by (simp add: s1_def lock_start_def queue_request_locks_def fun_upd_def cong: if_cong)
  moreover have "lock_step s1 s2"
    using lock_step.grant[of s1 Queues 0 Rd "[]"] assms(1)
    by (simp add: s1_def s2_def lock_start_def compatible_def fun_upd_idem)
  moreover have "lock_step s2 s3"
    using lock_step.ask[of s2 1 Names Wr "tl create_delete_locks"] assms(2)
    by (simp add: s2_def s3_def lock_start_def create_delete_locks_def)
  moreover have "lock_step s3 s4"
    using lock_step.grant[of s3 Names 1 Wr "[]"] assms(2)
    by (simp add: s2_def s3_def s4_def lock_start_def compatible_def fun_upd_idem)
  ultimately have "lock_step\<^sup>*\<^sup>* (lock_start ps) s4"
    by (meson converse_rtranclp_into_rtranclp rtranclp.rtrancl_refl)
  moreover have "frozen ps s4"
    using assms by (auto simp: frozen_def s4_def s2_def lock_start_def lock_programs)
  ultimately show ?thesis by blast
qed

text \<open>
  C13. Deadlock. As soon as one request that looks up its queue meets one \<open>CreateQ\<close> or \<open>DeleteQ\<close>,
  an interleaving exists after which neither of them, nor any other request that was in
  progress or waiting, is ever completed: the handlers take the queue guard before the name
  guard, creation and deletion the other way round.
\<close>

theorem lookup_and_create_deadlock:
  assumes "ps 0 = queue_request_locks" "ps 1 = create_delete_locks"
    "\<forall>i. ps i \<in> {[], queue_request_locks, create_delete_locks, list_locks, net_stats_locks}"
  shows "\<exists>s. lock_step\<^sup>*\<^sup>* (lock_start ps) s
     \<and> (\<forall>s'. lock_step\<^sup>*\<^sup>* s s' \<longrightarrow> (\<forall>i. progs s' i = [] \<longrightarrow> ps i = []))"
proof -
  define P where "P = programs_of [queue_request_locks, create_delete_locks, list_locks, net_stats_locks]"
  have P: "closed_programs P" "lock_inv P (lock_start ps)"
  proof -
    show "closed_programs P"
      by (auto simp: P_def programs_of_def lock_programs closed_programs_def)
    moreover have "\<forall>i. ps i \<in> P"
      using assms(3) by (auto simp: P_def programs_of_def lock_programs)
    ultimately show "lock_inv P (lock_start ps)"
      by (rule lock_inv_start)
  qed
  obtain s where s: "lock_step\<^sup>*\<^sup>* (lock_start ps) s" "frozen ps s"
    using reach_frozen[OF assms] by blast
  have "ps i = []" if "lock_step\<^sup>*\<^sup>* s s'" "progs s' i = []" for s' i
  proof -
    have "frozen ps s'"
      using frozen_steps[OF that(1) P(1) lock_inv_steps[OF s(1) P] s(2)] by blast
    moreover from this that(2) have "1 < i"
      by (cases i; cases "i - 1") (auto simp: frozen_def)
    ultimately show ?thesis
      using that(2) by (fastforce simp: frozen_def)
  qed
  with s(1) show ?thesis by blast
qed

theorem lookup_and_create_deadlock_witness:
  "\<exists>s. lock_step\<^sup>*\<^sup>* (lock_start (\<lambda>i. if i = 0 then queue_request_locks else create_delete_locks)) s
     \<and> progs s 0 \<noteq> [] \<and> progs s 1 \<noteq> []"
proof -
  let ?ps = "\<lambda>i. if i = (0::nat) then queue_request_locks else create_delete_locks"
  have "?ps 0 = queue_request_locks" "?ps 1 = create_delete_locks"
      "\<forall>i. ?ps i \<in> {[], queue_request_locks, create_delete_locks, list_locks, net_stats_locks}"
    by simp_all
  from lookup_and_create_deadlock[OF this] show ?thesis
    by (force simp: lock_programs)
qed

section \<open>Lookups alone\<close>

lemma readers_progress:
  assumes inv: "lock_inv P s" and rd: "\<forall>p \<in> P. \<forall>l. Acq l Wr \<notin> set p"
    and hs: "\<forall>l. \<forall>h \<in> set (holders s l). snd h = Rd" and busy: "progs s i \<noteq> []"
  shows "\<exists>s'. lock_step s s'"
  using moves_or_waits[OF inv busy]
proof
  assume "\<exists>l m rest. progs s i = Acq l m # rest \<and> (i, m) \<in> set (waiters s l)"
  then obtain l where "waiters s l \<noteq> []" by (metis empty_iff list.set(1))
  then obtain j m ws where w: "waiters s l = (j, m) # ws"
    by (metis neq_Nil_conv surj_pair)
  then obtain rest where "progs s j = Acq l m # rest"
    using lock_invD(3)[OF inv, of j m l] by auto
  with rd lock_invD(1)[OF inv, of j] have "m = Rd"
    by (cases m) (auto, metis list.set_intros(1))
  with hs have "compatible m (holders s l)"
    by (simp add: compatible_def)
  with w show ?thesis using lock_step.grant by blast
qed

lemma readers_step:
  assumes inv: "lock_inv P s" and rd: "\<forall>p \<in> P. \<forall>l. Acq l Wr \<notin> set p"
    and hs: "\<forall>l. \<forall>h \<in> set (holders s l). snd h = Rd" and st: "lock_step s s'"
  shows "\<forall>l. \<forall>h \<in> set (holders s' l). snd h = Rd"
  using st
proof (cases rule: lock_step.cases)
  case (grant l i m ws)
  obtain rest where "progs s i = Acq l m # rest"
    using lock_invD(3)[OF inv, of i m l] grant(2) by auto
  with rd lock_invD(1)[OF inv, of i] have "m = Rd"
    by (cases m) (auto, metis list.set_intros(1))
  with grant hs show ?thesis by auto
next
  case (release i l rest)
  then have "set (holders s' k) \<subseteq> set (holders s k)" for k
    by auto
  with hs show ?thesis by blast
next
  case (ask i l m rest)
  with hs show ?thesis by simp
qed

text \<open>
  Without creation and deletion nothing deadlocks: any number of requests that look up queues,
  list messages or collect statistics always have a task that can move until all are finished,
  although they take the two guards in different orders.
\<close>

theorem readers_never_deadlock:
  assumes "\<forall>i. ps i \<in> {[], queue_request_locks, list_locks, net_stats_locks}"
    "lock_step\<^sup>*\<^sup>* (lock_start ps) s"
  shows "\<not> stuck s"
proof -
  define P where "P = programs_of [queue_request_locks, list_locks, net_stats_locks]"
  have P: "closed_programs P" and rd: "\<forall>p \<in> P. \<forall>l. Acq l Wr \<notin> set p"
    by (auto simp: P_def programs_of_def lock_programs closed_programs_def)
  have "\<forall>i. ps i \<in> P"
    using assms(1) by (auto simp: P_def programs_of_def lock_programs)
  then have start: "lock_inv P (lock_start ps)"
    using lock_inv_start[OF P] by blast
  from assms(2) have "lock_inv P s \<and> (\<forall>l. \<forall>h \<in> set (holders s l). snd h = Rd)"
  proof (induction rule: rtranclp_induct)
    case base
    with start show ?case by (simp add: lock_start_def)
  next
    case (step s1 s2)
    then show ?case
      using lock_inv_step[OF P] readers_step[OF _ rd] by blast
  qed
  then show ?thesis
    using readers_progress[OF _ rd] by (auto simp: stuck_def finished_def)
qed

theorem readers_never_deadlock_witness: "\<not> stuck (lock_start (\<lambda>i. queue_request_locks))"
  by (rule readers_never_deadlock[of "\<lambda>i. queue_request_locks"]) simp_all

end
