(* ===== verification/Connection.thy ===== *)
theory Connection
  imports Server_Behaviour
begin

text \<open>
  One connection from its bytes to its bytes. \<open>read_buffer\<close> cuts the frames and spawns a task for
  each; the tasks run in any order, between the turns of the read loop and between each other,
  and write their responses when the socket is theirs. \<open>CreateQ\<close> and \<open>DeleteQ\<close> are different: the
  read loop runs them itself and spawns a task for the response alone, so they overtake requests
  that were read before them. Other connections and sleeping timers change the shared state in
  between.
\<close>

section \<open>A connection\<close>

text \<open>
  The \<open>k\<close>-th frame becomes the \<open>k\<close>-th task: first a handler to run, then the responses it has not
  written yet; \<open>Reply []\<close> is a task that ended.
\<close>

datatype task = Handle frame | Reply "response_message list"

text \<open>
  \<open>cn_unread\<close> are the frames the bytes of the client hold and the loop has not reached, \<open>cn_fault\<close>
  is the rejection they end in, \<open>cn_out\<close> the responses written, each with the request it answers
  (the rejection counts as one behind the last). \<open>cn_waiting\<close>: the loop is inside \<open>CreateQ\<close> or
  \<open>DeleteQ\<close> with the guard of the names and waits for that of the queues. \<open>cn_open\<close>: \<open>read_buffer\<close>
  has not returned. \<open>cn_driven\<close>: the worker's runtime is inside a \<open>block_on\<close>; the tasks of a
  connection that ended stay in the runtime and go on when the worker is given another connection.
\<close>

record conn =
  cn_unread :: "frame list"
  cn_fault :: "error_code option"
  cn_tasks :: "task list"
  cn_out :: "(nat \<times> response_message) list"
  cn_server :: server
  cn_waiting :: bool
  cn_open :: bool
  cn_driven :: bool

definition connect :: "(nat \<Rightarrow> usize) \<Rightarrow> u8 list list \<Rightarrow> server \<Rightarrow> conn" where
  "connect obs chunks sv =
     (let (frames, err) = read_buffer obs 0 [] chunks
      in \<lparr>cn_unread = frames, cn_fault = err, cn_tasks = [], cn_out = [], cn_server = sv,
          cn_waiting = False, cn_open = True, cn_driven = True\<rparr>)"

definition runs_inline :: "frame \<Rightarrow> bool" where
  "runs_inline f \<longleftrightarrow> fr_command f = ReqCreateQ \<or> fr_command f = ReqDeleteQ"

text \<open>
  Every request reads the names, which a waiting \<open>CreateQ\<close> or \<open>DeleteQ\<close> prevents; only \<open>UpdateM\<close>
  rejects a payload without an id before it does.
\<close>

definition looks_up :: "frame \<Rightarrow> bool" where
  "looks_up f \<longleftrightarrow> \<not> (fr_command f = ReqUpdateM \<and> unat (fr_payload_size f) < 16)"

text \<open>What other connections, timers and the allocator do to the shared state.\<close>

datatype disturbance = Other_Request env frame | Wake_Timer nat | Memory arena

fun disturb :: "disturbance \<Rightarrow> server \<Rightarrow> server" where
  "disturb (Other_Request env f) sv = after sv (handle_request env f sv)"
| "disturb (Wake_Timer i) sv = wake_timer i sv"
| "disturb (Memory a) sv = sv\<lparr>sv_arena := a\<rparr>"

lemma disturb_step:
  "(\<And>env f. d = Other_Request env f \<Longrightarrow> hm_get (sv_queue sv) (env_uuid env) = None) \<Longrightarrow> server_step sv (disturb d sv)"
  by (cases d) (auto intro: server_step.intros)

text \<open>
  \<open>Read\<close>: the next turn of the read loop, with the environment of the request if it runs inline.
  \<open>Run k\<close>: the \<open>k\<close>-th task runs its handler. \<open>Send k\<close>: it writes a response. \<open>Reject\<close>: the loop writes the
  rejection and returns. \<open>Stop\<close>: the loop returns (end of the stream, \<open>stop_word\<close>, a failed read).
  \<open>Drive\<close>: the worker enters or leaves the \<open>block_on\<close> of a later connection.
\<close>

datatype conn_event =
  Read env | Run nat env | Send nat | Reject | Stop | Drive bool | Disturb disturbance

fun conn_step :: "conn_event \<Rightarrow> conn \<Rightarrow> conn option" where
  "conn_step (Read env) c =
     (if \<not> cn_open c then None
      else case cn_unread c of
        [] \<Rightarrow> None
      | f # fs \<Rightarrow>
          if \<not> runs_inline f then Some (c\<lparr>cn_unread := fs, cn_tasks := cn_tasks c @ [Handle f]\<rparr>)
          else case handle_request env f (cn_server c) of
            Handled sv rs \<Rightarrow>
              Some (c\<lparr>cn_unread := fs, cn_tasks := cn_tasks c @ [Reply rs], cn_server := sv, cn_waiting := False\<rparr>)
          | Crashed sv \<Rightarrow> None
          | Blocked \<Rightarrow> if cn_waiting c then None else Some (c\<lparr>cn_waiting := True\<rparr>))"
| "conn_step (Run k env) c =
     (if \<not> (cn_driven c \<and> k < length (cn_tasks c)) then None
      else case cn_tasks c ! k of
        Reply _ \<Rightarrow> None
      | Handle f \<Rightarrow>
          if cn_waiting c \<and> looks_up f then None
          else case handle_request env f (cn_server c) of
            Handled sv rs \<Rightarrow> Some (c\<lparr>cn_tasks := (cn_tasks c)[k := Reply rs], cn_server := sv\<rparr>)
          | Crashed sv \<Rightarrow> Some (c\<lparr>cn_tasks := (cn_tasks c)[k := Reply []], cn_server := sv\<rparr>)
          | Blocked \<Rightarrow> None)"
| "conn_step (Send k) c =
     (if \<not> (cn_driven c \<and> k < length (cn_tasks c)) then None
      else case cn_tasks c ! k of
        Reply (r # rs) \<Rightarrow> Some (c\<lparr>cn_tasks := (cn_tasks c)[k := Reply rs], cn_out := cn_out c @ [(k, r)]\<rparr>)
      | _ \<Rightarrow> None)"
| "conn_step Reject c =
     (case cn_fault c of
        Some e \<Rightarrow>
          if cn_open c \<and> cn_unread c = []
          then Some (c\<lparr>cn_out := cn_out c @ [(length (cn_tasks c), failed e)], cn_open := False, cn_driven := False\<rparr>)
          else None
      | None \<Rightarrow> None)"
| "conn_step Stop c =
     (if cn_open c \<and> \<not> cn_waiting c then Some (c\<lparr>cn_open := False, cn_driven := False\<rparr>) else None)"
| "conn_step (Drive b) c = (if cn_open c then None else Some (c\<lparr>cn_driven := b\<rparr>))"
| "conn_step (Disturb d) c =
     (if cn_waiting c \<and> (case d of Other_Request _ _ \<Rightarrow> True | _ \<Rightarrow> False) then None
      else Some (c\<lparr>cn_server := disturb d (cn_server c)\<rparr>))"

abbreviation conn_move :: "conn_event \<Rightarrow> conn \<Rightarrow> conn \<Rightarrow> bool" where
  "conn_move e c c' \<equiv> conn_step e c = Some c'"

definition written :: "conn \<Rightarrow> u8 list" where
  "written c = concat (map (response_to_u8 \<circ> snd) (cn_out c))"

definition responses_to :: "nat \<Rightarrow> conn \<Rightarrow> response_message list" where
  "responses_to k c = map snd (filter (\<lambda>(m, r). m = k) (cn_out c))"

text \<open>Everything read and every response written.\<close>

definition settled :: "conn \<Rightarrow> bool" where
  "settled c \<longleftrightarrow> cn_unread c = [] \<and> list_all ((=) (Reply [])) (cn_tasks c)"

text \<open>The steps that bring the connection's own requests forward, and sockets that take the writes.\<close>

fun serves :: "conn_event \<Rightarrow> bool" where
  "serves (Read _) = True"
| "serves (Run _ _) = True"
| "serves (Send _) = True"
| "serves _ = False"

fun writes_taken :: "conn_event \<Rightarrow> bool" where
  "writes_taken (Read env) = env_write_ok env"
| "writes_taken (Run _ env) = env_write_ok env"
| "writes_taken _ = True"

text \<open>A client that reads responses until the end of the stream.\<close>

lemma parse_response_shorter: "parse_response bs = Some (r, rest) \<Longrightarrow> length rest < length bs"
  by (auto simp: parse_response_def Let_def split: if_splits result.splits)

function parse_responses :: "u8 list \<Rightarrow> response_message list option" where
  "parse_responses bs =
     (if bs = [] then Some []
      else case parse_response bs of
        None \<Rightarrow> None
      | Some (r, rest) \<Rightarrow> map_option ((#) r) (parse_responses rest))"
  by pat_completeness auto
termination
  by (relation "measure length") (auto dest: parse_response_shorter)

declare parse_responses.simps [simp del]

section \<open>What the handlers hand out is well formed\<close>

definition response_ok :: "response_message \<Rightarrow> bool" where
  "response_ok r \<longleftrightarrow> resp_payload_size r = word_of_nat (length (resp_payload r))"

lemma response_ok_new [simp]: "response_ok (response_message_new status pl)" "response_ok (succeeded pl)" "response_ok (failed e)"
  by (simp_all add: response_ok_def response_message_new_def succeeded_def failed_def)

definition responses_ok :: "handled \<Rightarrow> bool" where
  "responses_ok h \<longleftrightarrow> (case h of Handled _ rs \<Rightarrow> list_all response_ok rs | _ \<Rightarrow> True)"

lemma responses_ok_simps [simp]:
  "responses_ok (Handled sv rs) \<longleftrightarrow> list_all response_ok rs" "responses_ok (Crashed sv)" "responses_ok Blocked"
  by (simp_all add: responses_ok_def)

lemma responses_ok_with_queue: "(\<And>hash q. responses_ok (body hash q)) \<Longrightarrow> responses_ok (with_queue name sv body)"
  by (auto simp: with_queue_def split: result.split)

lemma responses_ok_finish: "responses_ok (finish hash code sv outcome)"
  by (cases outcome) (auto simp: finish_def split: result.split)

lemma responses_ok_dequeue: "responses_ok (handle_dequeue env f sv)"
  by (auto simp: handle_dequeue_def lock_and_dequeue_message_def Let_def split: result.split prod.split option.split)

lemma responses_ok_request: "responses_ok (handle_request env f sv)"
  by (cases "fr_command f")
     (auto simp: handle_request_def responses_ok_dequeue handle_enqueue_def handle_create_def handle_delete_def
       handle_list_def handle_delete_message_def handle_succeeded_def handle_failed_def handle_requeue_def
       handle_update_message_def handle_update_queue_def handle_net_stats_def Let_def
       intro!: responses_ok_with_queue responses_ok_finish split: option.split result.split prod.split)

lemma parse_response_ok:
  assumes "response_ok r" "length (resp_payload r) < 2 ^ 64"
  shows "parse_response (response_to_u8 r @ rest) = Some (r, rest)"
proof -
  have "r = response_message_new (resp_status r) (resp_payload r)"
    using assms(1) by (simp add: response_ok_def response_message_new_def)
  moreover have "unat (word_of_nat (length (resp_payload r)) :: u64) = length (resp_payload r)"
    using assms(2) by (simp add: unat_of_nat)
  ultimately show ?thesis
    by (metis parse_response_new[OF assms(2)])
qed

lemma parse_responses_bytes:
  assumes "list_all response_ok rs" "length (concat (map response_to_u8 rs)) < 2 ^ 64"
  shows "parse_responses (concat (map response_to_u8 rs)) = Some rs"
  using assms
proof (induction rs)
  case (Cons r rs)
  have "length (resp_payload r) < 2 ^ 64"
    using Cons.prems(2) by (simp add: response_to_u8_def)
  then have "parse_response (response_to_u8 r @ concat (map response_to_u8 rs)) = Some (r, concat (map response_to_u8 rs))"
    using Cons.prems(1) parse_response_ok by simp
  moreover have "parse_responses (concat (map response_to_u8 rs)) = Some rs"
    using Cons by simp
  moreover have "response_to_u8 r \<noteq> []"
    by (simp add: response_to_u8_def)
  ultimately show ?case
    by (subst parse_responses.simps) simp
qed (simp add: parse_responses.simps)

section \<open>From bytes to bytes\<close>

lemma encode_ne [simp]: "encode r \<noteq> []"
  using length_encode[of r] by auto

lemma frame_ok_of: "length (cr_payload r) \<le> max_payload_size \<Longrightarrow> frame_ok (frame_of r)"
  by (simp add: frame_ok_def frame_of_def unat_of_nat max_payload_size_def)

text \<open>What became of each frame: one response, or a panic of an acknowledgement.\<close>

definition outcome_ok :: "frame \<Rightarrow> response_message list \<Rightarrow> bool" where
  "outcome_ok f rs \<longleftrightarrow> length rs = 1 \<or> rs = [] \<and> fr_command f \<in> {ReqSucceeded, ReqDeleteM}"

lemma handled_outcome:
  assumes "frame_ok f" "env_write_ok env" "handle_request env f sv \<noteq> Blocked"
  shows "outcome_ok f (case handle_request env f sv of Handled _ rs \<Rightarrow> rs | _ \<Rightarrow> [])"
proof -
  have "answered (fr_command f \<in> {ReqSucceeded, ReqDeleteM}) (handle_request env f sv)"
    using handle_request_answered[OF assms(1,2), of sv] assms(3)
    by (auto simp: answered_def split: handled.splits)
  with assms(3) show ?thesis
    by (auto simp: answered_def outcome_ok_def split: handled.splits)
qed

section \<open>The invariant of a connection\<close>

definition task_ok :: "frame \<Rightarrow> task \<Rightarrow> response_message list \<Rightarrow> bool" where
  "task_ok f t rs \<longleftrightarrow> (case t of
     Handle g \<Rightarrow> g = f \<and> \<not> runs_inline f \<and> rs = []
   | Reply pending \<Rightarrow> outcome_ok f (rs @ pending) \<and> list_all response_ok pending)"

lemma task_ok_simps [simp]:
  "task_ok f (Handle g) rs \<longleftrightarrow> g = f \<and> \<not> runs_inline f \<and> rs = []"
  "task_ok f (Reply pending) rs \<longleftrightarrow> outcome_ok f (rs @ pending) \<and> list_all response_ok pending"
  by (simp_all add: task_ok_def)

fun task_work :: "task \<Rightarrow> nat" where
  "task_work (Handle _) = 2"
| "task_work (Reply rs) = length rs"

definition conn_work :: "conn \<Rightarrow> nat" where
  "conn_work c = 4 * length (cn_unread c) + sum_list (map task_work (cn_tasks c)) - (if cn_waiting c then 1 else 0)"

text \<open>Where the requests of the connection are after the events \<open>es\<close>, and what is still to do.\<close>

definition conn_inv :: "frame list \<Rightarrow> error_code option \<Rightarrow> conn_event list \<Rightarrow> conn \<Rightarrow> bool" where
  "conn_inv frames fault es c \<longleftrightarrow>
     cn_fault c = fault \<and> (cn_open c \<longrightarrow> cn_driven c)
     \<and> length (cn_tasks c) \<le> length frames \<and> cn_unread c = drop (length (cn_tasks c)) frames
     \<and> (\<forall>k < length (cn_tasks c). task_ok (frames ! k) (cn_tasks c ! k) (responses_to k c))
     \<and> (\<forall>(k, r) \<in> set (cn_out c). response_ok r \<and> (k < length (cn_tasks c) \<or> \<not> cn_open c \<and> fault \<noteq> None))
     \<and> (cn_waiting c \<longrightarrow> cn_unread c \<noteq> [] \<and> runs_inline (hd (cn_unread c)))
     \<and> length (filter serves es) + conn_work c \<le> 4 * length frames"

lemma responses_to_update [simp]:
  "responses_to k (c\<lparr>cn_unread := u\<rparr>) = responses_to k c" "responses_to k (c\<lparr>cn_tasks := ts\<rparr>) = responses_to k c"
  "responses_to k (c\<lparr>cn_server := sv\<rparr>) = responses_to k c" "responses_to k (c\<lparr>cn_waiting := b\<rparr>) = responses_to k c"
  "responses_to k (c\<lparr>cn_open := b\<rparr>) = responses_to k c" "responses_to k (c\<lparr>cn_driven := b\<rparr>) = responses_to k c"
  "responses_to k (c\<lparr>cn_out := cn_out c @ [(j, r)]\<rparr>) = responses_to k c @ (if j = k then [r] else [])"
  by (simp_all add: responses_to_def)

lemma responses_to_none: "\<forall>(k, r) \<in> set (cn_out c). k < n \<Longrightarrow> responses_to n c = []"
  by (auto simp: responses_to_def filter_empty_conv)

lemma sum_list_update_le:
  fixes f :: "'a \<Rightarrow> nat"
  assumes "k < length ts" "f t + n \<le> f (ts ! k)"
  shows "sum_list (map f (ts[k := t])) + n \<le> sum_list (map f ts)"
  using assms elem_le_sum_list[of k "map f ts"] by (simp add: map_update sum_list_update)

lemma outcome_ok_length: "outcome_ok f rs \<Longrightarrow> length rs \<le> 1"
  by (auto simp: outcome_ok_def)

lemma conn_inv_spawn:
  assumes inv: "conn_inv frames fault es c" and "cn_open c" "cn_unread c = f # fs" "serves e"
    and t: "task_ok f t []" "task_work t \<le> 2" "runs_inline f \<longrightarrow> task_work t \<le> 1" "runs_inline f \<or> \<not> cn_waiting c"
  shows "conn_inv frames fault (es @ [e]) (c\<lparr>cn_unread := fs, cn_tasks := cn_tasks c @ [t], cn_server := sv, cn_waiting := False\<rparr>)"
proof -
  let ?n = "length (cn_tasks c)"
  have d: "drop ?n frames = f # fs" using inv assms(3) by (simp add: conn_inv_def)
  then have n: "?n < length frames" "frames ! ?n = f" "drop (Suc ?n) frames = fs"
    by (metis drop_eq_Nil2 list.distinct(1) not_le, metis hd_drop_conv_nth drop_eq_Nil2 list.distinct(1) list.sel(1) not_le,
        metis drop_Suc tl_drop list.sel(3))
  have "responses_to ?n c = []"
    using inv assms(2) by (intro responses_to_none) (auto simp: conn_inv_def)
  moreover have "conn_work (c\<lparr>cn_unread := fs, cn_tasks := cn_tasks c @ [t], cn_server := sv, cn_waiting := False\<rparr>) + 1 \<le> conn_work c"
    using assms(3) t by (auto simp: conn_work_def)
  ultimately show ?thesis
    using inv assms(2,4) n t(1) by (auto simp: conn_inv_def nth_append less_Suc_eq)
qed

lemma conn_inv_task:
  assumes inv: "conn_inv frames fault es c" and k: "k < length (cn_tasks c)" and "serves e"
    and t: "task_ok (frames ! k) t (responses_to k c @ map snd out)" "task_work t + 1 \<le> task_work (cn_tasks c ! k)"
      "\<forall>x \<in> set out. fst x = k \<and> response_ok (snd x)"
  shows "conn_inv frames fault (es @ [e]) (c\<lparr>cn_tasks := (cn_tasks c)[k := t], cn_out := cn_out c @ out, cn_server := sv\<rparr>)"
proof -
  let ?c = "c\<lparr>cn_tasks := (cn_tasks c)[k := t], cn_out := cn_out c @ out, cn_server := sv\<rparr>"
  have "filter (\<lambda>(m, r). m = j) out = (if j = k then out else [])" for j
    using t(3) by (auto simp: filter_empty_conv filter_id_conv)
  then have "responses_to j ?c = responses_to j c @ (if j = k then map snd out else [])" for j
    by (simp add: responses_to_def)
  moreover have "cn_waiting c \<longrightarrow> 0 < length (cn_unread c)" using inv unfolding conn_inv_def by blast
  then have "conn_work ?c + 1 \<le> conn_work c"
    using sum_list_update_le[OF k t(2)] by (cases "cn_unread c") (auto simp: conn_work_def)
  ultimately show ?thesis
    using inv k assms(3) t(1,3) by (auto simp: conn_inv_def nth_list_update)
qed

lemma conn_inv_step:
  assumes "\<forall>f \<in> set frames. frame_ok f" "conn_inv frames fault es c" "conn_step e c = Some c'" "writes_taken e"
  shows "conn_inv frames fault (es @ [e]) c'"
proof (cases e)
  case (Read env)
  then obtain f fs where f: "cn_open c" "cn_unread c = f # fs"
    using assms(3) by (auto split: if_splits list.splits)
  have "f \<in> set frames" using f(2) assms(2) by (metis conn_inv_def in_set_dropD list.set_intros(1))
  then have ok: "frame_ok f" "env_write_ok env" using assms(1,4) Read by auto
  consider (task) "\<not> runs_inline f" "c' = c\<lparr>cn_unread := fs, cn_tasks := cn_tasks c @ [Handle f]\<rparr>"
    | (inline) sv rs where "runs_inline f" "handle_request env f (cn_server c) = Handled sv rs"
        "c' = c\<lparr>cn_unread := fs, cn_tasks := cn_tasks c @ [Reply rs], cn_server := sv, cn_waiting := False\<rparr>"
    | (wait) "runs_inline f" "\<not> cn_waiting c" "c' = c\<lparr>cn_waiting := True\<rparr>"
    using assms(3) Read f by (auto split: if_splits handled.splits)
  then show ?thesis
  proof cases
    case task
    then have w: "\<not> cn_waiting c" using assms(2) f(2) by (auto simp: conn_inv_def)
    then have "c' = c\<lparr>cn_unread := fs, cn_tasks := cn_tasks c @ [Handle f], cn_server := cn_server c, cn_waiting := False\<rparr>"
      using task(2) by (cases c) simp
    then show ?thesis
      using conn_inv_spawn[OF assms(2) f, of e "Handle f" "cn_server c"] task(1) w Read by simp
  next
    case inline
    then have "outcome_ok f rs" "list_all response_ok rs"
      using handled_outcome[OF ok, of "cn_server c"] responses_ok_request[of env f "cn_server c"] by simp_all
    then show ?thesis
      using conn_inv_spawn[OF assms(2) f, of e "Reply rs" sv] inline Read outcome_ok_length by fastforce
  next
    case wait
    have "drop (length (cn_tasks c)) frames = f # fs" using assms(2) f(2) by (simp add: conn_inv_def)
    moreover from this have "length frames - length (cn_tasks c) = Suc (length fs)" by (metis length_Cons length_drop)
    ultimately show ?thesis using wait assms(2) f Read by (simp add: conn_inv_def conn_work_def)
  qed
next
  case (Run k env)
  then obtain f where k: "k < length (cn_tasks c)" "cn_tasks c ! k = Handle f"
    using assms(3) by (auto split: if_splits task.splits)
  then have f: "frames ! k = f" "responses_to k c = []" "f \<in> set frames"
    using assms(2) by (auto simp: conn_inv_def)
  then have ok: "frame_ok f" "env_write_ok env" using assms(1,4) Run by auto
  obtain sv rs where c': "c' = c\<lparr>cn_tasks := (cn_tasks c)[k := Reply rs], cn_out := cn_out c @ [], cn_server := sv\<rparr>"
      and rs: "rs = (case handle_request env f (cn_server c) of Handled _ rs \<Rightarrow> rs | _ \<Rightarrow> [])"
        "handle_request env f (cn_server c) \<noteq> Blocked"
    using assms(3) Run k by (auto split: if_splits handled.splits)
  have "outcome_ok f rs" "list_all response_ok rs"
    using handled_outcome[OF ok rs(2)] responses_ok_request[of env f "cn_server c"] rs
    by (auto split: handled.splits)
  then show ?thesis
    unfolding c' using f k Run outcome_ok_length[of f rs]
    by (intro conn_inv_task[OF assms(2)]) auto
next
  case (Send k)
  then obtain r rs where k: "k < length (cn_tasks c)" "cn_tasks c ! k = Reply (r # rs)"
      and c': "c' = c\<lparr>cn_tasks := (cn_tasks c)[k := Reply rs], cn_out := cn_out c @ [(k, r)], cn_server := cn_server c\<rparr>"
    using assms(3) by (auto split: if_splits task.splits list.splits)
  have "task_ok (frames ! k) (Reply (r # rs)) (responses_to k c)"
    using assms(2) k by (auto simp: conn_inv_def)
  then show ?thesis
    unfolding c' using k Send by (intro conn_inv_task[OF assms(2)]) auto
next
  case Reject
  with assms show ?thesis
    by (auto simp: conn_inv_def conn_work_def split: option.splits if_splits)
next
  case Stop
  with assms show ?thesis by (auto simp: conn_inv_def conn_work_def split: if_splits)
next
  case (Drive b)
  with assms show ?thesis by (auto simp: conn_inv_def conn_work_def split: if_splits)
next
  case (Disturb d)
  with assms(3) have "c' = c\<lparr>cn_server := disturb d (cn_server c)\<rparr>" by (simp split: if_splits)
  with Disturb assms(2) show ?thesis by (auto simp: conn_inv_def conn_work_def)
qed

text \<open>The events so far, and the invariant for sockets that took every write.\<close>

interpretation connection: history_machine conn_move
  "\<lambda>es c. \<forall>frames fault. conn_inv frames fault [] c0 \<longrightarrow> (\<forall>f \<in> set frames. frame_ok f) \<longrightarrow> list_all writes_taken es
     \<longrightarrow> conn_inv frames fault es c" for c0
  by unfold_locales (auto intro: conn_inv_step)

lemma conn_inv_run:
  assumes "step_run conn_move es c0 c" "conn_inv frames fault [] c0" "\<forall>f \<in> set frames. frame_ok f" "list_all writes_taken es"
  shows "conn_inv frames fault es c"
  using connection.inv_step_run[OF assms(1), of c0 "[]"] assms(2-4) by simp

lemma conn_inv_connect:
  "read_buffer obs 0 [] chunks = (frames, fault) \<Longrightarrow> conn_inv frames fault [] (connect obs chunks sv)"
  by (simp add: connect_def conn_inv_def conn_work_def)

text \<open>A connection that is open can go on, unless its \<open>CreateQ\<close> or \<open>DeleteQ\<close> waits for a sleeping timer.\<close>

lemma conn_progress:
  assumes "conn_inv frames fault es c" "\<forall>f \<in> set frames. frame_ok f" "cn_open c"
  shows "settled c \<or> (\<exists>e c'. serves e \<and> writes_taken e \<and> conn_step e c = Some c')
    \<or> (cn_waiting c \<and> sv_timers (cn_server c) \<noteq> [])"
proof (cases "cn_unread c")
  case (Cons f fs)
  then have "f \<in> set frames" using assms(1) by (metis conn_inv_def in_set_dropD list.set_intros(1))
  then have "case handle_request sample_env f (cn_server c) of
       Handled _ rs \<Rightarrow> length rs = 1
     | Crashed _ \<Rightarrow> \<not> runs_inline f
     | Blocked \<Rightarrow> sv_timers (cn_server c) \<noteq> []"
    using handle_request_answered[of f sample_env "cn_server c"] assms(2)
    by (auto simp: sample_env_def runs_inline_def split: handled.splits)
  then have "(\<exists>c'. conn_step (Read sample_env) c = Some c') \<or> cn_waiting c \<and> sv_timers (cn_server c) \<noteq> []"
    using Cons assms(3) by (auto split: handled.splits)
  moreover have "writes_taken (Read sample_env)" by (simp add: sample_env_def)
  ultimately show ?thesis by (metis serves.simps(1))
next
  case Nil
  then have w: "\<not> cn_waiting c" using assms(1) by (simp add: conn_inv_def)
  show ?thesis
  proof (cases "settled c")
    case False
    then obtain k where k: "k < length (cn_tasks c)" "cn_tasks c ! k \<noteq> Reply []"
      using Nil by (auto simp: settled_def list_all_length)
    show ?thesis
    proof (cases "cn_tasks c ! k")
      case (Handle f)
      have "task_ok (frames ! k) (cn_tasks c ! k) (responses_to k c)" "frames ! k \<in> set frames"
        using assms(1) k(1) by (auto simp: conn_inv_def)
      then have "frame_ok f" "\<not> runs_inline f" using Handle assms(2) by auto
      then have "handle_request sample_env f (cn_server c) \<noteq> Blocked"
        using handle_request_answered[of f sample_env "cn_server c"]
        by (auto simp: sample_env_def runs_inline_def)
      then have "\<exists>c'. conn_step (Run k sample_env) c = Some c'"
        using assms(1,3) k Handle w by (auto simp: conn_inv_def split: handled.split)
      moreover have "writes_taken (Run k sample_env)" by (simp add: sample_env_def)
      ultimately show ?thesis by (metis serves.simps(2))
    next
      case (Reply rs)
      then have "\<exists>c'. conn_step (Send k) c = Some c'"
        using assms(1,3) k by (auto simp: conn_inv_def split: list.split)
      then show ?thesis by (metis serves.simps(3) writes_taken.simps(3))
    qed
  qed simp
qed

lemma parse_written: "conn_inv frames fault es c \<Longrightarrow> length (written c) < 2 ^ 64 \<Longrightarrow>
    parse_responses (written c) = Some (map snd (cn_out c))"
  unfolding written_def map_map[symmetric]
  by (rule parse_responses_bytes) (auto simp: conn_inv_def list_all_iff)

text \<open>The frames of a client's stream.\<close>

lemma stream_frames:
  assumes "concat chunks = concat (map encode rs)" "\<forall>c \<in> set chunks. c \<noteq> []" "\<forall>r \<in> set rs. \<forall>i. request_ok (obs i) r"
  shows "read_buffer obs 0 [] chunks = (map frame_of rs, None)" "\<forall>f \<in> set (map frame_of rs). frame_ok f"
proof -
  have "chunks = [] \<Longrightarrow> rs = []"
    using assms(1) by (cases rs) auto
  then show "read_buffer obs 0 [] chunks = (map frame_of rs, None)"
    using assms by (intro read_buffer_stream) simp_all
  show "\<forall>f \<in> set (map frame_of rs). frame_ok f"
    using assms(3) frame_ok_of by (auto simp: request_ok_def)
qed


section \<open>Order\<close>

text \<open>
  A client that has seen every answer before it sends the next request: the loop reads a frame
  only when all tasks have ended.
\<close>

definition patient_move :: "conn_event \<Rightarrow> conn \<Rightarrow> conn \<Rightarrow> bool" where
  "patient_move e c c' \<longleftrightarrow> conn_step e c = Some c'
     \<and> (case e of Read _ \<Rightarrow> list_all ((=) (Reply [])) (cn_tasks c) | _ \<Rightarrow> True)"

text \<open>The reference: the requests one after the other, others in between.\<close>

datatype act = Own env | Other disturbance

definition answers :: "handled \<Rightarrow> response_message list" where
  "answers h = (case h of Handled _ rs \<Rightarrow> rs | _ \<Rightarrow> [])"

fun serve_act :: "act \<Rightarrow> frame list \<times> server \<times> response_message list list \<Rightarrow> frame list \<times> server \<times> response_message list list" where
  "serve_act (Own env) (f # fs, sv, outs) =
     (let h = handle_request env f sv in (fs, after sv h, outs @ [answers h]))"
| "serve_act (Own env) ([], sv, outs) = ([], sv, outs)"
| "serve_act (Other d) (fs, sv, outs) = (fs, disturb d sv, outs)"

definition numbered :: "response_message list list \<Rightarrow> (nat \<times> response_message) list" where
  "numbered outs = concat (map (\<lambda>k. map (Pair k) (outs ! k)) [0..<length outs])"

lemma numbered_Nil [simp]: "numbered [] = []"
  by (simp add: numbered_def)

lemma numbered_snoc [simp]: "numbered (outs @ [rs]) = numbered outs @ map (Pair (length outs)) rs"
  by (auto simp: numbered_def nth_append intro!: arg_cong[of _ _ concat])

lemma numbered_at: "k < length outs \<Longrightarrow> map snd (filter (\<lambda>(m, r). m = k) (numbered outs)) = outs ! k"
proof (induction outs rule: rev_induct)
  case (snoc rs outs)
  have "filter (\<lambda>a. fst a = length outs) (numbered outs) = []"
    by (auto simp: numbered_def filter_empty_conv)
  with snoc show ?case
    by (cases "k = length outs") (auto simp: nth_append comp_def filter_map case_prod_beta)
qed simp

lemma replicate_last [simp]:
  "(replicate n x @ [y])[n := z] = replicate n x @ [z]" "(replicate n x @ [y]) ! n = y"
  by (simp_all add: list_update_append nth_append)

text \<open>
  How far the reference is: all tasks have ended, or the last one has its handler to run, or it
  has responses left to write.
\<close>

definition patient_at :: "frame list \<Rightarrow> response_message list list \<Rightarrow> conn \<Rightarrow> bool" where
  "patient_at fs outs c \<longleftrightarrow>
     (cn_unread c = fs \<and> cn_tasks c = replicate (length outs) (Reply []) \<and> cn_out c = numbered outs)
     \<or> (\<exists>f. f # cn_unread c = fs \<and> cn_tasks c = replicate (length outs) (Reply []) @ [Handle f] \<and> cn_out c = numbered outs)
     \<or> (\<exists>sent pre rs. cn_unread c = fs \<and> outs = sent @ [pre @ rs] \<and> rs \<noteq> []
          \<and> cn_tasks c = replicate (length sent) (Reply []) @ [Reply rs]
          \<and> cn_out c = numbered sent @ map (Pair (length sent)) pre)"

definition patient_inv :: "frame list \<Rightarrow> server \<Rightarrow> conn_event list \<Rightarrow> conn \<Rightarrow> bool" where
  "patient_inv frames sv es c \<longleftrightarrow> cn_fault c = None \<and>
     (\<exists>acts fs outs. [d. Other d \<leftarrow> acts] = [d. Disturb d \<leftarrow> es]
        \<and> fold serve_act acts (frames, sv, []) = (fs, cn_server c, outs) \<and> patient_at fs outs c)"

lemma replicate_snoc: "replicate n x @ [x] = replicate (Suc n) x"
  by (simp add: replicate_append_same)

lemma patient_at_answered:
  assumes "cn_unread c = fs" "cn_tasks c = replicate (length outs) (Reply []) @ [Reply rs]" "cn_out c = numbered outs"
  shows "patient_at fs (outs @ [rs]) c"
proof (cases "rs = []")
  case True
  with assms show ?thesis by (auto simp: patient_at_def replicate_snoc)
next
  case False
  with assms show ?thesis
    unfolding patient_at_def by (intro disjI2 exI[of _ outs] exI[of _ "[]"] exI[of _ rs]) simp
qed

text \<open>The tasks of a patient client that are not over: only the last.\<close>

lemma patient_at_task:
  assumes "patient_at fs outs c" "k < length (cn_tasks c)" "cn_tasks c ! k \<noteq> Reply []"
  shows "(\<exists>f. k = length outs \<and> f # cn_unread c = fs \<and> cn_tasks c = replicate k (Reply []) @ [Handle f] \<and> cn_out c = numbered outs)
    \<or> (\<exists>sent pre rs. k = length sent \<and> cn_unread c = fs \<and> outs = sent @ [pre @ rs] \<and> rs \<noteq> []
          \<and> cn_tasks c = replicate k (Reply []) @ [Reply rs] \<and> cn_out c = numbered sent @ map (Pair k) pre)"
  using assms by (auto simp: patient_at_def nth_append less_Suc_eq split: if_splits)

lemma patient_at_idle:
  assumes "patient_at fs outs c" "list_all ((=) (Reply [])) (cn_tasks c)"
  shows "cn_unread c = fs \<and> cn_tasks c = replicate (length outs) (Reply []) \<and> cn_out c = numbered outs"
  using assms by (auto simp: patient_at_def)

lemma patient_at_update [simp]:
  "patient_at fs outs (c\<lparr>cn_server := sv\<rparr>) = patient_at fs outs c" "patient_at fs outs (c\<lparr>cn_waiting := b\<rparr>) = patient_at fs outs c"
  "patient_at fs outs (c\<lparr>cn_open := b\<rparr>) = patient_at fs outs c" "patient_at fs outs (c\<lparr>cn_driven := b\<rparr>) = patient_at fs outs c"
  by (simp_all add: patient_at_def)

text \<open>One step of the reference for each handler that runs, none for the rest.\<close>

lemma patient_invI:
  assumes "patient_inv frames sv es c" "cn_fault c' = None"
    "\<And>fs outs. patient_at fs outs c \<Longrightarrow> \<exists>acts fs' outs'. [d. Other d \<leftarrow> acts] = [d. Disturb d \<leftarrow> [e]]
       \<and> fold serve_act acts (fs, cn_server c, outs) = (fs', cn_server c', outs') \<and> patient_at fs' outs' c'"
  shows "patient_inv frames sv (es @ [e]) c'"
proof -
  obtain acts fs outs where *: "[d. Other d \<leftarrow> acts] = [d. Disturb d \<leftarrow> es]"
      "fold serve_act acts (frames, sv, []) = (fs, cn_server c, outs)" "patient_at fs outs c"
    using assms(1) unfolding patient_inv_def by blast
  obtain acts' fs' outs' where "[d. Other d \<leftarrow> acts'] = [d. Disturb d \<leftarrow> [e]]"
      "fold serve_act acts' (fs, cn_server c, outs) = (fs', cn_server c', outs')" "patient_at fs' outs' c'"
    using assms(3)[OF *(3)] by blast
  with * assms(2) show ?thesis
    unfolding patient_inv_def by (intro conjI exI[of _ "acts @ acts'"] exI[of _ fs'] exI[of _ outs']) simp_all
qed

lemma patient_inv_read:
  assumes "patient_inv frames sv es c" "patient_move (Read env) c c'"
  shows "patient_inv frames sv (es @ [Read env]) c'"
proof (rule patient_invI[OF assms(1)])
  show "cn_fault c' = None"
    using assms by (auto simp: patient_inv_def patient_move_def split: if_splits list.splits handled.splits)
  fix fs outs assume at: "patient_at fs outs c"
  have idle: "cn_unread c = fs" "cn_tasks c = replicate (length outs) (Reply [])" "cn_out c = numbered outs"
    using patient_at_idle[OF at] assms(2) by (simp_all add: patient_move_def)
  then obtain f rest where f: "fs = f # rest"
    using assms(2) by (auto simp: patient_move_def split: if_splits list.splits)
  consider (task) "c' = c\<lparr>cn_unread := rest, cn_tasks := cn_tasks c @ [Handle f]\<rparr>"
    | (inline) sv' rs where "handle_request env f (cn_server c) = Handled sv' rs"
        "c' = c\<lparr>cn_unread := rest, cn_tasks := cn_tasks c @ [Reply rs], cn_server := sv', cn_waiting := False\<rparr>"
    | (wait) "c' = c\<lparr>cn_waiting := True\<rparr>"
    using assms(2) f idle(1) by (auto simp: patient_move_def split: if_splits handled.splits)
  then show "\<exists>acts fs' outs'. [d. Other d \<leftarrow> acts] = [d. Disturb d \<leftarrow> [Read env]]
       \<and> fold serve_act acts (fs, cn_server c, outs) = (fs', cn_server c', outs') \<and> patient_at fs' outs' c'"
  proof cases
    case task
    with idle f have "patient_at fs outs c'" by (simp add: patient_at_def)
    with task show ?thesis by (intro exI[of _ "[]"] exI[of _ fs] exI[of _ outs]) simp
  next
    case inline
    with idle f have "patient_at rest (outs @ [rs]) c'" by (intro patient_at_answered) simp_all
    with inline f show ?thesis
      by (intro exI[of _ "[Own env]"] exI[of _ rest] exI[of _ "outs @ [rs]"]) (simp add: answers_def)
  next
    case wait
    with at show ?thesis by (intro exI[of _ "[]"] exI[of _ fs] exI[of _ outs]) simp
  qed
qed

lemma patient_inv_run:
  assumes "patient_inv frames sv es c" "conn_step (Run k env) c = Some c'"
  shows "patient_inv frames sv (es @ [Run k env]) c'"
proof (rule patient_invI[OF assms(1)])
  show "cn_fault c' = None"
    using assms by (auto simp: patient_inv_def split: if_splits task.splits handled.splits)
  fix fs outs assume at: "patient_at fs outs c"
  obtain f where k: "k < length (cn_tasks c)" "cn_tasks c ! k = Handle f"
    using assms(2) by (auto split: if_splits task.splits)
  then have f: "k = length outs" "fs = f # cn_unread c" "cn_tasks c = replicate k (Reply []) @ [Handle f]" "cn_out c = numbered outs"
    using patient_at_task[OF at k(1)] by (auto simp: nth_append)
  let ?h = "handle_request env f (cn_server c)"
  have c': "cn_unread c' = cn_unread c" "cn_tasks c' = replicate (length outs) (Reply []) @ [Reply (answers ?h)]"
      "cn_out c' = numbered outs" "cn_server c' = after (cn_server c) ?h"
    using assms(2) k f by (auto simp: answers_def split: if_splits handled.splits)
  then have "patient_at (cn_unread c) (outs @ [answers ?h]) c'" by (intro patient_at_answered) simp_all
  with c'(4) f(2) show "\<exists>acts fs' outs'. [d. Other d \<leftarrow> acts] = [d. Disturb d \<leftarrow> [Run k env]]
       \<and> fold serve_act acts (fs, cn_server c, outs) = (fs', cn_server c', outs') \<and> patient_at fs' outs' c'"
    by (intro exI[of _ "[Own env]"] exI[of _ "cn_unread c"] exI[of _ "outs @ [answers ?h]"]) (simp add: Let_def)
qed

lemma patient_inv_send:
  assumes "patient_inv frames sv es c" "conn_step (Send k) c = Some c'"
  shows "patient_inv frames sv (es @ [Send k]) c'"
proof (rule patient_invI[OF assms(1)])
  show "cn_fault c' = None"
    using assms by (auto simp: patient_inv_def split: if_splits task.splits list.splits)
  fix fs outs assume at: "patient_at fs outs c"
  obtain r rs where k: "k < length (cn_tasks c)" "cn_tasks c ! k = Reply (r # rs)"
      and c': "c' = c\<lparr>cn_tasks := (cn_tasks c)[k := Reply rs], cn_out := cn_out c @ [(k, r)]\<rparr>"
    using assms(2) by (auto split: if_splits task.splits list.splits)
  then obtain sent pre where s: "k = length sent" "cn_unread c = fs" "outs = sent @ [pre @ r # rs]"
      "cn_tasks c = replicate k (Reply []) @ [Reply (r # rs)]" "cn_out c = numbered sent @ map (Pair k) pre"
    using patient_at_task[OF at k(1)] by (auto simp: nth_append)
  have "patient_at fs outs c'"
  proof (cases "rs = []")
    case True
    with s c' show ?thesis by (auto simp: patient_at_def replicate_snoc)
  next
    case False
    with s c' show ?thesis
      unfolding patient_at_def
      by (intro disjI2 exI[of _ sent] exI[of _ "pre @ [r]"] exI[of _ rs]) simp
  qed
  with c' show "\<exists>acts fs' outs'. [d. Other d \<leftarrow> acts] = [d. Disturb d \<leftarrow> [Send k]]
       \<and> fold serve_act acts (fs, cn_server c, outs) = (fs', cn_server c', outs') \<and> patient_at fs' outs' c'"
    by (intro exI[of _ "[]"] exI[of _ fs] exI[of _ outs]) simp
qed

lemma patient_inv_step:
  assumes "patient_inv frames sv es c" "patient_move e c c'"
  shows "patient_inv frames sv (es @ [e]) c'"
proof (cases e)
  case (Disturb d)
  then have c': "c' = c\<lparr>cn_server := disturb d (cn_server c)\<rparr>" using assms(2) by (simp add: patient_move_def split: if_splits)
  show ?thesis
  proof (rule patient_invI[OF assms(1)])
    show "cn_fault c' = None" using assms(1) c' by (simp add: patient_inv_def)
    fix fs outs assume "patient_at fs outs c"
    with c' Disturb show "\<exists>acts fs' outs'. [d. Other d \<leftarrow> acts] = [d. Disturb d \<leftarrow> [e]]
       \<and> fold serve_act acts (fs, cn_server c, outs) = (fs', cn_server c', outs') \<and> patient_at fs' outs' c'"
      by (intro exI[of _ "[Other d]"] exI[of _ fs] exI[of _ outs]) simp
  qed
next
  case Reject
  with assms show ?thesis by (simp add: patient_move_def patient_inv_def)
next
  case Stop
  with assms(2) have "c' = c\<lparr>cn_open := False, cn_driven := False\<rparr>" by (simp add: patient_move_def split: if_splits)
  with Stop assms(1) show ?thesis by (simp add: patient_inv_def)
next
  case (Drive b)
  with assms(2) have "c' = c\<lparr>cn_driven := b\<rparr>" by (simp add: patient_move_def split: if_splits)
  with Drive assms(1) show ?thesis by (simp add: patient_inv_def)
next
  case (Read env)
  with assms patient_inv_read show ?thesis by blast
next
  case (Run k env)
  with assms patient_inv_run show ?thesis by (simp add: patient_move_def)
next
  case (Send k)
  with assms patient_inv_send show ?thesis by (simp add: patient_move_def)
qed

interpretation patient: history_machine patient_move "patient_inv frames sv" for frames sv
  by unfold_locales (rule patient_inv_step)

lemma patient_run_inv:
  assumes "step_run patient_move es (connect obs chunks sv) c" "read_buffer obs 0 [] chunks = (frames, None)"
  shows "patient_inv frames sv es c"
proof -
  have "patient_inv frames sv [] (connect obs chunks sv)"
    unfolding patient_inv_def using assms(2)
    by (intro conjI exI[of _ "[]"] exI[of _ frames]) (simp_all add: connect_def patient_at_def)
  from patient.inv_step_run[OF assms(1) this] show ?thesis by simp
qed

lemma patient_run_conn: "step_run patient_move es c0 c \<Longrightarrow> step_run conn_move es c0 c"
proof (induction rule: step_run.induct)
  case (run_more es s t e u)
  then show ?case using step_run.run_more[of conn_move es s t e u] by (simp add: patient_move_def)
qed (rule step_run.run_done)


text \<open>One acknowledgement, with nothing to acknowledge, in two pieces.\<close>

definition lone_request :: client_request where
  "lone_request = \<lparr>cr_command = ReqSucceeded, cr_client_id = 7, cr_queue_name = ''jobs'', cr_payload = []\<rparr>"

lemma lone_request_ok: "request_ok 1000 lone_request"
  using sample_requests_ok by (simp add: lone_request_def sample_requests_def request_ok_def name_ok_def)

lemma split_ne: "length s = 89 \<Longrightarrow> \<forall>c \<in> set [take 30 s, drop 30 s]. c \<noteq> []"
  by auto

definition lone_chunks :: "u8 list list" where
  "lone_chunks = [take 30 (encode lone_request), drop 30 (encode lone_request)]"

lemma lone_chunks: "concat lone_chunks = concat (map encode [lone_request])" "\<forall>c \<in> set lone_chunks. c \<noteq> []"
    "\<forall>r \<in> set [lone_request]. \<forall>i. request_ok 1000 r"
  using split_ne[of "encode lone_request"] lone_request_ok
  by (simp_all add: lone_chunks_def length_encode lone_request_def)

lemma lone_run:
  "\<exists>c. step_run patient_move [Read sample_env, Run 0 sample_env, Send 0] (connect (\<lambda>_. 1000) lone_chunks two_queues) c
     \<and> cn_out c = [(0, failed NoSuchMessageIdLocked)] \<and> settled c \<and> cn_unread c = []"
proof -
  obtain sv' where r: "handle_request sample_env (frame_of lone_request) two_queues = Handled sv' [failed NoSuchMessageIdLocked]"
    by (simp add: handle_request_def handle_succeeded_def dequeue_message_sent_def lone_request_def frame_of_def
        get_queue_def two_queues_def server_new_def create_queue_def dequeue_def queue_new_def)
  define c where "c = connect (\<lambda>_. 1000) lone_chunks two_queues"
  have c: "cn_unread c = [frame_of lone_request]" "cn_tasks c = []" "cn_out c = []" "cn_server c = two_queues"
      "\<not> cn_waiting c" "cn_open c" "cn_driven c"
    using stream_frames[OF lone_chunks] by (simp_all add: c_def connect_def)
  have n: "\<not> runs_inline (frame_of lone_request)" by (simp add: runs_inline_def frame_of_def lone_request_def)
  define c1 where "c1 = c\<lparr>cn_unread := [], cn_tasks := [Handle (frame_of lone_request)]\<rparr>"
  define c2 where "c2 = c1\<lparr>cn_tasks := [Reply [failed NoSuchMessageIdLocked]], cn_server := sv'\<rparr>"
  define c3 where "c3 = c2\<lparr>cn_tasks := [Reply []], cn_out := [(0, failed NoSuchMessageIdLocked)]\<rparr>"
  have s1: "patient_move (Read sample_env) c c1" using c n by (simp add: c1_def patient_move_def)
  have s2: "patient_move (Run 0 sample_env) c1 c2" using c r by (simp add: c1_def c2_def patient_move_def)
  have s3: "patient_move (Send 0) c2 c3" using c by (simp add: c1_def c2_def c3_def patient_move_def)
  show ?thesis
    unfolding c_def[symmetric]
    by (intro exI[of _ c3] conjI step_run_Cons[of patient_move, OF s1] step_run_Cons[of patient_move, OF s2]
        step_run_one[of patient_move, OF s3])
      (simp_all add: c3_def c2_def c1_def settled_def)
qed



text \<open>
  Without waiting the order is lost. A client that sends \<open>Enqueue\<close> and \<open>DeleteQ\<close> for one queue in one
  piece can see the deletion succeed first and the message refused: the loop deletes the queue
  before it lets the task of the first request run.
\<close>

lemma pipelined_delete_overtakes:
  assumes "get_queue name sv = Ok (hash, q)" "sv_timers sv = []"
    "read_buffer obs 0 [] chunks = ([frame_of e, frame_of d], None)"
    "cr_command e = ReqEnqueue" "cr_queue_name e = name" "cr_command d = ReqDeleteQ" "cr_queue_name d = name"
  shows "\<exists>c. step_run conn_move [Read env, Read env, Run 0 env, Send 1, Send 0] (connect obs chunks sv) c
     \<and> settled c \<and> cn_out c = [(1, succeeded []), (0, failed QueueHashNotFound)]"
proof -
  define c where "c = connect obs chunks sv"
  have c: "cn_unread c = [frame_of e, frame_of d]" "cn_tasks c = []" "cn_out c = []" "cn_server c = sv"
      "\<not> cn_waiting c" "cn_open c" "cn_driven c"
    using assms(3) by (simp_all add: c_def connect_def)
  define sv' where "sv' = sv\<lparr>sv_queue_names := hm_remove name (sv_queue_names sv), sv_queue := hm_remove hash (sv_queue sv)\<rparr>"
  define c1 where "c1 = c\<lparr>cn_unread := [frame_of d], cn_tasks := [Handle (frame_of e)]\<rparr>"
  define c2 where "c2 = c1\<lparr>cn_unread := [], cn_tasks := [Handle (frame_of e), Reply [succeeded []]], cn_server := sv', cn_waiting := False\<rparr>"
  define c3 where "c3 = c2\<lparr>cn_tasks := [Reply [failed QueueHashNotFound], Reply [succeeded []]], cn_server := sv'\<rparr>"
  define c4 where "c4 = c3\<lparr>cn_tasks := [Reply [failed QueueHashNotFound], Reply []], cn_out := [(1, succeeded [])]\<rparr>"
  define c5 where "c5 = c4\<lparr>cn_tasks := [Reply [], Reply []], cn_out := [(1, succeeded []), (0, failed QueueHashNotFound)]\<rparr>"
  have "handle_request env (frame_of d) sv = Handled sv' [succeeded []]"
    using assms by (simp add: handle_request_def handle_delete_def frame_of_def get_queue_Ok sv'_def)
  moreover have "handle_request env (frame_of e) sv' = Handled sv' [failed QueueHashNotFound]"
    using assms by (simp add: handle_request_def handle_enqueue_def frame_of_def get_message_def with_queue_def
        get_queue_def sv'_def)
  ultimately have s: "conn_step (Read env) c = Some c1" "conn_step (Read env) c1 = Some c2"
      "conn_step (Run 0 env) c2 = Some c3" "conn_step (Send 1) c3 = Some c4" "conn_step (Send 0) c4 = Some c5"
    using c assms(4,6) by (simp_all add: c1_def c2_def c3_def c4_def c5_def runs_inline_def frame_of_def)
  show ?thesis
    unfolding c_def[symmetric]
    by (intro exI[of _ c5] conjI step_run_Cons[of conn_move, OF s(1)] step_run_Cons[of conn_move, OF s(2)]
        step_run_Cons[of conn_move, OF s(3)] step_run_Cons[of conn_move, OF s(4)] step_run_one[of conn_move, OF s(5)])
      (simp_all add: c5_def c4_def c3_def c2_def c1_def c settled_def)
qed

text \<open>
  Requests read before the client closes its side are not answered then: when the loop returns,
  the tasks that have not run stay where they are until the worker is given another connection.
\<close>

lemma ended_connection_rests:
  "step_run conn_move es s c \<Longrightarrow> \<not> cn_open s \<Longrightarrow> \<not> cn_driven s \<Longrightarrow> \<forall>b. Drive b \<notin> set es \<Longrightarrow>
     cn_tasks c = cn_tasks s \<and> cn_out c = cn_out s \<and> \<not> cn_open c \<and> \<not> cn_driven c"
proof (induction rule: step_run.induct)
  case (run_more es s t e u)
  then have "\<not> cn_open t" "\<not> cn_driven t" "\<forall>b. e \<noteq> Drive b" "cn_tasks t = cn_tasks s" "cn_out t = cn_out s"
    by auto
  with run_more.hyps(2) show ?case
    by (cases e) (auto split: if_splits option.splits)
qed simp

end
