(* ===== verification/Worker_Pool.thy ===== *)
theory Worker_Pool
  imports Broker_Prelude
begin

text \<open>
  The worker pool of \<open>src/net/server.rs\<close>: one thread per worker with a bounded channel of jobs and
  a counter of its pressure. A job is a connection. The counters are read one by one while other
  tasks move them, so \<open>spawn\<close> takes the values it happened to read; sending, receiving and
  finishing a job are steps of their own.
\<close>

section \<open>State\<close>

text \<open>
  A worker first builds its runtime; when that fails, the thread and the receiving end of its
  channel are gone. A worker that is up stays up: a job only cuts frames, which never panics,
  and the requests run in tasks of their own.
\<close>

datatype worker = Starting | Up | Dead

record 'j pool =
  pl_pressure :: "usize list"
  pl_capacity :: usize
  pl_worker :: "worker list"
  pl_channel :: "'j list list"
  pl_running :: "'j option list"
  pl_sending :: "(nat \<times> 'j) list"

definition pool_new :: "usize \<Rightarrow> usize \<Rightarrow> 'j pool" where
  "pool_new workers queue_capacity =
     \<lparr>pl_pressure = replicate workers 0, pl_capacity = queue_capacity, pl_worker = replicate workers Starting,
      pl_channel = replicate workers [], pl_running = replicate workers None, pl_sending = []\<rparr>"

section \<open>Handing out a job\<close>

text \<open>\<open>min_by_key\<close> keeps the first of several smallest elements.\<close>

fun min_index :: "nat \<Rightarrow> usize \<Rightarrow> nat \<Rightarrow> usize list \<Rightarrow> nat" where
  "min_index i least found [] = found"
| "min_index i least found (x # xs) =
     (if x < least then min_index (Suc i) x i xs else min_index (Suc i) least found xs)"

definition pick_worker :: "usize list \<Rightarrow> nat" where
  "pick_worker loads = (case loads of [] \<Rightarrow> 0 | x # xs \<Rightarrow> min_index 1 x 0 xs)"

text \<open>
  Up to the call of \<open>sender.send\<close>, on the counters that were read. Indexing an empty vector panics,
  so the error for a worker without a channel cannot be reached.
\<close>

definition spawn :: "usize list \<Rightarrow> 'j \<Rightarrow> 'j pool \<Rightarrow> (io_error, 'j pool) result" where
  "spawn loads job p =
     (let worker_id = pick_worker loads
      in if worker_id < length (pl_pressure p) then
           Ok (p\<lparr>pl_pressure := (pl_pressure p)[worker_id := pl_pressure p ! worker_id + 1],
                 pl_sending := pl_sending p @ [(worker_id, job)]\<rparr>)
         else Panic)"

text \<open>
  What a send does: it waits for room (a channel of capacity 0 hands over to a worker that
  waits), or fails once the receiver is gone; the counter is then left as it is.
\<close>

definition has_room :: "nat \<Rightarrow> 'j pool \<Rightarrow> bool" where
  "has_room w p \<longleftrightarrow>
     (if pl_capacity p = 0 then pl_worker p ! w = Up \<and> pl_running p ! w = None \<and> pl_channel p ! w = []
      else length (pl_channel p ! w) < pl_capacity p)"

definition send_accepted :: "nat \<Rightarrow> 'j pool \<Rightarrow> 'j pool" where
  "send_accepted i p =
     (let (w, job) = pl_sending p ! i
      in p\<lparr>pl_sending := vec_remove i (pl_sending p), pl_channel := (pl_channel p)[w := pl_channel p ! w @ [job]]\<rparr>)"

definition send_refused :: "nat \<Rightarrow> 'j pool \<Rightarrow> 'j pool" where
  "send_refused i p = p\<lparr>pl_sending := vec_remove i (pl_sending p)\<rparr>"

section \<open>A worker\<close>

definition worker_built :: "nat \<Rightarrow> 'j pool \<Rightarrow> 'j pool" where
  "worker_built w p = p\<lparr>pl_worker := (pl_worker p)[w := Up]\<rparr>"

definition worker_died :: "nat \<Rightarrow> 'j pool \<Rightarrow> 'j pool" where
  "worker_died w p = p\<lparr>pl_worker := (pl_worker p)[w := Dead], pl_channel := (pl_channel p)[w := []]\<rparr>"

definition worker_recv :: "nat \<Rightarrow> 'j pool \<Rightarrow> 'j pool" where
  "worker_recv w p =
     (case pl_channel p ! w of
        [] \<Rightarrow> p
      | job # rest \<Rightarrow> p\<lparr>pl_channel := (pl_channel p)[w := rest], pl_running := (pl_running p)[w := Some job]\<rparr>)"

definition worker_finish :: "nat \<Rightarrow> 'j pool \<Rightarrow> 'j pool" where
  "worker_finish w p =
     p\<lparr>pl_running := (pl_running p)[w := None],
       pl_pressure := (pl_pressure p)[w := (if pl_pressure p ! w = 0 then usize_max else pl_pressure p ! w - 1)]\<rparr>"

section \<open>Interleavings\<close>

datatype 'j event = Submitted 'j | Finished 'j | Refused nat 'j | Dropped nat "'j list" | Internal

inductive pool_step :: "'j event \<Rightarrow> 'j pool \<Rightarrow> 'j pool \<Rightarrow> bool" where
  submit: "length loads = length (pl_pressure p) \<Longrightarrow> spawn loads j p = Ok p' \<Longrightarrow> pool_step (Submitted j) p p'"
| accept: "i < length (pl_sending p) \<Longrightarrow> pl_sending p ! i = (w, j) \<Longrightarrow> pl_worker p ! w \<noteq> Dead \<Longrightarrow> has_room w p \<Longrightarrow>
    pool_step Internal p (send_accepted i p)"
| refuse: "i < length (pl_sending p) \<Longrightarrow> pl_sending p ! i = (w, j) \<Longrightarrow> pl_worker p ! w = Dead \<Longrightarrow>
    pool_step (Refused w j) p (send_refused i p)"
| built: "w < length (pl_worker p) \<Longrightarrow> pl_worker p ! w = Starting \<Longrightarrow> pool_step Internal p (worker_built w p)"
| died: "w < length (pl_worker p) \<Longrightarrow> pl_worker p ! w = Starting \<Longrightarrow>
    pool_step (Dropped w (pl_channel p ! w)) p (worker_died w p)"
| recv: "w < length (pl_worker p) \<Longrightarrow> pl_worker p ! w = Up \<Longrightarrow> pl_running p ! w = None \<Longrightarrow> pl_channel p ! w \<noteq> [] \<Longrightarrow>
    pool_step Internal p (worker_recv w p)"
| finish: "w < length (pl_worker p) \<Longrightarrow> pl_running p ! w = Some j \<Longrightarrow> pool_step (Finished j) p (worker_finish w p)"

abbreviation pool_run :: "'j event list \<Rightarrow> 'j pool \<Rightarrow> 'j pool \<Rightarrow> bool" where
  "pool_run \<equiv> step_run pool_step"

lemmas pool_first = step_run_Cons[of pool_step]
lemmas pool_one = step_run_one[of pool_step]

inductive_cases pool_stepE: "pool_step e p q"

end
