(* ===== verification/Pool_Properties.thy ===== *)
theory Pool_Properties
  imports Worker_Pool
begin

text \<open>
  What the worker pool keeps in every interleaving: exact counters, no connection lost or served
  twice, the least loaded worker chosen, and no way to get stuck.
\<close>

section \<open>Loads and jobs\<close>

definition load :: "nat \<Rightarrow> 'j pool \<Rightarrow> nat" where
  "load w p = length (pl_channel p ! w) + (if pl_running p ! w = None then 0 else 1)
     + count_list (map fst (pl_sending p)) w"

text \<open>What a run has lost at a worker: jobs in a channel that went away, and refused sends.\<close>

fun lost_by :: "nat \<Rightarrow> 'j event \<Rightarrow> nat" where
  "lost_by w (Refused v j) = (if v = w then 1 else 0)"
| "lost_by w (Dropped v js) = (if v = w then length js else 0)"
| "lost_by w _ = 0"

definition lost :: "nat \<Rightarrow> 'j event list \<Rightarrow> nat" where
  "lost w es = sum_list (map (lost_by w) es)"

lemma lost_simps [simp]: "lost w [] = 0" "lost w (es @ [e]) = lost w es + lost_by w e"
  by (simp_all add: lost_def)

definition sizes_ok :: "nat \<Rightarrow> 'j pool \<Rightarrow> bool" where
  "sizes_ok n p \<longleftrightarrow> length (pl_pressure p) = n \<and> length (pl_worker p) = n \<and> length (pl_channel p) = n
     \<and> length (pl_running p) = n \<and> (\<forall>s \<in> set (pl_sending p). fst s < n)"

definition worker_ok :: "nat \<Rightarrow> nat \<Rightarrow> 'j pool \<Rightarrow> bool" where
  "worker_ok w lost_here p \<longleftrightarrow> pl_pressure p ! w = load w p + lost_here
     \<and> (pl_worker p ! w \<noteq> Dead \<longrightarrow> lost_here = 0)
     \<and> (pl_worker p ! w \<noteq> Up \<longrightarrow> pl_running p ! w = None)
     \<and> (pl_worker p ! w = Dead \<longrightarrow> pl_channel p ! w = [])
     \<and> length (pl_channel p ! w) \<le> max 1 (pl_capacity p)"

lemma count_vec_remove:
  assumes "i < length xs"
  shows "count_list (map f xs) y = count_list (map f (vec_remove i xs)) y + (if f (xs ! i) = y then 1 else 0)"
  by (subst id_take_nth_drop[OF assms]) (simp add: vec_remove_def)

lemma in_set_vec_remove: "x \<in> set (vec_remove i xs) \<Longrightarrow> x \<in> set xs"
  using set_vec_remove_subset by fast

lemma min_index_spec:
  assumes "found < i"
  shows "min_index i least found xs = found \<and> (\<forall>x \<in> set xs. least \<le> x)
     \<or> (\<exists>k < length xs. min_index i least found xs = i + k \<and> xs ! k < least \<and> (\<forall>x \<in> set xs. xs ! k \<le> x)
          \<and> (\<forall>l < k. xs ! k < xs ! l))"
  using assms
proof (induction xs arbitrary: i least found)
    case (Cons x xs)
    show ?case
    proof (cases "x < least")
      case True
      from Cons.IH[of i "Suc i" x] consider
        (here) "min_index (Suc i) x i xs = i" "\<forall>y \<in> set xs. x \<le> y"
        | (later) k where "k < length xs" "min_index (Suc i) x i xs = Suc i + k" "xs ! k < x"
            "\<forall>y \<in> set xs. xs ! k \<le> y" "\<forall>l < k. xs ! k < xs ! l"
        by auto
      then show ?thesis
      proof cases
        case here
        with True show ?thesis by (auto intro!: exI[of _ 0])
      next
        case later
        with True show ?thesis
          by (auto intro!: exI[of _ "Suc k"] simp: nth_Cons split: nat.split)
      qed
    next
      case False
      from Cons.IH[of found "Suc i" least] Cons.prems consider
        (here) "min_index (Suc i) least found xs = found" "\<forall>y \<in> set xs. least \<le> y"
        | (later) k where "k < length xs" "min_index (Suc i) least found xs = Suc i + k" "xs ! k < least"
            "\<forall>y \<in> set xs. xs ! k \<le> y" "\<forall>l < k. xs ! k < xs ! l"
        by auto
      then show ?thesis
      proof cases
        case here
        with False show ?thesis by auto
      next
        case later
        with False show ?thesis
          by (auto intro!: disjI2 exI[of _ "Suc k"] simp: nth_Cons split: nat.split)
      qed
    qed
qed simp

lemma pick_worker_spec:
  assumes "loads \<noteq> []"
  shows "pick_worker loads < length loads" "\<forall>x \<in> set loads. loads ! pick_worker loads \<le> x"
    "\<forall>v < pick_worker loads. loads ! pick_worker loads < loads ! v"
proof -
  obtain x xs where l: "loads = x # xs" using assms by (cases loads) auto
  have "min_index 1 x 0 xs = 0 \<and> (\<forall>y \<in> set xs. x \<le> y)
     \<or> (\<exists>k < length xs. min_index 1 x 0 xs = 1 + k \<and> xs ! k < x \<and> (\<forall>y \<in> set xs. xs ! k \<le> y)
          \<and> (\<forall>l < k. xs ! k < xs ! l))"
    by (rule min_index_spec) simp
  then show "\<forall>y \<in> set loads. loads ! pick_worker loads \<le> y"
    "\<forall>v < pick_worker loads. loads ! pick_worker loads < loads ! v"
    by (auto simp: l pick_worker_def nth_Cons split: nat.split)
  show "pick_worker loads < length loads"
    using min_index_spec[of 0 1 x xs] by (auto simp: l pick_worker_def)
qed

section \<open>The counters\<close>

lemma pool_new_ok: "sizes_ok n (pool_new n c)" "w < n \<Longrightarrow> worker_ok w 0 (pool_new n c)"
  by (simp_all add: sizes_ok_def worker_ok_def pool_new_def load_def)

lemmas pool_ops = send_accepted_def send_refused_def worker_built_def worker_died_def worker_recv_def worker_finish_def

lemma spawn_OkE:
  assumes "spawn loads j p = Ok p'"
  obtains w where "w = pick_worker loads" "w < length (pl_pressure p)"
    "p' = p\<lparr>pl_pressure := (pl_pressure p)[w := pl_pressure p ! w + 1], pl_sending := pl_sending p @ [(w, j)]\<rparr>"
  using assms by (auto simp: spawn_def Let_def split: if_splits)

lemma sizes_ok_step: "pool_step e p q \<Longrightarrow> sizes_ok n p \<Longrightarrow> sizes_ok n q"
  by (erule pool_step.cases)
     (auto simp: sizes_ok_def pool_ops elim!: spawn_OkE dest!: in_set_vec_remove split: list.split prod.split)

lemma worker_ok_step:
  assumes "pool_step e p q" "sizes_ok n p" "w < n" "worker_ok w k p"
  shows "worker_ok w (k + lost_by w e) q"
  using assms(1)
proof (cases rule: pool_step.cases)
  case (submit loads j)
  from submit(3) show ?thesis
    by (rule spawn_OkE) (use submit assms in \<open>auto simp: worker_ok_def load_def sizes_ok_def nth_list_update\<close>)
next
  case (accept i v j)
  then show ?thesis
    using assms(2-4) count_vec_remove[of i "pl_sending p" fst w]
    by (auto simp: worker_ok_def load_def sizes_ok_def send_accepted_def has_room_def nth_list_update split: if_splits)
next
  case (refuse i v j)
  then show ?thesis
    using assms(2-4) count_vec_remove[of i "pl_sending p" fst w]
    by (auto simp: worker_ok_def load_def sizes_ok_def send_refused_def)
next
  case (recv v)
  then obtain j rest where "pl_channel p ! v = j # rest" by (cases "pl_channel p ! v") auto
  with recv show ?thesis
    using assms(2-4) by (auto simp: worker_ok_def load_def sizes_ok_def worker_recv_def nth_list_update)
qed (use assms(2-4) in \<open>auto simp: worker_ok_def load_def sizes_ok_def pool_ops nth_list_update\<close>)

definition pool_inv :: "nat \<Rightarrow> nat \<Rightarrow> 'j event list \<Rightarrow> 'j pool \<Rightarrow> bool" where
  "pool_inv n c es p \<longleftrightarrow> sizes_ok n p \<and> pl_capacity p = c \<and> (\<forall>w < n. worker_ok w (lost w es) p)"

lemma capacity_step: "pool_step e p q \<Longrightarrow> pl_capacity q = pl_capacity p"
  by (erule pool_step.cases) (auto simp: pool_ops elim!: spawn_OkE split: list.split prod.split)

interpretation pool: history_machine pool_step "pool_inv n c" for n c
  by unfold_locales (auto simp: pool_inv_def sizes_ok_step worker_ok_step capacity_step)

lemma pool_run_ok:
  "pool_run es (pool_new n c) q \<Longrightarrow> sizes_ok n q \<and> (\<forall>w < n. worker_ok w (lost w es) q) \<and> pl_capacity q = c"
proof -
  assume run: "pool_run es (pool_new n c) q"
  have "pool_inv n c [] (pool_new n c)"
    using pool_new_ok by (auto simp: pool_inv_def) (simp add: pool_new_def)
  from pool.inv_step_run[OF run this] show ?thesis
    by (simp add: pool_inv_def)
qed

text \<open>
  C16. In every interleaving of connections arriving, sends, workers starting, failing to start,
  receiving and finishing, the pressure counter of a live worker is exactly the number of
  connections handed to it and not finished. The counter of a worker whose thread died keeps,
  besides, every connection it ever lost: a failed send does not take back its increment.
\<close>

theorem pool_pressure_exact:
  assumes "pool_run es (pool_new n c) p" "w < n"
  shows "pl_pressure p ! w = load w p + lost w es \<and> (pl_worker p ! w \<noteq> Dead \<longrightarrow> lost w es = 0)
    \<and> length (pl_channel p ! w) \<le> max 1 c"
  using pool_run_ok[OF assms(1)] assms(2) by (auto simp: worker_ok_def)

definition sample_pool :: "string pool" where
  "sample_pool = send_refused 0 (worker_died 0 ((pool_new 1 5)\<lparr>pl_pressure := [1], pl_sending := [(0, ''a'')]\<rparr>))"

lemma sample_pool_run:
  "pool_run [Submitted ''a'', Dropped 0 [], Refused 0 ''a''] (pool_new 1 5) sample_pool"
proof -
  let ?p1 = "(pool_new 1 5)\<lparr>pl_pressure := [1], pl_sending := [(0, ''a'')]\<rparr>"
  have s1: "pool_step (Submitted ''a'') (pool_new 1 5) ?p1"
    by (rule pool_step.submit[where loads = "[0]"]) (simp_all add: pool_new_def spawn_def pick_worker_def)
  have s2: "pool_step (Dropped 0 []) ?p1 (worker_died 0 ?p1)"
    using pool_step.died[of 0 ?p1] by (simp add: pool_new_def)
  have s3: "pool_step (Refused 0 ''a'') (worker_died 0 ?p1) sample_pool"
    unfolding sample_pool_def by (rule pool_step.refuse) (simp_all add: pool_new_def worker_died_def)
  show ?thesis
    by (intro pool_first[OF s1] pool_first[OF s2] pool_one[OF s3])
qed

theorem pool_pressure_exact_witness:
  "pl_pressure sample_pool ! 0 = 1 \<and> load 0 sample_pool = 0"
  using pool_pressure_exact[OF sample_pool_run, of 0]
  by (simp add: sample_pool_def load_def pool_new_def worker_died_def send_refused_def vec_remove_def lost_def)

section \<open>No connection is lost\<close>

fun submitted_by :: "'j event \<Rightarrow> 'j multiset" where
  "submitted_by (Submitted j) = {#j#}"
| "submitted_by _ = {#}"

fun settled_by :: "'j event \<Rightarrow> 'j multiset" where
  "settled_by (Finished j) = {#j#}"
| "settled_by (Refused w j) = {#j#}"
| "settled_by (Dropped w js) = mset js"
| "settled_by _ = {#}"

definition jobs_of :: "'j option \<Rightarrow> 'j list" where
  "jobs_of r = (case r of None \<Rightarrow> [] | Some j \<Rightarrow> [j])"

definition jobs :: "'j pool \<Rightarrow> 'j multiset" where
  "jobs p = mset (map snd (pl_sending p)) + mset (concat (pl_channel p)) + mset (concat (map jobs_of (pl_running p)))"

lemma mset_concat_update:
  "w < length xs \<Longrightarrow> mset (concat (xs[w := ys])) + mset (xs ! w) = mset (concat xs) + mset ys"
  by (induction xs arbitrary: w) (auto split: nat.split simp: add.commute add.left_commute)

lemma mset_vec_remove: "i < length xs \<Longrightarrow> mset (map f xs) = add_mset (f (xs ! i)) (mset (map f (vec_remove i xs)))"
  by (subst id_take_nth_drop) (auto simp: vec_remove_def)

lemma jobs_step:
  assumes "pool_step e p q" "sizes_ok n p"
  shows "jobs q + settled_by e = jobs p + submitted_by e"
  using assms(1)
proof (cases rule: pool_step.cases)
  case (submit loads j)
  from submit(3) show ?thesis
    by (rule spawn_OkE) (simp add: jobs_def submit)
next
  case (accept i w j)
  then have "w < length (pl_channel p)"
    using assms(2) nth_mem by (fastforce simp: sizes_ok_def)
  then show ?thesis
    using accept mset_concat_update[of w "pl_channel p" "pl_channel p ! w @ [j]"] mset_vec_remove[of i "pl_sending p" snd]
    by (simp add: jobs_def send_accepted_def)
next
  case (refuse i w j)
  then show ?thesis
    using mset_vec_remove[of i "pl_sending p" snd] by (simp add: jobs_def send_refused_def)
next
  case (died w)
  then show ?thesis
    using assms(2) mset_concat_update[of w "pl_channel p" "[]"] by (simp add: jobs_def worker_died_def sizes_ok_def)
next
  case (recv w)
  then obtain j rest where c: "pl_channel p ! w = j # rest" by (cases "pl_channel p ! w") auto
  with recv show ?thesis
    using assms(2) mset_concat_update[of w "pl_channel p" rest]
      mset_concat_update[of w "map jobs_of (pl_running p)" "[j]"]
    by (simp add: jobs_def worker_recv_def sizes_ok_def map_update jobs_of_def)
next
  case (finish w j)
  then show ?thesis
    using assms(2) mset_concat_update[of w "map jobs_of (pl_running p)" "[]"]
    by (simp add: jobs_def worker_finish_def sizes_ok_def map_update jobs_of_def)
qed (simp add: jobs_def worker_built_def)

text \<open>
  C17. No connection is lost and none is served twice: in every interleaving, the connections that
  arrived are those that finished, those refused or dropped with a dead worker, and those
  still in the pool, each exactly once.
\<close>

theorem pool_conserves_connections:
  assumes "pool_run es (pool_new n c) p"
  shows "(\<Sum>e\<leftarrow>es. submitted_by e) = (\<Sum>e\<leftarrow>es. settled_by e) + jobs p"
  using assms
proof (induction es "pool_new n c :: 'a pool" p rule: step_run.induct)
  case run_done
  have "concat (replicate n ([] :: 'b list)) = []" by (induction n) simp_all
  then show ?case
    by (induction n) (simp_all add: jobs_def pool_new_def jobs_of_def)
next
  case (run_more es q e r)
  then show ?case
    using jobs_step[of e q r n] pool_run_ok[OF run_more(1)] by (simp add: ac_simps)
qed

theorem pool_conserves_connections_witness:
  "jobs sample_pool = {#}"
  using pool_conserves_connections[OF sample_pool_run] by simp

section \<open>The choice of a worker\<close>

text \<open>
  C39. When the counters are read undisturbed and all workers live, a connection goes to the first
  of the workers that have the fewest unfinished connections; only its counter changes.
\<close>

theorem spawn_least_loaded:
  assumes "pool_run es (pool_new n c) p" "0 < n" "Dead \<notin> set (pl_worker p)"
  shows "\<exists>w < n. spawn (pl_pressure p) j p
       = Ok (p\<lparr>pl_pressure := (pl_pressure p)[w := load w p + 1], pl_sending := pl_sending p @ [(w, j)]\<rparr>)
     \<and> (\<forall>v < n. load w p \<le> load v p) \<and> (\<forall>v < w. load w p < load v p)"
proof -
  have ok: "sizes_ok n p" and w: "\<forall>w < n. worker_ok w (lost w es) p"
    using pool_run_ok[OF assms(1)] by auto
  then have len: "length (pl_pressure p) = n" "pl_pressure p \<noteq> []"
    using assms(2) by (auto simp: sizes_ok_def)
  have "pl_worker p ! w \<noteq> Dead" if "w < n" for w
    using assms(3) that ok by (metis nth_mem sizes_ok_def)
  then have pressure: "pl_pressure p ! v = load v p" if "v < n" for v
    using w that by (auto simp: worker_ok_def)
  note pick = pick_worker_spec[OF len(2)]
  let ?w = "pick_worker (pl_pressure p)"
  have "?w < n" "pl_pressure p ! ?w = load ?w p"
    using pick(1) len pressure by simp_all
  moreover have "load ?w p \<le> load v p" if "v < n" for v
    using pick(2) that len pressure calculation by (metis nth_mem)
  moreover have "load ?w p < load v p" if "v < ?w" for v
    using pick(3) that pressure calculation by fastforce
  ultimately show ?thesis
    using len(1) by (intro exI[of _ ?w]) (simp add: spawn_def Let_def)
qed

theorem spawn_least_loaded_witness:
  "\<exists>w < 2. spawn [0, 0] ''a'' (pool_new 2 5) = Ok ((pool_new 2 5)\<lparr>pl_pressure := [0, 0][w := 1], pl_sending := [(w, ''a'')]\<rparr>)"
  using spawn_least_loaded[OF step_run.run_done, of 2 5 "''a''"]
  by (auto simp: pool_new_def load_def numeral_2_eq_2 less_Suc_eq)

text \<open>
  A pool of no workers (\<open>THREADS_LIMIT=0\<close>, which the settings accept) panics on every connection.
\<close>

theorem spawn_without_workers_panics: "spawn [] j (pool_new 0 c) = Panic"
  by (simp add: spawn_def pick_worker_def pool_new_def)

section \<open>The pool never gets stuck\<close>

text \<open>The steps left in a pool that gets no new connection.\<close>

definition backlog :: "'j pool \<Rightarrow> nat" where
  "backlog p = 3 * length (pl_sending p) + 2 * length (concat (pl_channel p))
     + length (concat (map jobs_of (pl_running p))) + count_list (pl_worker p) Starting"

definition submits :: "'j event \<Rightarrow> bool" where
  "submits e \<longleftrightarrow> submitted_by e \<noteq> {#}"

lemma length_concat_update:
  "w < length xs \<Longrightarrow> length (concat (xs[w := ys])) + length (xs ! w) = length (concat xs) + length ys"
  by (induction xs arbitrary: w) (auto split: nat.split)

lemma count_list_update:
  "w < length xs \<Longrightarrow> count_list (xs[w := y]) z + (if xs ! w = z then 1 else 0) = count_list xs z + (if y = z then 1 else 0)"
proof (induction xs arbitrary: w)
  case (Cons x xs)
  show ?case
  proof (cases w)
    case (Suc k)
    then show ?thesis using Cons.IH[of k] Cons.prems by (auto split: if_splits)
  qed simp
qed simp

lemma backlog_step:
  assumes "pool_step e p q" "sizes_ok n p" "\<not> submits e"
  shows "backlog q < backlog p"
  using assms(1)
proof (cases rule: pool_step.cases)
  case (accept i w j)
  then have "w < length (pl_channel p)"
    using assms(2) by (metis fst_conv nth_mem sizes_ok_def)
  then show ?thesis
    using accept length_concat_update[of w "pl_channel p" "pl_channel p ! w @ [j]"] length_vec_remove[of i "pl_sending p"]
    by (simp add: backlog_def send_accepted_def)
next
  case (refuse i w j)
  then show ?thesis
    using length_vec_remove[of i "pl_sending p"] by (simp add: backlog_def send_refused_def)
next
  case (built w)
  then show ?thesis
    using count_list_update[of w "pl_worker p" Up Starting] by (simp add: backlog_def worker_built_def)
next
  case (died w)
  then show ?thesis
    using assms(2) count_list_update[of w "pl_worker p" Dead Starting] length_concat_update[of w "pl_channel p" "[]"]
    by (simp add: backlog_def worker_died_def sizes_ok_def)
next
  case (recv w)
  then obtain j rest where c: "pl_channel p ! w = j # rest" by (cases "pl_channel p ! w") auto
  with recv show ?thesis
    using assms(2) length_concat_update[of w "pl_channel p" rest]
      length_concat_update[of w "map jobs_of (pl_running p)" "[j]"]
    by (simp add: backlog_def worker_recv_def sizes_ok_def map_update jobs_of_def)
next
  case (finish w j)
  then show ?thesis
    using assms(2) length_concat_update[of w "map jobs_of (pl_running p)" "[]"]
    by (simp add: backlog_def worker_finish_def sizes_ok_def map_update jobs_of_def)
qed (use assms(3) in \<open>simp add: submits_def\<close>)

lemma backlog_run:
  "pool_run fs p q \<Longrightarrow> sizes_ok n p \<Longrightarrow> \<not> list_ex submits fs \<Longrightarrow> sizes_ok n q \<and> length fs + backlog q \<le> backlog p"
proof (induction rule: step_run.induct)
  case (run_more es p q e r)
  then have "sizes_ok n q" "length es + backlog q \<le> backlog p" "backlog r < backlog q"
    using backlog_step[of e q r n] by auto
  with run_more(2) show ?case
    using sizes_ok_step by fastforce
qed simp

lemma idle_jobs:
  assumes "sizes_ok n p" "\<forall>w < n. worker_ok w (k w) p"
    "\<forall>e q. pool_step e p q \<longrightarrow> submits e"
  shows "pl_sending p = []" "w < n \<Longrightarrow> pl_channel p ! w = [] \<and> pl_running p ! w = None"
proof -
  have len: "length (pl_worker p) = n" using assms(1) by (simp add: sizes_ok_def)
  have run: "pl_running p ! w = None" if "w < n" for w
    using assms(3) pool_step.finish[of w p] that len by (cases "pl_running p ! w") (auto simp: submits_def)
  have up: "pl_worker p ! w \<noteq> Starting" if "w < n" for w
    using assms(3) pool_step.built[of w p] that len by (fastforce simp: submits_def)
  have chan: "pl_channel p ! w = []" if "w < n" for w
  proof (cases "pl_worker p ! w")
    case Up
    then show ?thesis
      using assms(3) pool_step.recv[of w p] that len run[OF that] by (fastforce simp: submits_def)
  qed (use assms(2) up that in \<open>auto simp: worker_ok_def\<close>)
  show "w < n \<Longrightarrow> pl_channel p ! w = [] \<and> pl_running p ! w = None"
    using chan run by blast
  show "pl_sending p = []"
  proof (rule ccontr)
    assume "pl_sending p \<noteq> []"
    then obtain w j rest where s: "pl_sending p = (w, j) # rest"
      by (metis neq_Nil_conv surj_pair)
    then have w: "w < n" using assms(1) by (auto simp: sizes_ok_def)
    show False
    proof (cases "pl_worker p ! w")
      case Up
      then have "has_room w p" using run[OF w] chan[OF w] by (simp add: has_room_def)
      then show False
        using assms(3) pool_step.accept[of 0 p w j] s Up by (fastforce simp: submits_def)
    next
      case Dead
      then show False
        using assms(3) pool_step.refuse[of 0 p w j] s by (fastforce simp: submits_def)
    qed (use up w in simp)
  qed
qed

text \<open>
  C15. The pool never gets stuck. From any point of any interleaving, without new connections and
  as the ones being served end, only finitely many steps are left, at most the backlog; and
  when none is left every connection has been served, refused or dropped, and the counters of
  all live workers are back at zero.
\<close>

theorem pool_drains:
  assumes "pool_run es (pool_new n c) p" "pool_run fs p q" "\<not> list_ex submits fs"
  shows "length fs \<le> backlog p
    \<and> ((\<forall>e r. pool_step e q r \<longrightarrow> submits e) \<longrightarrow>
         jobs q = {#} \<and> (\<forall>w < n. pl_worker q ! w \<noteq> Dead \<longrightarrow> pl_pressure q ! w = 0))"
proof -
  have ok: "sizes_ok n p" "sizes_ok n q" "\<forall>w < n. worker_ok w (lost w (es @ fs)) q"
    using pool_run_ok[OF assms(1)] pool_run_ok[OF step_run_append[OF assms(2,1)]] by auto
  have len: "length fs \<le> backlog p"
    using backlog_run[OF assms(2) ok(1) assms(3)] by simp
  show ?thesis
  proof (intro conjI impI allI len)
    assume "\<forall>e r. pool_step e q r \<longrightarrow> submits e"
    note idle = idle_jobs[OF ok(2,3) this]
    have "pl_channel q = replicate n []" "map jobs_of (pl_running q) = replicate n []"
      using idle(2) ok(2) by (auto simp: sizes_ok_def jobs_of_def intro!: nth_equalityI)
    moreover have "concat (replicate n ([] :: 'a list)) = []" by (induction n) simp_all
    ultimately show "jobs q = {#}"
      by (simp add: jobs_def idle(1))
    fix w assume "w < n" "pl_worker q ! w \<noteq> Dead"
    then show "pl_pressure q ! w = 0"
      using ok(3) idle by (simp add: worker_ok_def load_def)
  qed
qed

theorem pool_drains_witness:
  "backlog (pool_new 1 5 :: string pool) = 1 \<and> length [Internal :: string event] \<le> backlog (pool_new 1 5 :: string pool)"
proof -
  have "pool_step Internal (pool_new 1 5 :: string pool) (worker_built 0 (pool_new 1 5))"
    by (rule pool_step.built) (simp_all add: pool_new_def)
  from pool_one[OF this]
  have "pool_run [Internal] (pool_new 1 5 :: string pool) (worker_built 0 (pool_new 1 5))" by simp
  from pool_drains[OF step_run.run_done this] show ?thesis
    by (simp add: submits_def backlog_def pool_new_def jobs_of_def)
qed

end
