(* ===== verification/Decimal.thy ===== *)
theory Decimal
  imports Broker_Prelude "HOL-Library.Char_ord"
begin

text \<open>
  \<open>str::parse\<close> for the unsigned integers of the settings (\<open>u64\<close>, \<open>u16\<close>) and for the four parts of
  an IPv4 address: the loop with its checked multiplication and addition, and what it computes.
\<close>

section \<open>The parser\<close>

datatype parse_int_error = EmptyNumber | InvalidDigit | PosOverflow

definition to_digit :: "char \<Rightarrow> nat option" where
  "to_digit c = (let n = of_char c in if 48 \<le> n \<and> n \<le> 57 then Some (n - 48) else None)"

definition is_digit :: "char \<Rightarrow> bool" where
  "is_digit c \<longleftrightarrow> to_digit c \<noteq> None"

text \<open>The digit is looked at before the checked multiplication is.\<close>

fun parse_digits :: "nat \<Rightarrow> nat \<Rightarrow> string \<Rightarrow> (parse_int_error, nat) result" where
  "parse_digits w acc [] = Ok acc"
| "parse_digits w acc (c # cs) =
     (case to_digit c of
        None \<Rightarrow> Err InvalidDigit
      | Some d \<Rightarrow>
          if acc * 10 \<ge> 2 ^ w \<or> acc * 10 + d \<ge> 2 ^ w then Err PosOverflow
          else parse_digits w (acc * 10 + d) cs)"

definition parse_unsigned :: "nat \<Rightarrow> string \<Rightarrow> (parse_int_error, nat) result" where
  "parse_unsigned w s =
     (if s = [] then Err EmptyNumber
      else if s = ''+'' \<or> s = ''-'' then Err InvalidDigit
      else if hd s = CHR ''+'' then parse_digits w 0 (tl s)
      else parse_digits w 0 s)"

section \<open>What it computes\<close>

definition decimal_from :: "nat \<Rightarrow> string \<Rightarrow> nat" where
  "decimal_from acc s = fold (\<lambda>c acc. acc * 10 + the (to_digit c)) s acc"

lemma decimal_from_simps [simp]:
  "decimal_from acc [] = acc"
  "decimal_from acc (c # cs) = decimal_from (acc * 10 + the (to_digit c)) cs"
  "decimal_from acc (s @ t) = decimal_from (decimal_from acc s) t"
  by (simp_all add: decimal_from_def)

definition decimal :: "string \<Rightarrow> nat" where
  "decimal s = decimal_from 0 s"

definition digits_only :: "string \<Rightarrow> bool" where
  "digits_only s \<longleftrightarrow> s \<noteq> [] \<and> list_all is_digit s"

lemma decimal_from_ge: "acc \<le> decimal_from acc s"
proof (induction s arbitrary: acc)
  case (Cons c s)
  show ?case using Cons[of "acc * 10 + the (to_digit c)"] by simp
qed simp

lemma parse_digits_Ok:
  "acc < 2 ^ w \<Longrightarrow> parse_digits w acc s = Ok n \<longleftrightarrow> list_all is_digit s \<and> n = decimal_from acc s \<and> n < 2 ^ w"
proof (induction s arbitrary: acc)
  case (Cons c s)
  show ?case
  proof (cases "to_digit c")
    case (Some d)
    show ?thesis
    proof (cases "acc * 10 + d < 2 ^ w")
      case True
      then show ?thesis using Some Cons.IH[of "acc * 10 + d"] by (simp add: is_digit_def)
    next
      case False
      then have "\<not> decimal_from (acc * 10 + d) s < 2 ^ w"
        using decimal_from_ge[of "acc * 10 + d" s] by simp
      then show ?thesis using Some False by auto
    qed
  qed (simp add: is_digit_def)
qed auto

lemma parse_digits_no_panic [simp]: "parse_digits w acc s \<noteq> Panic"
  by (induction s arbitrary: acc) (auto split: option.split)

lemma parse_unsigned_no_panic [simp]: "parse_unsigned w s \<noteq> Panic"
  by (simp add: parse_unsigned_def)

lemma plus_no_digit: "\<not> is_digit CHR ''+''" "\<not> is_digit CHR ''-''"
  by (simp_all add: is_digit_def to_digit_def)

lemma parse_unsigned_digits:
  "digits_only s \<Longrightarrow> parse_unsigned w s = (if decimal s < 2 ^ w then Ok (decimal s) else Err PosOverflow)"
proof -
  assume s: "digits_only s"
  then have hd: "s \<noteq> []" "hd s \<noteq> CHR ''+''" "s \<noteq> ''+''" "s \<noteq> ''-''"
    using plus_no_digit by (auto simp: digits_only_def neq_Nil_conv)
  have over: "parse_digits w acc s = Err PosOverflow"
    if "list_all is_digit s" "acc < 2 ^ w" "\<not> decimal_from acc s < 2 ^ w" for acc s
    using that by (induction s arbitrary: acc) (auto simp: is_digit_def split: option.split)
  show ?thesis
    using hd s over[of s 0] parse_digits_Ok[of 0 w s "decimal s"]
    by (auto simp: parse_unsigned_def decimal_def digits_only_def)
qed

lemma parse_unsigned_Ok:
  "parse_unsigned w s = Ok n \<longleftrightarrow>
     (\<exists>ds. (s = ds \<or> s = CHR ''+'' # ds) \<and> digits_only ds \<and> decimal ds < 2 ^ w \<and> n = decimal ds)"
proof
  assume *: "parse_unsigned w s = Ok n"
  then have s: "s \<noteq> []" "s \<noteq> ''+''" "s \<noteq> ''-''"
    by (auto simp: parse_unsigned_def split: if_splits)
  show "\<exists>ds. (s = ds \<or> s = CHR ''+'' # ds) \<and> digits_only ds \<and> decimal ds < 2 ^ w \<and> n = decimal ds"
  proof (cases "hd s = CHR ''+''")
    case True
    then obtain ds where "s = CHR ''+'' # ds" "ds \<noteq> []"
      using s by (cases s) auto
    with * show ?thesis
      by (auto simp: parse_unsigned_def parse_digits_Ok digits_only_def decimal_def)
  next
    case False
    with * s show ?thesis
      by (auto simp: parse_unsigned_def parse_digits_Ok digits_only_def decimal_def)
  qed
next
  assume "\<exists>ds. (s = ds \<or> s = CHR ''+'' # ds) \<and> digits_only ds \<and> decimal ds < 2 ^ w \<and> n = decimal ds"
  then obtain ds where s: "s = ds \<or> s = CHR ''+'' # ds" and
      ds: "digits_only ds" "decimal ds < 2 ^ w" "n = decimal ds" by blast
  from s show "parse_unsigned w s = Ok n"
  proof
    assume "s = ds"
    with ds show ?thesis by (simp add: parse_unsigned_digits)
  next
    assume "s = CHR ''+'' # ds"
    with ds show ?thesis
      by (auto simp: parse_unsigned_def parse_digits_Ok digits_only_def decimal_def)
  qed
qed

section \<open>Printing\<close>

fun show_nat :: "nat \<Rightarrow> string" where
  "show_nat n = (if n < 10 then [char_of (48 + n)] else show_nat (n div 10) @ [char_of (48 + n mod 10)])"

declare show_nat.simps [simp del]

lemma to_digit_char: "d < 10 \<Longrightarrow> to_digit (char_of (48 + d)) = Some d"
  by (simp add: to_digit_def)

lemma show_nat_ok: "digits_only (show_nat n) \<and> decimal (show_nat n) = n"
proof (induction n rule: show_nat.induct)
  case (1 n)
  have d: "to_digit (char_of (48 + n mod 10)) = Some (n mod 10)"
    by (rule to_digit_char) simp
  show ?case
  proof (cases "n < 10")
    case True
    with d show ?thesis
      by (subst (1 2) show_nat.simps) (simp add: digits_only_def is_digit_def decimal_def)
  next
    case False
    with 1 d show ?thesis
      by (subst (1 2) show_nat.simps) (simp add: digits_only_def is_digit_def decimal_def)
  qed
qed

lemma parse_show_nat: "n < 2 ^ w \<Longrightarrow> parse_unsigned w (show_nat n) = Ok n"
  by (simp add: parse_unsigned_digits show_nat_ok)

lemma show_nat_small: "n < 10 \<Longrightarrow> show_nat n = [char_of (48 + n)]"
  by (simp add: show_nat.simps)

lemma show_nat_big: "10 \<le> n \<Longrightarrow> show_nat n = show_nat (n div 10) @ [char_of (48 + n mod 10)]"
  by (subst show_nat.simps) simp

lemma show_nat_ne [simp]: "show_nat n \<noteq> []"
  using show_nat_ok[of n] by (simp add: digits_only_def)

lemma show_nat_hd: "hd (show_nat n) = CHR ''0'' \<Longrightarrow> n = 0"
proof (induction n rule: show_nat.induct)
  case (1 n)
  have "n = 0" if "n < 10"
  proof -
    have "to_digit (hd (show_nat n)) = Some n"
      using that to_digit_char[OF that] by (simp add: show_nat_small)
    then show ?thesis using 1(2) by (simp add: to_digit_def)
  qed
  moreover have "n = 0" if "10 \<le> n"
    using 1 that show_nat_big[OF that] by simp
  ultimately show ?case by linarith
qed

lemma show_nat_length: "n < 1000 \<Longrightarrow> length (show_nat n) \<le> 3"
  by (cases "n < 10"; cases "n < 100") (simp_all add: show_nat_small show_nat_big)

end
