(* ===== verification/Settings.thy ===== *)
theory Settings
  imports Decimal
begin

text \<open>
  The settings file of \<open>src/config.rs\<close>, the command line of \<open>src/main.rs\<close> and the listening
  address (\<open>Addr::new\<close>). The regular expression engine is a parameter of \<open>parse_config\<close>: what it
  captures in a text, match by match, as the three groups of the source's pattern.
  \<open>captures_of\<close> is the meaning of that pattern on a text, leftmost match first.
\<close>

section \<open>The settings file\<close>

record config =
  threads_limit :: u64
  proc_limit :: u64
  wait_limit :: u64
  memory_limit :: u64
  server_addr :: string
  server_port :: string
  queue_names :: "string list"

datatype config_error = FileError io_error | Missing string | BadNumber parse_int_error

type_synonym captures = "string \<Rightarrow> (string option \<times> string option \<times> string option) list"

definition or_else :: "'a option \<Rightarrow> 'a option \<Rightarrow> 'a option" where
  "or_else a b = (case a of Some v \<Rightarrow> Some v | None \<Rightarrow> b)"

fun read_pairs ::
    "(string option \<times> string option \<times> string option) list \<Rightarrow> (string, string) hash_map
     \<Rightarrow> (config_error, (string, string) hash_map) result" where
  "read_pairs [] data = Ok data"
| "read_pairs ((key, quoted, plain) # pairs) data =
     (case (key, or_else quoted plain) of
        (Some k, Some v) \<Rightarrow> read_pairs pairs (hm_insert k v data)
      | _ \<Rightarrow> Panic)"

definition required :: "string \<Rightarrow> string \<Rightarrow> (string, string) hash_map \<Rightarrow> (config_error, string) result" where
  "required key message data =
     (case hm_get data key of Some v \<Rightarrow> Ok v | None \<Rightarrow> Err (Missing message))"

definition parse_u64 :: "string \<Rightarrow> (config_error, u64) result" where
  "parse_u64 s = (case parse_unsigned 64 s of
     Ok n \<Rightarrow> Ok (word_of_nat n) | Err e \<Rightarrow> Err (BadNumber e) | Panic \<Rightarrow> Panic)"

text \<open>\<open>str::split\<close> on a character: a text without it is one piece, the empty text included.\<close>

fun split_on :: "char \<Rightarrow> string \<Rightarrow> string list" where
  "split_on sep [] = [[]]"
| "split_on sep (c # cs) =
     (if c = sep then [] # split_on sep cs
      else case split_on sep cs of [] \<Rightarrow> [[c]] | p # ps \<Rightarrow> (c # p) # ps)"

definition names_of :: "string \<Rightarrow> string list" where
  "names_of v = filter (\<lambda>s. s \<noteq> []) (split_on CHR '','' v)"

text \<open>The fields in the order of the source; the first one that fails is the error.\<close>

definition config_of :: "(string, string) hash_map \<Rightarrow> (config_error, config) result" where
  "config_of data =
     result_bind (required ''THREADS_LIMIT'' ''missing THREADS_LIMIT'' data) (\<lambda>s.
     result_bind (parse_u64 s) (\<lambda>threads.
     result_bind (required ''PROC_LIMIT'' ''missing PROC_LIMIT'' data) (\<lambda>s.
     result_bind (parse_u64 s) (\<lambda>procs.
     result_bind (required ''WAIT_LIMIT'' ''missing WAIT_LIMIT'' data) (\<lambda>s.
     result_bind (parse_u64 s) (\<lambda>waits.
     result_bind (required ''MEMORY_LIMIT'' ''missing MEMORY_LIMIT'' data) (\<lambda>s.
     result_bind (parse_u64 s) (\<lambda>memory.
     result_bind (required ''SERVER_ADDR'' ''missing SERVER_ADDR'' data) (\<lambda>addr.
     result_bind (required ''SERVER_PORT'' ''missing SERVER_PORT'' data) (\<lambda>port.
     result_bind (required ''QUEUE_NAMES'' '''' data) (\<lambda>names.
       Ok \<lparr>threads_limit = threads, proc_limit = procs, wait_limit = waits, memory_limit = memory,
           server_addr = addr, server_port = port, queue_names = names_of names\<rparr>)))))))))))"

definition parse_config :: "captures \<Rightarrow> (io_error, string) result \<Rightarrow> (config_error, config) result" where
  "parse_config caps config_file =
     (case config_file of
        Ok text \<Rightarrow> result_bind (read_pairs (caps text) hm_empty) config_of
      | Err e \<Rightarrow> Err (FileError e)
      | Panic \<Rightarrow> Panic)"

section \<open>The pattern\<close>

text \<open>
  What the source's expression captures: a key of word characters (the \<open>\w\<close> of the pattern), \<open>=\<close> with
  any white space around it, and a value, either everything up to the closing quote, if there
  is one and the quotes are not empty, or everything up to the next white space. The classes are
  those of ASCII; characters above are the bytes of a UTF-8 text, which never look like an
  ASCII character, and the pattern's classes treat some of them as white space or letters.
\<close>

definition is_word :: "char \<Rightarrow> bool" where
  "is_word c \<longleftrightarrow> (let n = of_char c :: nat in
     48 \<le> n \<and> n \<le> 57 \<or> 65 \<le> n \<and> n \<le> 90 \<or> n = 95 \<or> 97 \<le> n \<and> n \<le> 122)"

definition is_space :: "char \<Rightarrow> bool" where
  "is_space c \<longleftrightarrow> (let n = of_char c :: nat in 9 \<le> n \<and> n \<le> 13 \<or> n = 32)"

definition quote :: char where "quote = CHR 0x22"
definition newline :: char where "newline = CHR 0x0A"

definition match_value :: "string \<Rightarrow> ((string option \<times> string option) \<times> string) option" where
  "match_value s =
     (case s of
        [] \<Rightarrow> None
      | c # cs \<Rightarrow>
          if c = quote \<and> takeWhile (\<lambda>x. x \<noteq> quote) cs \<noteq> [] \<and> dropWhile (\<lambda>x. x \<noteq> quote) cs \<noteq> []
          then Some ((Some (takeWhile (\<lambda>x. x \<noteq> quote) cs), None), tl (dropWhile (\<lambda>x. x \<noteq> quote) cs))
          else if is_space c then None
          else Some ((None, Some (takeWhile (\<lambda>x. \<not> is_space x) s)), dropWhile (\<lambda>x. \<not> is_space x) s))"

definition match_here :: "string \<Rightarrow> ((string option \<times> string option \<times> string option) \<times> string) option" where
  "match_here s =
     (let key = takeWhile is_word s; r = dropWhile is_space (dropWhile is_word s)
      in if key = [] \<or> r = [] \<or> hd r \<noteq> CHR ''='' then None
         else map_option (\<lambda>((quoted, plain), rest). ((Some key, quoted, plain), rest))
                (match_value (dropWhile is_space (tl r))))"

lemma match_value_shorter: "match_value s = Some (v, rest) \<Longrightarrow> length rest \<le> length s"
  using length_dropWhile_le[of "\<lambda>x. x \<noteq> quote" "tl s"] length_dropWhile_le[of "\<lambda>x. \<not> is_space x" s]
  by (cases s) (auto simp: match_value_def split: if_splits)

lemma match_here_shorter:
  assumes "match_here s = Some (v, rest)"
  shows "length rest < length s"
proof -
  let ?r = "dropWhile is_space (dropWhile is_word s)"
  have r: "?r \<noteq> []" and m: "\<exists>w. match_value (dropWhile is_space (tl ?r)) = Some (w, rest)"
    using assms by (auto simp: match_here_def Let_def split: if_splits)
  have "length rest \<le> length (tl ?r)"
    using m match_value_shorter length_dropWhile_le le_trans by blast
  also have "\<dots> < length ?r" using r by simp
  also have "\<dots> \<le> length s" using length_dropWhile_le le_trans by blast
  finally show ?thesis .
qed

function captures_of :: captures where
  "captures_of [] = []"
| "captures_of (c # cs) =
     (case match_here (c # cs) of
        Some (capture, rest) \<Rightarrow> capture # captures_of rest
      | None \<Rightarrow> captures_of cs)"
  by pat_completeness auto
termination
  by (relation "measure length") (auto dest: match_here_shorter)

section \<open>The command line\<close>

text \<open>\<open>splitn(2, '=')\<close>: the part before the first \<open>=\<close> and, if there is one, the part after it.\<close>

fun splitn2 :: "char \<Rightarrow> string \<Rightarrow> string \<times> string option" where
  "splitn2 sep [] = ([], None)"
| "splitn2 sep (c # cs) =
     (if c = sep then ([], Some cs) else let (k, v) = splitn2 sep cs in (c # k, v))"

definition env_args :: "string list \<Rightarrow> (string, string) hash_map" where
  "env_args args =
     fold (\<lambda>arg m. case splitn2 CHR ''='' arg of (k, Some v) \<Rightarrow> hm_insert k v m | _ \<Rightarrow> m) (drop 1 args) hm_empty"

text \<open>\<open>PathBuf::join\<close> on Unix, for a relative second part.\<close>

definition path_join :: "string \<Rightarrow> string \<Rightarrow> string" where
  "path_join p s = (if p = [] \<or> last p = CHR ''/'' then p @ s else p @ CHR ''/'' # s)"

definition config_path :: "(string, string) hash_map \<Rightarrow> string \<Rightarrow> string" where
  "config_path env cwd =
     path_join (if hm_contains_key env ''--config'' then the (hm_get env ''--config'') else cwd) ''.settings''"

section \<open>The listening address\<close>

record addr =
  addr_ip :: "u8 list"
  addr_port :: u16

definition octet_of :: "string \<Rightarrow> u8 option" where
  "octet_of s =
     (if s \<noteq> [] \<and> length s \<le> 3 \<and> list_all is_digit s \<and> (hd s = CHR ''0'' \<longrightarrow> length s = 1) \<and> decimal s < 256
      then Some (word_of_nat (decimal s)) else None)"

definition parse_ipv4 :: "string \<Rightarrow> u8 list option" where
  "parse_ipv4 s =
     (let parts = split_on CHR ''.'' s
      in if length parts = 4 \<and> list_all (\<lambda>p. octet_of p \<noteq> None) parts
         then Some (map (\<lambda>p. the (octet_of p)) parts) else None)"

fun int_error_text :: "parse_int_error \<Rightarrow> string" where
  "int_error_text EmptyNumber = ''cannot parse integer from empty string''"
| "int_error_text InvalidDigit = ''invalid digit found in string''"
| "int_error_text PosOverflow = ''number too large to fit in target type''"

definition addr_new :: "string \<Rightarrow> string \<Rightarrow> (io_error, addr) result" where
  "addr_new addr port =
     (case parse_ipv4 addr of
        None \<Rightarrow> Err (IoError InvalidInput ''invalid IPv4 address syntax'')
      | Some ip \<Rightarrow>
          (case parse_unsigned 16 port of
             Ok p \<Rightarrow> Ok \<lparr>addr_ip = ip, addr_port = word_of_nat p\<rparr>
           | Err e \<Rightarrow> Err (IoError InvalidInput (int_error_text e))
           | Panic \<Rightarrow> Panic))"

section \<open>Reading the file\<close>

lemma split_on_ne [simp]: "split_on sep s \<noteq> []"
  by (induction s) (auto split: list.split)

lemma split_on_free: "sep \<notin> set s \<Longrightarrow> split_on sep s = [s]"
  by (induction s) auto

lemma split_on_append: "sep \<notin> set p \<Longrightarrow> split_on sep (p @ sep # s) = p # split_on sep s"
  by (induction p) auto

text \<open>The inverse of splitting.\<close>

fun join :: "char \<Rightarrow> string list \<Rightarrow> string" where
  "join sep [] = []"
| "join sep [p] = p"
| "join sep (p # q # ps) = p @ sep # join sep (q # ps)"

lemma split_on_join: "ps \<noteq> [] \<Longrightarrow> \<forall>p \<in> set ps. sep \<notin> set p \<Longrightarrow> split_on sep (join sep ps) = ps"
  by (induction sep ps rule: join.induct) (simp_all add: split_on_free split_on_append)

lemma names_of_join: "\<forall>n \<in> set ns. n \<noteq> [] \<and> CHR '','' \<notin> set n \<Longrightarrow> names_of (join CHR '','' ns) = ns"
  by (cases "ns = []") (auto simp: names_of_def split_on_join filter_id_conv)

text \<open>An assignment as the expression captures it: a bare value, or one in quotes.\<close>

fun captured :: "bool \<times> string \<times> string \<Rightarrow> string option \<times> string option \<times> string option" where
  "captured (in_quotes, k, v) = (if in_quotes then (Some k, Some v, None) else (Some k, None, Some v))"

definition assigned :: "(bool \<times> string \<times> string) list \<Rightarrow> string \<Rightarrow> string option" where
  "assigned as k = map_of (rev (map snd as)) k"

lemma read_pairs_captured:
  "\<exists>data'. read_pairs (map captured as) data = Ok data'
     \<and> hm_get data' k = (case assigned as k of Some v \<Rightarrow> Some v | None \<Rightarrow> hm_get data k)"
proof (induction as arbitrary: data)
  case (Cons a as)
  obtain q k' v where a: "a = (q, k', v)" by (cases a)
  from Cons.IH[of "hm_insert k' v data"] show ?case
    by (auto simp: a or_else_def assigned_def split: option.split if_splits)
qed (simp add: assigned_def)

text \<open>The settings, in the order \<open>config_of\<close> asks for them: key, message, and whether a number.\<close>

definition settings_keys :: "(string \<times> string \<times> bool) list" where
  "settings_keys =
     [(''THREADS_LIMIT'', ''missing THREADS_LIMIT'', True), (''PROC_LIMIT'', ''missing PROC_LIMIT'', True),
      (''WAIT_LIMIT'', ''missing WAIT_LIMIT'', True), (''MEMORY_LIMIT'', ''missing MEMORY_LIMIT'', True),
      (''SERVER_ADDR'', ''missing SERVER_ADDR'', False), (''SERVER_PORT'', ''missing SERVER_PORT'', False),
      (''QUEUE_NAMES'', '''', False)]"

fun first_fault :: "(string \<Rightarrow> string option) \<Rightarrow> (string \<times> string \<times> bool) list \<Rightarrow> config_error option" where
  "first_fault get [] = None"
| "first_fault get ((key, message, number) # keys) =
     (case get key of
        None \<Rightarrow> Some (Missing message)
      | Some v \<Rightarrow>
          if number then (case parse_unsigned 64 v of Err e \<Rightarrow> Some (BadNumber e) | _ \<Rightarrow> first_fault get keys)
          else first_fault get keys)"

definition number_at :: "(string \<Rightarrow> string option) \<Rightarrow> string \<Rightarrow> u64" where
  "number_at get key = (case parse_unsigned 64 (the (get key)) of Ok n \<Rightarrow> word_of_nat n | _ \<Rightarrow> 0)"

definition config_at :: "(string \<Rightarrow> string option) \<Rightarrow> config" where
  "config_at get = \<lparr>threads_limit = number_at get ''THREADS_LIMIT'', proc_limit = number_at get ''PROC_LIMIT'',
     wait_limit = number_at get ''WAIT_LIMIT'', memory_limit = number_at get ''MEMORY_LIMIT'',
     server_addr = the (get ''SERVER_ADDR''), server_port = the (get ''SERVER_PORT''),
     queue_names = names_of (the (get ''QUEUE_NAMES''))\<rparr>"

lemma required_simps [simp]:
  "hm_get data key = None \<Longrightarrow> required key message data = Err (Missing message)"
  "hm_get data key = Some v \<Longrightarrow> required key message data = Ok v"
  by (simp_all add: required_def)

text \<open>The fields can be taken one after the other.\<close>

lemma required_step:
  assumes "\<And>v. hm_get data key = Some v \<Longrightarrow> f v = (case first_fault (hm_get data) keys of None \<Rightarrow> Ok c | Some e \<Rightarrow> Err e)"
  shows "result_bind (required key message data) f
       = (case first_fault (hm_get data) ((key, message, False) # keys) of None \<Rightarrow> Ok c | Some e \<Rightarrow> Err e)"
  using assms by (cases "hm_get data key") simp_all

lemma number_step:
  assumes "\<And>v. hm_get data key = Some v \<Longrightarrow> parse_u64 v = Ok (number_at (hm_get data) key) \<Longrightarrow>
      f (number_at (hm_get data) key) = (case first_fault (hm_get data) keys of None \<Rightarrow> Ok c | Some e \<Rightarrow> Err e)"
  shows "result_bind (required key message data) (\<lambda>s. result_bind (parse_u64 s) f)
       = (case first_fault (hm_get data) ((key, message, True) # keys) of None \<Rightarrow> Ok c | Some e \<Rightarrow> Err e)"
proof (cases "hm_get data key")
  case (Some v)
  show ?thesis
  proof (cases "parse_unsigned 64 v")
    case (Ok n)
    then have "parse_u64 v = Ok (number_at (hm_get data) key)"
      using Some by (simp add: parse_u64_def number_at_def)
    then show ?thesis using Some Ok assms by simp
  qed (simp_all add: Some parse_u64_def)
qed simp

lemma config_of_exact:
  "config_of data = (case first_fault (hm_get data) settings_keys of
     None \<Rightarrow> Ok (config_at (hm_get data)) | Some e \<Rightarrow> Err e)"
  unfolding config_of_def settings_keys_def
  by (intro number_step required_step) (simp add: config_at_def)

lemma parse_config_captured:
  assumes "caps text = map captured as"
  shows "parse_config caps (Ok text) =
    (case first_fault (assigned as) settings_keys of
       None \<Rightarrow> Ok (config_at (assigned as)) | Some e \<Rightarrow> Err e)"
proof -
  obtain data where data: "read_pairs (map captured as) [] = Ok data"
    using read_pairs_captured[of "as" "[]"] by blast
  have "hm_get data k = assigned as k" for k
    using read_pairs_captured[of "as" "[]" k] data by (auto split: option.splits)
  then have "hm_get data = assigned as" by blast
  with data show ?thesis
    by (simp add: parse_config_def assms config_of_exact split: option.split)
qed

lemmas captured_text = parse_config_captured[of "\<lambda>_. map captured zs" _ zs for zs, OF refl]

text \<open>
  C35. Reading the settings is exact: the last assignment of a key counts, a value may be bare or
  in quotes, and the result is the configuration they spell or the fault of the first key, in
  the order of the source, that is missing or not a 64-bit number. It never panics. The
  hypothesis says that the expression captured these assignments.
\<close>

theorem parse_config_exact:
  assumes "caps text = map captured as"
  shows "parse_config caps (Ok text) =
    (case first_fault (assigned as) settings_keys of
       None \<Rightarrow> Ok (config_at (assigned as)) | Some e \<Rightarrow> Err e)"
  using assms by (rule parse_config_captured)

theorem parse_config_exact_witness:
  "parse_config (\<lambda>_. map captured [(False, ''THREADS_LIMIT'', ''4''), (False, ''PROC_LIMIT'', ''4x'')]) (Ok [])
     = Err (BadNumber InvalidDigit)"
  by (subst parse_config_exact[where as = "[(False, ''THREADS_LIMIT'', ''4''), (False, ''PROC_LIMIT'', ''4x'')]"])
     (simp_all add: assigned_def settings_keys_def parse_unsigned_def to_digit_def)

section \<open>Writing and reading\<close>

text \<open>
  A configuration as assignments, numbers in decimal and the names joined by commas; a comma
  alone stands for no names, since no value of a setting is empty.
\<close>

definition settings_of :: "config \<Rightarrow> (string \<times> string) list" where
  "settings_of c =
     [(''THREADS_LIMIT'', show_nat (unat (threads_limit c))), (''PROC_LIMIT'', show_nat (unat (proc_limit c))),
      (''WAIT_LIMIT'', show_nat (unat (wait_limit c))), (''MEMORY_LIMIT'', show_nat (unat (memory_limit c))),
      (''SERVER_ADDR'', server_addr c), (''SERVER_PORT'', server_port c),
      (''QUEUE_NAMES'', if queue_names c = [] then '','' else join CHR '','' (queue_names c))]"

lemma parse_show_u64 [simp]: "parse_unsigned 64 (show_nat (unat (n :: u64))) = Ok (unat n)"
  using unsigned_less[of n] by (intro parse_show_nat) simp

lemma parse_config_spelled:
  assumes "caps text = map captured as" "map_of (settings_of c) \<subseteq>\<^sub>m assigned as"
    "\<forall>n \<in> set (queue_names c). n \<noteq> [] \<and> CHR '','' \<notin> set n"
  shows "parse_config caps (Ok text) = Ok c"
proof -
  have spelled: "assigned as k = Some v" if "map_of (settings_of c) k = Some v" for k v
    using assms(2) that by (metis domI map_le_def)
  note gets = spelled[of "''THREADS_LIMIT''"] spelled[of "''PROC_LIMIT''"] spelled[of "''WAIT_LIMIT''"]
    spelled[of "''MEMORY_LIMIT''"] spelled[of "''SERVER_ADDR''"] spelled[of "''SERVER_PORT''"] spelled[of "''QUEUE_NAMES''"]
  have "first_fault (assigned as) settings_keys = None" "config_at (assigned as) = c"
    using gets names_of_join[OF assms(3)]
    by (simp_all add: settings_of_def settings_keys_def config_at_def number_at_def names_of_def split: if_splits)
  then show ?thesis
    by (subst parse_config_captured[where as = "as"]) (simp_all add: assms(1))
qed

text \<open>A settings file: one assignment per line.\<close>

fun spell :: "bool \<times> string \<times> string \<Rightarrow> string" where
  "spell (in_quotes, k, v) = k @ CHR ''='' # (if in_quotes then quote # v @ [quote] else v) @ [newline]"

definition settings_text :: "(bool \<times> string \<times> string) list \<Rightarrow> string" where
  "settings_text as = concat (map spell as)"

fun writable :: "bool \<times> string \<times> string \<Rightarrow> bool" where
  "writable (in_quotes, k, v) \<longleftrightarrow> k \<noteq> [] \<and> list_all is_word k \<and> v \<noteq> []
     \<and> (if in_quotes then quote \<notin> set v else hd v \<noteq> quote \<and> list_all (\<lambda>c. \<not> is_space c) v)"

text \<open>A configuration whose values the pattern can capture, all of them in quotes.\<close>

definition quotable :: "config \<Rightarrow> bool" where
  "quotable c \<longleftrightarrow> server_addr c \<noteq> [] \<and> quote \<notin> set (server_addr c)
     \<and> server_port c \<noteq> [] \<and> quote \<notin> set (server_port c)
     \<and> (\<forall>n \<in> set (queue_names c). n \<noteq> [] \<and> CHR '','' \<notin> set n \<and> quote \<notin> set n)"

definition quoted_settings :: "config \<Rightarrow> (bool \<times> string \<times> string) list" where
  "quoted_settings c = map (Pair True) (settings_of c)"

lemma char_classes [simp]:
  "\<not> is_word CHR ''=''" "\<not> is_space CHR ''=''" "\<not> is_word newline" "is_space newline" "\<not> is_space quote"
  "newline \<noteq> quote" "quote \<noteq> newline" "CHR ''='' \<noteq> newline"
  by (simp_all add: is_word_def is_space_def newline_def quote_def)

lemma takeWhile_all: "list_all P k \<Longrightarrow> \<not> P c \<Longrightarrow> takeWhile P (k @ c # r) = k \<and> dropWhile P (k @ c # r) = c # r"
  by (induction k) auto

lemma match_here_spell:
  assumes "writable a"
  shows "match_here (spell a @ rest) = Some (captured a, newline # rest)"
proof -
  obtain q k v where a: "a = (q, k, v)" by (cases a)
  define r where "r = (if q then quote # v @ [quote] else v) @ newline # rest"
  have "takeWhile is_word (k @ CHR ''='' # r) = k" "dropWhile is_word (k @ CHR ''='' # r) = CHR ''='' # r"
    using assms takeWhile_all[of is_word k "CHR ''=''" r] by (auto simp: a)
  moreover have "dropWhile is_space r = r"
    using assms by (cases v) (auto simp: a r_def)
  moreover have "match_value r = Some (if q then (Some v, None) else (None, Some v), newline # rest)"
  proof (cases q)
    case True
    with assms have "list_all (\<lambda>x. x \<noteq> quote) v" by (auto simp: a list_all_iff)
    from takeWhile_all[OF this, of quote "newline # rest"]
    have "takeWhile (\<lambda>x. x \<noteq> quote) (v @ quote # newline # rest) = v"
        "dropWhile (\<lambda>x. x \<noteq> quote) (v @ quote # newline # rest) = quote # newline # rest"
      by simp_all
    with True assms show ?thesis by (simp add: r_def match_value_def a)
  next
    case False
    with assms obtain c cs where v: "v = c # cs" "c \<noteq> quote" "\<not> is_space c" by (cases v) (auto simp: a)
    have "takeWhile (\<lambda>x. \<not> is_space x) r = v" "dropWhile (\<lambda>x. \<not> is_space x) r = newline # rest"
      using False assms takeWhile_all[of "\<lambda>x. \<not> is_space x" v newline] by (auto simp: a r_def)
    with v False show ?thesis by (simp add: r_def match_value_def)
  qed
  ultimately show ?thesis
    using assms by (cases q) (simp_all add: a match_here_def r_def Let_def)
qed

text \<open>What the pattern captures in a settings file are its assignments.\<close>

lemma captures_of_text: "list_all writable as \<Longrightarrow> captures_of (settings_text as) = map captured as"
proof (induction "as")
  case (Cons a "as")
  have skip: "match_here (newline # r) = None" for r
    by (simp add: match_here_def)
  have "spell a \<noteq> []" by (cases a) simp
  then obtain c cs where ne: "spell a @ settings_text as = c # cs" by (cases "spell a") auto
  have "match_here (c # cs) = Some (captured a, newline # settings_text as)"
    using match_here_spell[of a "settings_text as"] Cons.prems by (simp add: ne)
  then have "captures_of (c # cs) = captured a # map captured as"
    using Cons by (simp add: skip)
  then show ?case by (simp add: settings_text_def ne[unfolded settings_text_def])
qed (simp add: settings_text_def)

lemma set_join: "set (join sep ps) \<subseteq> insert sep (\<Union> (set ` set ps))"
  by (induction sep ps rule: join.induct) auto

lemma join_ne: "ps \<noteq> [] \<Longrightarrow> \<forall>p \<in> set ps. p \<noteq> [] \<Longrightarrow> join sep ps \<noteq> []"
  by (cases "(sep, ps)" rule: join.cases) auto

lemma keys_are_words: "list_all is_word k \<and> k \<noteq> []" if "k \<in> fst ` set (settings_of c)"
  using that by (auto simp: settings_of_def is_word_def)

lemma quoted_settings_writable:
  assumes "quotable c"
  shows "list_all writable (quoted_settings c)" "map_of (settings_of c) \<subseteq>\<^sub>m assigned (quoted_settings c)"
proof -
  have "quote \<notin> set (show_nat n)" for n
    using show_nat_ok[of n] by (auto simp: digits_only_def list_all_iff is_digit_def to_digit_def quote_def)
  moreover have "quote \<notin> set (join CHR '','' ns)" if "\<forall>n \<in> set ns. quote \<notin> set n" for ns
    using that set_join[of "CHR '',''" ns] by (auto simp: quote_def)
  moreover note join_ne
  ultimately have "\<forall>(k, v) \<in> set (settings_of c). v \<noteq> [] \<and> quote \<notin> set v"
    using assms show_nat_ok by (auto simp: settings_of_def quotable_def quote_def digits_only_def)
  then show "list_all writable (quoted_settings c)"
    using keys_are_words[of _ c] by (fastforce simp: quoted_settings_def list_all_iff)
  show "map_of (settings_of c) \<subseteq>\<^sub>m assigned (quoted_settings c)"
    by (auto simp: map_le_def assigned_def quoted_settings_def settings_of_def comp_def)
qed

lemma read_written:
  assumes "caps (settings_text as) = captures_of (settings_text as)" "quotable c"
    "list_all writable as" "map_of (settings_of c) \<subseteq>\<^sub>m assigned as"
  shows "parse_config caps (Ok (settings_text as)) = Ok c"
  using assms captures_of_text by (intro parse_config_spelled[where as = "as"]) (auto simp: quotable_def)


definition sample_config :: config where
  "sample_config = \<lparr>threads_limit = 5, proc_limit = 10, wait_limit = 100, memory_limit = 8589934592,
     server_addr = ''127.0.0.1'', server_port = ''8080'', queue_names = [''jobs'', ''mail'']\<rparr>"

lemma sample_config_quotable: "quotable sample_config"
  by (simp add: quotable_def sample_config_def quote_def)


text \<open>
  A line \<open>QUEUE_NAMES=\<close> does not mean no queues: the white space after \<open>=\<close> includes the end of the
  line, so that the next line becomes the value; at the end of the file nothing is captured and
  the setting is missing; and with empty quotes the quotes themselves are the name of a queue.
\<close>

lemma empty_queue_names:
  "captures_of (''QUEUE_NAMES='' @ newline # ''PROC_LIMIT=4'') = [(Some ''QUEUE_NAMES'', None, Some ''PROC_LIMIT=4'')]"
  "captures_of (''QUEUE_NAMES='' @ [newline]) = []"
  "captures_of (''QUEUE_NAMES='' @ [quote, quote]) = [(Some ''QUEUE_NAMES'', None, Some [quote, quote])]"
  "names_of [quote, quote] = [[quote, quote]]"
  by (simp_all add: match_here_def match_value_def is_word_def is_space_def newline_def quote_def names_of_def)

text \<open>Whatever the text is, no captured key or value is empty, and every match has one value.\<close>

lemma captures_of_shape:
  "\<exists>as. captures_of s = map captured as \<and> (\<forall>(in_quotes, k, v) \<in> set as. k \<noteq> [] \<and> v \<noteq> [])"
proof (induction s rule: captures_of.induct)
  case (2 c cs)
  show ?case
  proof (cases "match_here (c # cs)")
    case None
    with 2(1) show ?thesis by simp
  next
    case (Some m)
    obtain capture rest where m: "m = (capture, rest)" by (cases m)
    obtain zs where zs: "captures_of rest = map captured zs" "\<forall>(in_quotes, k, v) \<in> set zs. k \<noteq> [] \<and> v \<noteq> []"
      using "2.IH"(2)[OF Some] m by blast
    obtain q k v where "capture = captured (q, k, v)" "k \<noteq> []" "v \<noteq> []"
    proof -
      obtain quoted plain where "match_value (dropWhile is_space (tl (dropWhile is_space (dropWhile is_word (c # cs)))))
          = Some ((quoted, plain), rest)" "capture = (Some (takeWhile is_word (c # cs)), quoted, plain)"
          "takeWhile is_word (c # cs) \<noteq> []"
        using Some m by (auto simp: match_here_def Let_def split: if_splits)
      moreover from this(1) have "(\<exists>v. v \<noteq> [] \<and> quoted = Some v \<and> plain = None) \<or> (\<exists>v. v \<noteq> [] \<and> quoted = None \<and> plain = Some v)"
        by (auto simp: match_value_def split: list.splits if_splits)
      ultimately show ?thesis
        using that[of True] that[of False] by auto
    qed
    with zs Some m show ?thesis
      by (intro exI[of _ "(q, k, v) # zs"]) simp
  qed
qed (simp add: exI[of _ "[]"])

section \<open>The shipped settings\<close>

text \<open>\<open>src/.settings\<close> and \<open>configs/.settings\<close> of the repository.\<close>

definition shipped_src :: "(bool \<times> string \<times> string) list" where
  "shipped_src = map (Pair False)
     [(''THREADS_LIMIT'', ''5''), (''PROC_LIMIT'', ''10''), (''WAIT_LIMIT'', ''100''),
      (''MEMORY_LIMIT'', ''24576''), (''SERVER_ADDR'', ''127.0.0.1''), (''SERVER_PORT'', ''8080'')]"

definition shipped_configs :: "(bool \<times> string \<times> string) list" where
  "shipped_configs = map (Pair False)
     [(''THREADS_LIMIT'', ''5''), (''PROC_LIMIT'', ''10''), (''WAIT_LIMIT'', ''100''),
      (''SERVER_ADDR'', ''127.0.0.1''), (''SERVER_PORT'', ''8080''), (''QUEUE_NAME'', ''default'')]"

text \<open>
  Neither settings file the repository ships starts the broker: \<open>src/.settings\<close> has no queue
  names and is refused with an empty message, \<open>configs/.settings\<close> has no memory limit.
\<close>

theorem shipped_settings_rejected:
  "parse_config (\<lambda>_. map captured shipped_src) (Ok text) = Err (Missing '''')
   \<and> parse_config (\<lambda>_. map captured shipped_configs) (Ok text) = Err (Missing ''missing MEMORY_LIMIT'')"
  unfolding captured_text
  by (simp add: shipped_src_def shipped_configs_def assigned_def settings_keys_def parse_unsigned_def to_digit_def)

section \<open>The address\<close>

text \<open>The usual spelling of an address.\<close>

definition show_ipv4 :: "u8 list \<Rightarrow> string" where
  "show_ipv4 ip = join CHR ''.'' (map (\<lambda>b. show_nat (unat b)) ip)"

lemma octet_of_show [simp]: "octet_of (show_nat (unat (b :: u8))) = Some b"
proof -
  have b: "unat b < 256" using unsigned_less[of b] by simp
  have "length (show_nat (unat b)) = 1" if "hd (show_nat (unat b)) = CHR ''0''"
    using show_nat_hd[OF that] by (simp add: show_nat_small)
  then show ?thesis
    using b show_nat_ok[of "unat b"] show_nat_length[of "unat b"] by (simp add: octet_of_def digits_only_def)
qed

lemma show_nat_no_dot: "CHR ''.'' \<notin> set (show_nat n)"
  using show_nat_ok[of n] by (auto simp: digits_only_def list_all_iff is_digit_def to_digit_def)

text \<open>
  Every IPv4 address and port, in their usual spelling, is the address the server listens on.
\<close>

theorem address_roundtrip:
  assumes "length ip = 4"
  shows "addr_new (show_ipv4 ip) (show_nat (unat port)) = Ok \<lparr>addr_ip = ip, addr_port = port\<rparr>"
proof -
  have "split_on CHR ''.'' (show_ipv4 ip) = map (\<lambda>b. show_nat (unat b)) ip"
    unfolding show_ipv4_def using assms
    by (intro split_on_join) (auto simp: show_nat_no_dot)
  then have "parse_ipv4 (show_ipv4 ip) = Some ip"
    using assms by (simp add: parse_ipv4_def list_all_iff comp_def)
  moreover have "parse_unsigned 16 (show_nat (unat port)) = Ok (unat port)"
    using unsigned_less[of port] by (intro parse_show_nat) simp
  ultimately show ?thesis
    by (simp add: addr_new_def)
qed

theorem address_roundtrip_witness:
  "addr_new (show_ipv4 [127, 0, 0, 1]) (show_nat (unat (8080 :: u16))) = Ok \<lparr>addr_ip = [127, 0, 0, 1], addr_port = 8080\<rparr>"
  by (rule address_roundtrip) simp

end
