(* ===== verification/Startup.thy ===== *)
theory Startup
  imports Settings Server_Properties Allocator_Run Worker_Pool
begin

text \<open>
  Start-up: \<open>main\<close> reads the settings, maps the arena and starts the server, whose \<open>run\<close> binds the
  port, builds the pool and creates the configured queues.
\<close>

section \<open>From the settings to a server\<close>

datatype boot_error = BootConfig config_error | BootAddr io_error

text \<open>\<open>start_server\<close> up to the task it spawns.\<close>

definition start_server :: "config \<Rightarrow> arena \<Rightarrow> (boot_error, addr \<times> server) result" where
  "start_server c st =
     (case addr_new (server_addr c) (server_port c) of
        Ok a \<Rightarrow> Ok (a, server_new st)
      | Err e \<Rightarrow> Err (BootAddr e)
      | Panic \<Rightarrow> Panic)"

definition main_boot ::
  "captures \<Rightarrow> (io_error, string) result \<Rightarrow> usize option \<Rightarrow> arena \<Rightarrow> (boot_error, config \<times> addr \<times> server) result" where
  "main_boot caps config_file mapping st =
     (case parse_config caps config_file of
        Err e \<Rightarrow> Err (BootConfig e)
      | Panic \<Rightarrow> Panic
      | Ok c \<Rightarrow>
          (case init_unix (unat (memory_limit c)) mapping st of
             Ok st \<Rightarrow> result_bind (start_server c st) (\<lambda>(a, sv). Ok (c, a, sv))
           | _ \<Rightarrow> Panic))"

text \<open>
  \<open>run\<close> up to its accept loop: the outcome of binding the port, and the uuids it draws. The server
  keeps the arena it was started with: the allocations that \<open>start_server\<close> and \<open>run\<close> themselves make go
  through the global allocator, as steps of \<open>heap_step\<close> in \<open>Allocator_Run\<close>.
\<close>

definition server_run ::
  "(io_error, unit) result \<Rightarrow> u128 list \<Rightarrow> config \<Rightarrow> server \<Rightarrow> (io_error, 'j pool \<times> server) result" where
  "server_run bound uuids c sv =
     result_bind bound (\<lambda>_.
       Ok (pool_new (unat (threads_limit c)) (unat (wait_limit c)),
           start_queues (zip (queue_names c) uuids) sv))"

section \<open>What a started server is\<close>

lemma start_queues_names:
  "hm_get (sv_queue_names (start_queues ns sv)) n =
     (case map_of (rev ns) n of Some h \<Rightarrow> Some h | None \<Rightarrow> hm_get (sv_queue_names sv) n)"
  by (induction ns sv rule: start_queues.induct) (auto simp: create_queue_def map_add_def split: option.split)

lemma start_queues_queues:
  "hm_get (sv_queue (start_queues ns sv)) h =
     (if h \<in> set (map snd ns) then Some queue_new else hm_get (sv_queue sv) h)"
  by (induction ns sv rule: start_queues.induct) (auto simp: create_queue_def)

lemma start_queues_arena [simp]: "sv_arena (start_queues ns sv) = sv_arena sv"
  by (induction ns sv rule: start_queues.induct) (simp_all add: create_queue_def)

lemma start_queues_get:
  "get_queue n (start_queues ns (server_new st)) =
     (case map_of (rev ns) n of Some h \<Rightarrow> Ok (h, queue_new) | None \<Rightarrow> Err QueueHashNotFound)"
proof (cases "map_of (rev ns) n")
  case (Some h)
  then have "h \<in> set (map snd ns)"
    using map_of_SomeD[of "rev ns" n h] by force
  with Some show ?thesis
    by (simp add: get_queue_def start_queues_names start_queues_queues)
qed (simp add: get_queue_def start_queues_names server_new_def)

text \<open>
  C21. A broker that starts is what its settings say: the arena has the configured size, at least
  8 GiB, is well formed and empty, and stays well formed under the allocations \<open>run\<close> makes
  next and all later ones; each configured name leads to a new, empty queue and no other
  name leads to one; and the state is one of those every later request keeps consistent. The
  mapping is assumed to be aligned user-space memory and the uuids distinct.
\<close>

theorem startup_serves_configuration:
  assumes "main_boot caps config_file (Some ptr) (arena_boot m) = Ok (c, a, sv)"
    "ptr \<noteq> null" "ptr mod 8 = 0" "ptr + unat (memory_limit c) \<le> 2 ^ 63"
    "server_run (Ok ()) uuids c sv = Ok (pool, sv')" "length uuids = length (queue_names c)" "distinct uuids"
  shows "heap_ok (sv_arena sv') [] [] \<and> (\<forall>ops. heap_state_ok (fold heap_step ops (sv_arena sv', [])))
    \<and> ar_allocated (sv_arena sv') = unat (memory_limit c)
    \<and> 2 ^ 33 \<le> ar_allocated (sv_arena sv')
    \<and> (if name \<in> set (queue_names c) then \<exists>hash \<in> set uuids. get_queue name sv' = Ok (hash, queue_new)
       else get_queue name sv' = Err QueueHashNotFound)
    \<and> server_reachable sv'"
proof -
  obtain st where st: "init_unix (unat (memory_limit c)) (Some ptr) (arena_boot m) = Ok st" and sv: "sv = server_new st"
    using assms(1) by (auto simp: main_boot_def start_server_def split: result.splits)
  let ?ns = "zip (queue_names c) uuids"
  have sv': "sv' = start_queues ?ns (server_new st)"
    using assms(5) sv by (simp add: server_run_def)
  have "heap_ok st [] []" "ar_allocated st = unat (memory_limit c)" "2 ^ 33 \<le> ar_allocated st"
    using init_heap_ok[OF st assms(2-4)] st
    by (auto simp: init_unix_def publish_base_def publish_size_def split: if_splits)
  moreover have "if name \<in> set (queue_names c) then \<exists>hash \<in> set uuids. get_queue name sv' = Ok (hash, queue_new)
       else get_queue name sv' = Err QueueHashNotFound"
  proof (cases "map_of (rev ?ns) name")
    case (Some hash)
    then have "(name, hash) \<in> set ?ns" using map_of_SomeD by fastforce
    then show ?thesis
      using Some by (auto simp: sv' start_queues_get dest: set_zip_leftD set_zip_rightD)
  next
    case None
    then have "name \<notin> fst ` set ?ns" by (simp add: map_of_eq_None_iff)
    then have "name \<notin> set (queue_names c)"
      using assms(6) by (metis list.set_map map_fst_zip)
    then show ?thesis using None by (simp add: sv' start_queues_get)
  qed
  moreover have "server_reachable sv'"
    unfolding sv' using assms(6,7) by (intro server_reachable.start) simp
  moreover have "heap_state_ok (fold heap_step ops (st, []))" for ops
    using heap.inv_run[of "(st, [])"] calculation(1) by (auto simp: heap_state_ok_def)
  ultimately show ?thesis
    by (simp add: sv' server_new_def)
qed

definition boot_file :: string where
  "boot_file = settings_text (quoted_settings sample_config)"

definition booted :: "config \<times> addr \<times> server" where
  "booted = (sample_config, \<lparr>addr_ip = [127, 0, 0, 1], addr_port = 8080\<rparr>,
     server_new (publish_size (2 ^ 33) (publish_base 4096 (arena_boot (\<lambda>_. 0)))))"

lemma sample_boot: "main_boot captures_of (Ok boot_file) (Some 4096) (arena_boot (\<lambda>_. 0)) = Ok booted"
proof -
  have "parse_config captures_of (Ok boot_file) = Ok sample_config"
    unfolding boot_file_def
    using quoted_settings_writable[OF sample_config_quotable]
    by (intro read_written sample_config_quotable) auto
  then show ?thesis
    by (simp add: main_boot_def booted_def init_unix_def arena_boot_def start_server_def addr_new_def
        sample_config_def parse_ipv4_def octet_of_def is_digit_def to_digit_def decimal_def parse_unsigned_def)
qed

theorem startup_serves_configuration_witness:
  "\<exists>sv'. server_run (Ok ()) [7, 8] sample_config (snd (snd booted)) = Ok (pool_new 5 100 :: string pool, sv')
     \<and> (\<exists>hash. get_queue ''jobs'' sv' = Ok (hash, queue_new)) \<and> get_queue ''work'' sv' = Err QueueHashNotFound"
proof -
  obtain sv' where r: "server_run (Ok ()) [7, 8] sample_config (snd (snd booted)) = Ok (pool_new 5 100 :: string pool, sv')"
    by (simp add: server_run_def sample_config_def)
  note inst = startup_serves_configuration[OF _ _ _ _ r, of captures_of "Ok boot_file" 4096 "\<lambda>_. 0" "fst (snd booted)"]
  have "get_queue ''jobs'' sv' = get_queue ''jobs'' sv'" by simp
  show ?thesis
    using r inst[of "''jobs''"] inst[of "''work''"] sample_boot
    by (auto simp: null_def sample_config_def booted_def)
qed

text \<open>
  With queue names added, \<open>src/.settings\<close> is accepted, but its memory limit of 24576 is taken in bytes
  and the start panics, before the address is even looked at.
\<close>

theorem shipped_memory_limit_panics:
  "main_boot (\<lambda>_. map captured (shipped_src @ [(False, ''QUEUE_NAMES'', names)])) (Ok text) mapping st = Panic"
  unfolding main_boot_def captured_text
  by (simp add: shipped_src_def assigned_def settings_keys_def parse_unsigned_def to_digit_def config_at_def
      number_at_def init_unix_def)

end
