(* ===== verification/Shutdown.thy ===== *)
theory Shutdown
  imports Settings
begin

text \<open>
  The life of the broker from its first connection to the return of \<open>main\<close>: the shutdown loop of
  \<open>src/main.rs\<close>, the accept and drain loops of \<open>Server::run\<close> and the connection counter of
  \<open>handle_connection\<close>. \<open>Notify\<close> wakes the tasks that wait at that moment and remembers nothing.
\<close>

section \<open>The command line option\<close>

datatype shutdown_plan = StopNow | DrainFor u64 | BadTimeout parse_int_error

definition shutdown_plan_of :: "(string, string) hash_map \<Rightarrow> shutdown_plan" where
  "shutdown_plan_of env =
     (if hm_contains_key env ''--shutdown_timeout'' then
        (case parse_unsigned 64 (the (hm_get env ''--shutdown_timeout'')) of
           Ok duration \<Rightarrow> DrainFor (if duration = 0 then 30 else word_of_nat duration)
         | Err e \<Rightarrow> BadTimeout e
         | Panic \<Rightarrow> StopNow)
      else StopNow)"

section \<open>The tasks\<close>

text \<open>
  The acceptor waits in its \<open>select!\<close>, has been notified there but not polled yet, hands an
  accepted connection to a task of its own, polls the counter, has read a zero and left the loop,
  or has announced the end of the drain. The main task waits for a signal, has notified the
  acceptor but not yet asked for the drain, waits for it, or has returned from \<open>main\<close>; the process
  then still drops the runtime, which waits for sends to full workers that are blocked.
\<close>

datatype acceptor = Listening | Woken | Dispatching | Draining | Leaving | Announced
datatype main_task = Waiting | Signalled | AwaitDrain | Returned
datatype shutdown_reason = CtrlC | SigTerm | SigHup

text \<open>The signals the broker listens for on Unix; on Windows there is only the first.\<close>

datatype os_signal = Interrupt | Terminate | Hangup

fun wait_for_shutdown :: "os_signal \<Rightarrow> shutdown_reason" where
  "wait_for_shutdown Interrupt = CtrlC"
| "wait_for_shutdown Terminate = SigTerm"
| "wait_for_shutdown Hangup = SigHup"

text \<open>
  \<open>lc_pending\<close> counts the connections accepted that \<open>handle_connection\<close> has not reached;
  \<open>lc_active\<close> is \<open>active_connections\<close>.
\<close>

record lifecycle =
  lc_acceptor :: acceptor
  lc_main :: main_task
  lc_pending :: nat
  lc_active :: nat

definition life_start :: lifecycle where
  "life_start = \<lparr>lc_acceptor = Listening, lc_main = Waiting, lc_pending = 0, lc_active = 0\<rparr>"

text \<open>\<open>stop_accepting.notify()\<close>: only an acceptor that waits is woken.\<close>

definition notify_acceptor :: "lifecycle \<Rightarrow> lifecycle" where
  "notify_acceptor s = (if lc_acceptor s = Listening then s\<lparr>lc_acceptor := Woken\<rparr> else s)"

text \<open>\<open>drained.notify()\<close>: only a main task that waits hears it.\<close>

definition notify_drained :: "lifecycle \<Rightarrow> lifecycle" where
  "notify_drained s = (if lc_main s = AwaitDrain then s\<lparr>lc_main := Returned\<rparr> else s)"

text \<open>A signal in the shutdown loop, up to the next point where the main task waits.\<close>

definition on_signal :: "shutdown_plan \<Rightarrow> shutdown_reason \<Rightarrow> lifecycle \<Rightarrow> lifecycle" where
  "on_signal plan reason s =
     (case reason of
        SigHup \<Rightarrow> s
      | _ \<Rightarrow> (notify_acceptor s)\<lparr>lc_main := (case plan of DrainFor _ \<Rightarrow> Signalled | _ \<Rightarrow> Returned)\<rparr>)"

datatype life_event =
  Accept | Hear | Dispatch | Count | Lose | Close | Signal os_signal | AskDrain | Observe | Announce | TimeOut

text \<open>
  A woken \<open>select!\<close> polls its branches in random order: it hears the notification (\<open>Hear\<close>), or takes
  a connection that is ready too and the notification is gone. The read of the counter (\<open>Observe\<close>)
  and the notification of the main task (\<open>Announce\<close>) are two steps; a worker can count a connection
  in between.
\<close>

inductive life_step :: "shutdown_plan \<Rightarrow> life_event \<Rightarrow> lifecycle \<Rightarrow> lifecycle \<Rightarrow> bool" for plan where
  accept: "lc_acceptor s \<in> {Listening, Woken} \<Longrightarrow> life_step plan Accept s (s\<lparr>lc_acceptor := Dispatching\<rparr>)"
| hear: "lc_acceptor s = Woken \<Longrightarrow> life_step plan Hear s (s\<lparr>lc_acceptor := Draining\<rparr>)"
| dispatch: "lc_acceptor s = Dispatching \<Longrightarrow>
    life_step plan Dispatch s (s\<lparr>lc_acceptor := Listening, lc_pending := lc_pending s + 1\<rparr>)"
| count: "0 < lc_pending s \<Longrightarrow>
    life_step plan Count s (s\<lparr>lc_pending := lc_pending s - 1, lc_active := lc_active s + 1\<rparr>)"
| lose: "0 < lc_pending s \<Longrightarrow> life_step plan Lose s (s\<lparr>lc_pending := lc_pending s - 1\<rparr>)"
| close: "0 < lc_active s \<Longrightarrow> life_step plan Close s (s\<lparr>lc_active := lc_active s - 1\<rparr>)"
| signal: "lc_main s = Waiting \<Longrightarrow> life_step plan (Signal sig) s (on_signal plan (wait_for_shutdown sig) s)"
| ask_drain: "lc_main s = Signalled \<Longrightarrow> life_step plan AskDrain s (s\<lparr>lc_main := AwaitDrain\<rparr>)"
| observe: "lc_acceptor s = Draining \<Longrightarrow> lc_active s = 0 \<Longrightarrow>
    life_step plan Observe s (s\<lparr>lc_acceptor := Leaving\<rparr>)"
| announce: "lc_acceptor s = Leaving \<Longrightarrow>
    life_step plan Announce s (notify_drained (s\<lparr>lc_acceptor := Announced\<rparr>))"
| time_out: "lc_main s = AwaitDrain \<Longrightarrow> life_step plan TimeOut s (s\<lparr>lc_main := Returned\<rparr>)"

inductive_cases life_stepE: "life_step plan e s t"

abbreviation life_run :: "shutdown_plan \<Rightarrow> life_event list \<Rightarrow> lifecycle \<Rightarrow> lifecycle \<Rightarrow> bool" where
  "life_run plan \<equiv> step_run (life_step plan)"

lemmas life_first = step_run_Cons[of "life_step plan" for plan]
lemmas life_one = step_run_one[of "life_step plan" for plan]
lemmas life_ops = notify_acceptor_def notify_drained_def on_signal_def

section \<open>What the drain waits for\<close>

definition occurrences :: "life_event \<Rightarrow> life_event list \<Rightarrow> nat" where
  "occurrences e es = count_list es e"

text \<open>Every connection handed on is pending, active, closed or lost.\<close>

definition connections_ok :: "life_event list \<Rightarrow> lifecycle \<Rightarrow> bool" where
  "connections_ok es t \<longleftrightarrow>
     occurrences Dispatch es = lc_pending t + lc_active t + occurrences Close es + occurrences Lose es"

lemma occurrences_append [simp]: "occurrences e (es @ fs) = occurrences e es + occurrences e fs"
  by (simp add: occurrences_def)

lemma connections_ok_step: "connections_ok es s \<Longrightarrow> life_step plan e s t \<Longrightarrow> connections_ok (es @ [e]) t"
  by (erule life_step.cases)
     (auto simp: connections_ok_def occurrences_def life_ops split: shutdown_reason.split)

interpretation life: history_machine "life_step plan" connections_ok for plan
  by unfold_locales (rule connections_ok_step)

lemma connections_ok_run: "life_run plan es life_start s \<Longrightarrow> connections_ok es s"
  using life.inv_step_run[of plan es life_start s "[]"]
  by (simp add: connections_ok_def life_start_def occurrences_def)

text \<open>
  From the moment the acceptor drains nothing is accepted, and when it has left the loop there
  was a moment at which it read a zero.
\<close>

lemma drain_splits:
  "life_run plan fs s t \<Longrightarrow> lc_acceptor s = Draining \<Longrightarrow>
     lc_acceptor t \<in> {Draining, Leaving, Announced} \<and> Accept \<notin> set fs \<and> Dispatch \<notin> set fs
     \<and> (lc_acceptor t = Leaving \<longrightarrow> (\<exists>gs seen hs. fs = gs @ Observe # hs \<and> life_run plan gs s seen
          \<and> lc_active seen = 0 \<and> life_run plan hs (seen\<lparr>lc_acceptor := Leaving\<rparr>) t))"
proof (induction rule: step_run.induct)
  case (run_more fs s t e u)
  have old: "lc_acceptor t \<in> {Draining, Leaving, Announced}" "Accept \<notin> set fs" "Dispatch \<notin> set fs"
    using run_more.IH run_more.prems by auto
  have now: "lc_acceptor u \<in> {Draining, Leaving, Announced}" "e \<noteq> Accept" "e \<noteq> Dispatch"
    using run_more.hyps(2) old(1)
    by (cases rule: life_step.cases; auto simp: life_ops split: shutdown_reason.split)+
  moreover have "\<exists>gs seen hs. fs @ [e] = gs @ Observe # hs \<and> life_run plan gs s seen
      \<and> lc_active seen = 0 \<and> life_run plan hs (seen\<lparr>lc_acceptor := Leaving\<rparr>) u" if u: "lc_acceptor u = Leaving"
  proof (cases "lc_acceptor t = Leaving")
    case True
    then obtain gs seen hs where "fs = gs @ Observe # hs" "life_run plan gs s seen" "lc_active seen = 0"
        "life_run plan hs (seen\<lparr>lc_acceptor := Leaving\<rparr>) t"
      using run_more.IH run_more.prems by blast
    with step_run.run_more[of "life_step plan", OF _ run_more.hyps(2)] show ?thesis
      by (intro exI[of _ gs] exI[of _ seen] exI[of _ "hs @ [e]"]) simp
  next
    case False
    have "e = Observe \<and> lc_active t = 0 \<and> u = t\<lparr>lc_acceptor := Leaving\<rparr>"
      using run_more.hyps(2) u False
      by (cases rule: life_step.cases) (auto simp: life_ops split: shutdown_reason.splits if_splits)
    with run_more.hyps(1) show ?thesis
      by (intro exI[of _ fs] exI[of _ t] exI[of _ "[]"]) (simp add: step_run.run_done)
  qed
  ultimately show ?case using old by auto
qed (simp add: step_run.run_done)

lemma pending_falls:
  "life_run plan fs s t \<Longrightarrow> Dispatch \<notin> set fs \<Longrightarrow> lc_pending t \<le> lc_pending s"
proof (induction rule: step_run.induct)
  case (run_more fs s t e u)
  from run_more.hyps(2) have "e \<noteq> Dispatch \<longrightarrow> lc_pending u \<le> lc_pending t"
    by (cases rule: life_step.cases) (auto simp: life_ops split: shutdown_reason.split)
  with run_more show ?case by force
qed simp

text \<open>
  C18. What an announced drain is worth. Once the acceptor has heard the signal no connection is
  accepted, and before it announces the end there was a moment (\<open>seen\<close>) at which every connection
  ever handed on had closed, was lost on its way, or was still on its way to a worker. Only
  these last ones can be open at the announcement; if none was on its way when the drain began,
  the announcement comes after every connection has ended.
\<close>

theorem announced_drain_is_complete:
  assumes "life_run plan es life_start s" "lc_acceptor s = Draining" "life_run plan fs s t" "life_step plan Announce t u"
  shows "Accept \<notin> set fs
    \<and> (\<exists>gs seen hs. fs = gs @ Observe # hs \<and> life_run plan gs s seen
        \<and> occurrences Dispatch es = lc_pending seen + occurrences Close (es @ gs) + occurrences Lose (es @ gs)
        \<and> lc_active u + lc_pending u + occurrences Close hs + occurrences Lose hs = lc_pending seen
        \<and> lc_pending seen \<le> lc_pending s)
    \<and> (lc_pending s = 0 \<longrightarrow> lc_active u = 0 \<and> lc_pending u = 0
        \<and> occurrences Dispatch es = occurrences Close (es @ fs) + occurrences Lose (es @ fs))"
proof -
  have t: "lc_acceptor t = Leaving" and u: "lc_active u = lc_active t" "lc_pending u = lc_pending t"
    using assms(4) by (cases rule: life_step.cases; simp add: life_ops)+
  obtain gs seen hs where split: "fs = gs @ Observe # hs" "life_run plan gs s seen" "lc_active seen = 0"
    and closed: "Accept \<notin> set fs" "Dispatch \<notin> set fs"
    using drain_splits[OF assms(3,2)] t by blast
  have "connections_ok (es @ gs) seen" "connections_ok (es @ fs) t"
    using connections_ok_run step_run_append[OF split(2) assms(1)] step_run_append[OF assms(3,1)] by blast+
  moreover have "occurrences Dispatch gs = 0" "occurrences Dispatch fs = 0"
    using closed split(1) by (auto simp: occurrences_def count_list_0_iff)
  moreover have "occurrences Close fs = occurrences Close gs + occurrences Close hs"
      "occurrences Lose fs = occurrences Lose gs + occurrences Lose hs"
    by (simp_all add: split(1) occurrences_def)
  moreover have "lc_pending seen \<le> lc_pending s"
    using pending_falls[OF split(2)] assms(2) closed(2) split(1) by simp
  ultimately have counts: "occurrences Dispatch es = lc_pending seen + occurrences Close (es @ gs) + occurrences Lose (es @ gs)"
      "lc_active u + lc_pending u + occurrences Close hs + occurrences Lose hs = lc_pending seen" "lc_pending seen \<le> lc_pending s"
      "occurrences Dispatch es = lc_active u + lc_pending u + occurrences Close (es @ fs) + occurrences Lose (es @ fs)"
    using split(3) u by (simp_all add: connections_ok_def)
  then have "lc_pending s = 0 \<longrightarrow> lc_active u = 0 \<and> lc_pending u = 0
      \<and> occurrences Dispatch es = occurrences Close (es @ fs) + occurrences Lose (es @ fs)" by linarith
  with counts(1-3) split(1,2) closed(1) show ?thesis by blast
qed

text \<open>One connection, counted before the signal, closes; then the drain is announced.\<close>

lemma drained_run:
  defines "opened \<equiv> life_start\<lparr>lc_acceptor := Draining, lc_main := Signalled, lc_active := 1\<rparr>"
  shows "life_run (DrainFor 5) [Accept, Dispatch, Count, Signal Interrupt, Hear] life_start opened"
    "life_run (DrainFor 5) [Close, Observe] opened (opened\<lparr>lc_active := 0, lc_acceptor := Leaving\<rparr>)"
proof -
  let ?p = "DrainFor 5" and ?c = "life_start\<lparr>lc_active := 1\<rparr>"
  have e1: "life_step ?p Accept life_start (life_start\<lparr>lc_acceptor := Dispatching\<rparr>)"
    by (rule life_step.accept) (simp add: life_start_def)
  have e2: "life_step ?p Dispatch (life_start\<lparr>lc_acceptor := Dispatching\<rparr>) (life_start\<lparr>lc_pending := 1\<rparr>)"
    using life_step.dispatch[of "life_start\<lparr>lc_acceptor := Dispatching\<rparr>"] by (simp add: life_start_def)
  have e3: "life_step ?p Count (life_start\<lparr>lc_pending := 1\<rparr>) ?c"
    using life_step.count[of "life_start\<lparr>lc_pending := 1\<rparr>"] by (simp add: life_start_def)
  have e4: "life_step ?p (Signal Interrupt) ?c (?c\<lparr>lc_acceptor := Woken, lc_main := Signalled\<rparr>)"
    using life_step.signal[of ?c ?p Interrupt] by (simp add: life_start_def life_ops)
  have e5: "life_step ?p Hear (?c\<lparr>lc_acceptor := Woken, lc_main := Signalled\<rparr>) opened"
    using life_step.hear[of "?c\<lparr>lc_acceptor := Woken, lc_main := Signalled\<rparr>"] by (simp add: life_start_def opened_def)
  show "life_run ?p [Accept, Dispatch, Count, Signal Interrupt, Hear] life_start opened"
    by (intro life_first[OF e1] life_first[OF e2] life_first[OF e3] life_first[OF e4] life_one[OF e5])
  have e6: "life_step ?p Close opened (opened\<lparr>lc_active := 0\<rparr>)"
    using life_step.close[of opened] by (simp add: life_start_def opened_def)
  have e7: "life_step ?p Observe (opened\<lparr>lc_active := 0\<rparr>) (opened\<lparr>lc_active := 0, lc_acceptor := Leaving\<rparr>)"
    using life_step.observe[of "opened\<lparr>lc_active := 0\<rparr>"] by (simp add: opened_def)
  show "life_run ?p [Close, Observe] opened (opened\<lparr>lc_active := 0, lc_acceptor := Leaving\<rparr>)"
    by (intro life_first[OF e6] life_one[OF e7])
qed

theorem announced_drain_is_complete_witness:
  "\<exists>u. life_step (DrainFor 5) Announce (life_start\<lparr>lc_acceptor := Leaving, lc_main := Signalled\<rparr>) u
     \<and> lc_active u = 0 \<and> lc_pending u = 0"
proof -
  let ?t = "life_start\<lparr>lc_acceptor := Leaving, lc_main := Signalled\<rparr>"
  have ann: "life_step (DrainFor 5) Announce ?t (notify_drained (?t\<lparr>lc_acceptor := Announced\<rparr>))"
    by (rule life_step.announce) simp
  have run: "life_run (DrainFor 5) [Close, Observe]
      (life_start\<lparr>lc_acceptor := Draining, lc_main := Signalled, lc_active := 1\<rparr>) ?t"
    using drained_run(2) by (simp add: life_start_def)
  from announced_drain_is_complete[OF drained_run(1) _ run ann] ann show ?thesis
    by (auto simp: life_start_def)
qed

section \<open>Lost wake-ups\<close>

text \<open>
  C20. A wake-up can be lost, and then the drain is useless. If the signal finds the acceptor
  handing over a connection, or the drain is over before the main task asks for it, the main
  task is never told: whatever happens next, also when all connections have closed, it only
  ends by its timeout.
\<close>

theorem lost_wakeup_waits_for_timeout:
  assumes "lc_main s = Signalled" "lc_acceptor s \<in> {Listening, Dispatching, Announced}" "life_run plan fs s t" "TimeOut \<notin> set fs"
  shows "lc_main t \<noteq> Returned \<and> Announce \<notin> set fs
    \<and> (lc_acceptor s \<noteq> Announced \<longrightarrow> lc_acceptor t \<in> {Listening, Dispatching})"
proof -
  have "TimeOut \<notin> set fs \<longrightarrow> lc_main t \<in> {Signalled, AwaitDrain} \<and> Announce \<notin> set fs
      \<and> lc_acceptor t \<in> {Listening, Dispatching, Announced} \<and> (lc_acceptor s \<noteq> Announced \<longrightarrow> lc_acceptor t \<noteq> Announced)"
    using assms(3,1,2)
  proof (induction rule: step_run.induct)
    case (run_more fs s t e u)
    from run_more(2) show ?case
      by (cases rule: life_step.cases) (use run_more in \<open>auto simp: life_ops\<close>)
  qed simp
  with assms(4) show ?thesis
    by (cases "lc_acceptor t") auto
qed

definition missed_signal :: lifecycle where
  "missed_signal = on_signal (DrainFor 30) CtrlC (life_start\<lparr>lc_acceptor := Dispatching\<rparr>)"

lemma missed_signal_run: "life_run (DrainFor 30) [Accept, Signal Interrupt] life_start missed_signal"
proof -
  let ?s = "life_start\<lparr>lc_acceptor := Dispatching\<rparr>"
  have a: "life_step (DrainFor 30) Accept life_start ?s"
    by (rule life_step.accept) (simp add: life_start_def)
  have b: "life_step (DrainFor 30) (Signal Interrupt) ?s missed_signal"
    using life_step.signal[of ?s "DrainFor 30" Interrupt] by (simp add: missed_signal_def life_start_def)
  show ?thesis
    by (intro life_first[OF a] life_one[OF b])
qed

theorem lost_wakeup_waits_for_timeout_witness:
  "life_run (DrainFor 30) [Accept, Signal Interrupt] life_start missed_signal
   \<and> (\<exists>t. life_run (DrainFor 30) [AskDrain] missed_signal t \<and> lc_main t \<noteq> Returned \<and> lc_acceptor t = Dispatching)"
proof -
  have s: "lc_main missed_signal = Signalled" "lc_acceptor missed_signal \<in> {Listening, Dispatching, Announced}"
    by (simp_all add: missed_signal_def life_ops life_start_def)
  have r: "life_run (DrainFor 30) [AskDrain] missed_signal (missed_signal\<lparr>lc_main := AwaitDrain\<rparr>)"
    by (rule life_one[OF life_step.ask_drain[OF s(1)]])
  from lost_wakeup_waits_for_timeout[OF s r] r missed_signal_run show ?thesis
    by (intro conjI exI[of _ "missed_signal\<lparr>lc_main := AwaitDrain\<rparr>"]) (simp_all add: missed_signal_def life_ops life_start_def)
qed

text \<open>
  C27. A drain can miss a connection: one that was accepted before the signal but is still on its
  way to a worker is not counted, the end of the drain is announced, and \<open>main\<close> returns
  with the connection unserved, long before the timeout.
\<close>

theorem drain_misses_uncounted_connection:
  "\<exists>s. life_run (DrainFor d) [Accept, Dispatch, Signal Terminate, Hear, AskDrain, Observe, Announce] life_start s
     \<and> lc_main s = Returned \<and> lc_pending s = 1 \<and> lc_acceptor s = Announced"
proof -
  let ?p = "DrainFor d"
  let ?s = "life_start\<lparr>lc_pending := 1\<rparr>"
  have a: "life_step ?p Accept life_start (life_start\<lparr>lc_acceptor := Dispatching\<rparr>)"
    by (rule life_step.accept) (simp add: life_start_def)
  have b: "life_step ?p Dispatch (life_start\<lparr>lc_acceptor := Dispatching\<rparr>) ?s"
    using life_step.dispatch[of "life_start\<lparr>lc_acceptor := Dispatching\<rparr>"] by (simp add: life_start_def)
  have c: "life_step ?p (Signal Terminate) ?s (?s\<lparr>lc_acceptor := Woken, lc_main := Signalled\<rparr>)"
    using life_step.signal[of ?s ?p Terminate] by (simp add: life_start_def life_ops)
  have h: "life_step ?p Hear (?s\<lparr>lc_acceptor := Woken, lc_main := Signalled\<rparr>)
      (?s\<lparr>lc_acceptor := Draining, lc_main := Signalled\<rparr>)"
    using life_step.hear[of "?s\<lparr>lc_acceptor := Woken, lc_main := Signalled\<rparr>"] by (simp add: life_start_def)
  have e: "life_step ?p AskDrain (?s\<lparr>lc_acceptor := Draining, lc_main := Signalled\<rparr>)
      (?s\<lparr>lc_acceptor := Draining, lc_main := AwaitDrain\<rparr>)"
    using life_step.ask_drain[of "?s\<lparr>lc_acceptor := Draining, lc_main := Signalled\<rparr>"] by (simp add: life_start_def)
  have o: "life_step ?p Observe (?s\<lparr>lc_acceptor := Draining, lc_main := AwaitDrain\<rparr>)
      (?s\<lparr>lc_acceptor := Leaving, lc_main := AwaitDrain\<rparr>)"
    using life_step.observe[of "?s\<lparr>lc_acceptor := Draining, lc_main := AwaitDrain\<rparr>"] by (simp add: life_start_def)
  have f: "life_step ?p Announce (?s\<lparr>lc_acceptor := Leaving, lc_main := AwaitDrain\<rparr>)
      (?s\<lparr>lc_acceptor := Announced, lc_main := Returned\<rparr>)"
    using life_step.announce[of "?s\<lparr>lc_acceptor := Leaving, lc_main := AwaitDrain\<rparr>"]
    by (simp add: life_start_def life_ops)
  have "life_run ?p [Accept, Dispatch, Signal Terminate, Hear, AskDrain, Observe, Announce] life_start
      (?s\<lparr>lc_acceptor := Announced, lc_main := Returned\<rparr>)"
    by (intro life_first[OF a] life_first[OF b] life_first[OF c] life_first[OF h] life_first[OF e] life_first[OF o] life_one[OF f])
  then show ?thesis
    by (intro exI[of _ "?s\<lparr>lc_acceptor := Announced, lc_main := Returned\<rparr>"]) (simp add: life_start_def)
qed

end
